(* ===== verification/Prelude.thy ===== *)
theory Prelude
  imports Main "HOL-Library.Word"
begin

text \<open>
  Shared vocabulary of the development: the faults a C statement of the program can
  raise, the sum type of fallible results with its sequencing combinator, bounds-checked
  access to C byte arrays, and the generic list and word facts every component uses.

  A C function is modelled by a HOL function whose result is \<open>fault + 'a\<close>: \<open>Inr\<close>
  carries the value and the new state, \<open>Inl\<close> the first undefined or fatal action
  (a null dereference, an access outside an array, a freed object, a failed
  \<open>assert\<close>, a call of \<open>exit\<close>, a loop that never ends).
\<close>

unbundle bit_operations_syntax

named_theorems mem_simps \<open>rules for bounds-checked buffer access\<close>
named_theorems codec_simps \<open>rules for encoders and decoders of machine words\<close>

section \<open>Faults and results\<close>

datatype fault =
    NullDeref
  | UseAfterFree
  | OutOfBounds
  | SignedOverflow
  | Uninitialised
  | AssertFail
  | ExitProgram int
  | Hang

type_synonym 'a res = "fault + 'a"
type_synonym byte = "8 word"
type_synonym u16 = "16 word"
type_synonym u32 = "32 word"
type_synonym u64 = "64 word"

definition ebind :: "'a res \<Rightarrow> ('a \<Rightarrow> 'b res) \<Rightarrow> 'b res" where
  "ebind m f = (case m of Inl e \<Rightarrow> Inl e | Inr x \<Rightarrow> f x)"

definition guard :: "bool \<Rightarrow> fault \<Rightarrow> 'a res \<Rightarrow> 'a res" where
  "guard c e k = (if c then k else Inl e)"

lemma ebind_Inl [simp]: "ebind (Inl e) f = Inl e"
  by (simp add: ebind_def)

lemma ebind_Inr [simp]: "ebind (Inr x) f = f x"
  by (simp add: ebind_def)

lemma ebind_eq_Inr: "ebind m f = Inr y \<longleftrightarrow> (\<exists>x. m = Inr x \<and> f x = Inr y)"
  by (cases m) auto

lemma ebind_eq_Inl: "ebind m f = Inl e \<longleftrightarrow> m = Inl e \<or> (\<exists>x. m = Inr x \<and> f x = Inl e)"
  by (cases m) auto

lemma ebind_assoc: "ebind (ebind m f) g = ebind m (\<lambda>x. ebind (f x) g)"
  by (cases m) auto

lemma ebind_Inr_right [simp]: "ebind m Inr = m"
  by (cases m) auto

lemma ebind_cong [fundef_cong]:
  assumes "m = m'" and "\<And>x. m' = Inr x \<Longrightarrow> f x = f' x"
  shows "ebind m f = ebind m' f'"
  using assms by (cases m') auto

lemma guard_True [simp]: "guard True e k = k"
  by (simp add: guard_def)

lemma guard_False [simp]: "guard False e k = Inl e"
  by (simp add: guard_def)

lemma guard_eq_Inr: "guard c e k = Inr y \<longleftrightarrow> c \<and> k = Inr y"
  by (simp add: guard_def)

lemma guard_cong [fundef_cong]:
  assumes "c = c'" and "e = e'" and "c' \<Longrightarrow> k = k'"
  shows "guard c e k = guard c' e' k'"
  using assms by (simp add: guard_def)

lemmas res_simps = ebind_eq_Inr ebind_eq_Inl guard_eq_Inr

text \<open>The result is a value, not a fault.\<close>

definition ok :: "'a res \<Rightarrow> bool" where
  "ok m = (case m of Inl _ \<Rightarrow> False | Inr _ \<Rightarrow> True)"

lemma ok_Inl [simp]: "\<not> ok (Inl e)"
  by (simp add: ok_def)

lemma ok_Inr [simp]: "ok (Inr x)"
  by (simp add: ok_def)

lemma ok_iff: "ok m \<longleftrightarrow> (\<exists>x. m = Inr x)"
  by (cases m) auto

section \<open>Byte arrays\<close>

text \<open>
  \<open>memcpy\<close> and indexing with a length or offset computed in \<open>int\<close>: a negative length
  becomes a huge \<open>size_t\<close> and a negative offset points before the array, so both are
  out of bounds; a length of zero touches nothing.
\<close>

definition mem_read :: "'a list \<Rightarrow> int \<Rightarrow> int \<Rightarrow> 'a list res" where
  "mem_read b off n =
     (if n = 0 then Inr []
      else if 0 \<le> off \<and> 0 \<le> n \<and> off + n \<le> int (length b)
      then Inr (take (nat n) (drop (nat off) b)) else Inl OutOfBounds)"

definition mem_write :: "'a list \<Rightarrow> int \<Rightarrow> 'a list \<Rightarrow> 'a list res" where
  "mem_write b off src =
     (if src = [] then Inr b
      else if 0 \<le> off \<and> off + int (length src) \<le> int (length b)
      then Inr (take (nat off) b @ src @ drop (nat off + length src) b) else Inl OutOfBounds)"

lemma mem_read_length: "mem_read b off n = Inr xs \<Longrightarrow> length xs = nat n"
  by (auto simp: mem_read_def split: if_splits)

lemma mem_write_length: "mem_write b off src = Inr b' \<Longrightarrow> length b' = length b"
  by (auto simp: mem_write_def split: if_splits)

lemma mem_read_all [mem_simps]: "mem_read b 0 (int (length b)) = Inr b"
  by (simp add: mem_read_def)

lemma mem_read_prefix [mem_simps]:
  "mem_read (b @ c) 0 (int (length b)) = Inr b"
  by (simp add: mem_read_def)

lemma mem_read_suffix [mem_simps]:
  "mem_read (b @ c) (int (length b)) (int (length c)) = Inr c"
  by (auto simp: mem_read_def)

lemma mem_write_front [mem_simps]:
  "length src = length a \<Longrightarrow> mem_write (a @ b) 0 src = Inr (src @ b)"
  by (auto simp: mem_write_def)

lemma mem_write_middle [mem_simps]:
  assumes "off = int (length a)" and "length src = length b"
  shows "mem_write (a @ b @ c) off src = Inr (a @ src @ c)"
  using assms by (auto simp: mem_write_def)

lemma upt_split: "i \<le> j \<Longrightarrow> j \<le> k \<Longrightarrow> [i..<k] = [i..<j] @ [j..<k]"
  by (metis le_iff_add upt_add_eq_append)

lemma replicate_split: "n = a + b \<Longrightarrow> replicate n x = replicate a x @ replicate b x"
  by (simp add: replicate_add)

lemma takeWhile_absent: "c \<notin> set xs \<Longrightarrow> takeWhile (\<lambda>x. x \<noteq> c) xs = xs"
  by (induction xs) auto

lemma takeWhile_upto: "c \<notin> set xs \<Longrightarrow> takeWhile (\<lambda>x. x \<noteq> c) (xs @ c # ys) = xs"
  by (induction xs) auto

section \<open>Transition systems with faults\<close>

text \<open>
  Several components are driven by a sequence of events (acknowledgements, timeouts and
  sends for the sender window; data packets for the receiver). A step either faults or
  yields the next state. When the acceptable events keep an invariant and never fault,
  neither does any run over acceptable events.
\<close>

fun run_steps :: "('s \<Rightarrow> 'e \<Rightarrow> 's res) \<Rightarrow> 's \<Rightarrow> 'e list \<Rightarrow> 's res" where
  "run_steps step s [] = Inr s"
| "run_steps step s (e # es) = ebind (step s e) (\<lambda>s'. run_steps step s' es)"

fun accepts :: "('s \<Rightarrow> 'e \<Rightarrow> 's res) \<Rightarrow> ('s \<Rightarrow> 'e \<Rightarrow> bool) \<Rightarrow> 's \<Rightarrow> 'e list \<Rightarrow> bool" where
  "accepts step adm s [] = True"
| "accepts step adm s (e # es) =
     (adm s e \<and> (case step s e of Inl _ \<Rightarrow> True | Inr s' \<Rightarrow> accepts step adm s' es))"

lemma run_steps_append:
  "run_steps step s (xs @ ys) = ebind (run_steps step s xs) (\<lambda>s'. run_steps step s' ys)"
  by (induction xs arbitrary: s) (simp_all add: ebind_assoc)

locale safe_machine =
  fixes step :: "'s \<Rightarrow> 'e \<Rightarrow> 's res"
    and adm :: "'s \<Rightarrow> 'e \<Rightarrow> bool"
    and inv :: "'s \<Rightarrow> bool"
  assumes step_safe: "inv s \<Longrightarrow> adm s e \<Longrightarrow> \<exists>s'. step s e = Inr s' \<and> inv s'"
begin

lemma step_inv: "inv s \<Longrightarrow> adm s e \<Longrightarrow> step s e = Inr s' \<Longrightarrow> inv s'"
  using step_safe by fastforce

lemma run_safe: "inv s \<Longrightarrow> accepts step adm s es \<Longrightarrow> \<exists>s'. run_steps step s es = Inr s' \<and> inv s'"
proof (induction es arbitrary: s)
  case Nil
  then show ?case by simp
next
  case (Cons e es)
  from Cons.prems obtain s' where s': "step s e = Inr s'" "inv s'"
    using step_safe by auto
  with Cons.prems have "accepts step adm s' es" by simp
  with s' Cons.IH show ?case by simp
qed

end

text \<open>
  A machine that does what an abstract one says: related states stay related, and no acceptable
  event makes the concrete step fault. It is a safe machine.
\<close>

locale simulation =
  fixes step :: "'s \<Rightarrow> 'e \<Rightarrow> 's res"
    and spec :: "'a \<Rightarrow> 'e \<Rightarrow> 'a"
    and adm :: "'e \<Rightarrow> bool"
    and rel :: "'s \<Rightarrow> 'a \<Rightarrow> bool"
  assumes step_sim: "rel s a \<Longrightarrow> adm e \<Longrightarrow> \<exists>s'. step s e = Inr s' \<and> rel s' (spec a e)"
begin

lemma run_sim: "rel s a \<Longrightarrow> list_all adm es \<Longrightarrow> \<exists>s'. run_steps step s es = Inr s' \<and> rel s' (foldl spec a es)"
proof (induction es arbitrary: s a)
  case (Cons e es)
  from Cons.prems have "adm e" by simp
  from step_sim [OF Cons.prems(1) this] obtain s' where s': "step s e = Inr s'" "rel s' (spec a e)" by blast
  with Cons.IH [OF s'(2)] Cons.prems(2) show ?case by simp
qed simp

end

sublocale simulation \<subseteq> concrete: safe_machine step "\<lambda>_ e. adm e" "\<lambda>s. \<exists>a. rel s a"
  by unfold_locales (use step_sim in blast)

end
