(* ===== verification/Bytes.thy ===== *)
theory Bytes
  imports Prelude
begin

text \<open>
  Machine words in memory. The program is compiled for a little-endian host
  (\<open>WORDS_BIGENDIAN\<close> is not defined by the Makefile): \<open>le16\<close>, \<open>le32\<close> and \<open>le64\<close> give
  the bytes of an integer object as \<open>memcpy\<close> sees them, and \<open>htons\<close>, \<open>htonl\<close> swap
  them to network order. A locale collects what a fixed-width codec promises; its
  interpretations for the two network encodings carry the packet and header proofs.
\<close>

section \<open>Integer objects as bytes\<close>

definition byte_of :: "nat \<Rightarrow> 'a::len word \<Rightarrow> byte" where
  "byte_of i w = ucast (drop_bit (8 * i) w)"

definition le16 :: "u16 \<Rightarrow> byte list" where
  "le16 w = [byte_of 0 w, byte_of 1 w]"

definition le32 :: "u32 \<Rightarrow> byte list" where
  "le32 w = [byte_of 0 w, byte_of 1 w, byte_of 2 w, byte_of 3 w]"

definition le64 :: "u64 \<Rightarrow> byte list" where
  "le64 w = map (\<lambda>i. byte_of i w) [0..<8]"

definition be16 :: "u16 \<Rightarrow> byte list" where
  "be16 w = [byte_of 1 w, byte_of 0 w]"

definition be32 :: "u32 \<Rightarrow> byte list" where
  "be32 w = [byte_of 3 w, byte_of 2 w, byte_of 1 w, byte_of 0 w]"

definition be64 :: "u64 \<Rightarrow> byte list" where
  "be64 w = rev (le64 w)"

text \<open>Reading an integer object back from its bytes.\<close>

definition rd_le16 :: "byte list \<Rightarrow> u16" where
  "rd_le16 bs = ucast (bs ! 0) OR push_bit 8 (ucast (bs ! 1))"

definition rd_le32 :: "byte list \<Rightarrow> u32" where
  "rd_le32 bs = ucast (bs ! 0) OR push_bit 8 (ucast (bs ! 1))
                OR push_bit 16 (ucast (bs ! 2)) OR push_bit 24 (ucast (bs ! 3))"

definition rd_be32 :: "byte list \<Rightarrow> u32" where
  "rd_be32 bs = ucast (bs ! 3) OR push_bit 8 (ucast (bs ! 2))
                OR push_bit 16 (ucast (bs ! 1)) OR push_bit 24 (ucast (bs ! 0))"

text \<open>
  \<open>htons\<close> and \<open>htonl\<close> on a little-endian host reverse the bytes of the object;
  \<open>ntohs\<close> and \<open>ntohl\<close> are the same functions.
\<close>

definition htons :: "u16 \<Rightarrow> u16" where
  "htons w = rd_le16 (rev (le16 w))"

definition htonl :: "u32 \<Rightarrow> u32" where
  "htonl w = rd_le32 (rev (le32 w))"

abbreviation ntohs :: "u16 \<Rightarrow> u16" where "ntohs \<equiv> htons"
abbreviation ntohl :: "u32 \<Rightarrow> u32" where "ntohl \<equiv> htonl"

lemma length_le16 [simp]: "length (le16 w) = 2" by (simp add: le16_def)
lemma length_le32 [simp]: "length (le32 w) = 4" by (simp add: le32_def)
lemma length_le64 [simp]: "length (le64 w) = 8" by (simp add: le64_def)
lemma length_be16 [simp]: "length (be16 w) = 2" by (simp add: be16_def)
lemma length_be32 [simp]: "length (be32 w) = 4" by (simp add: be32_def)
lemma length_be64 [simp]: "length (be64 w) = 8" by (simp add: be64_def)

lemma bit_byte_of: "bit (byte_of i w) n \<longleftrightarrow> n < 8 \<and> bit w (8 * i + n)"
  for w :: "'a::len word"
  by (simp add: byte_of_def bit_simps)

lemma bit_byte_high [simp]: "8 \<le> n \<Longrightarrow> \<not> bit (b::byte) n"
  by (auto dest: bit_imp_le_length)

lemma bit_u32_high [simp]: "32 \<le> n \<Longrightarrow> \<not> bit (w::u32) n"
  by (auto dest: bit_imp_le_length)

lemma rd_le16_le16 [codec_simps]: "rd_le16 (le16 w) = w"
  by (rule bit_word_eqI)
     (auto simp: rd_le16_def le16_def bit_simps bit_byte_of not_less le_Suc_ex)

lemma rd_le32_le32 [codec_simps]: "rd_le32 (le32 w) = w"
proof (rule bit_word_eqI)
  fix n
  assume "n < LENGTH(32)"
  then consider "n < 8" | "8 \<le> n" "n < 16" | "16 \<le> n" "n < 24" | "24 \<le> n" "n < 32"
    by fastforce
  then show "bit (rd_le32 (le32 w)) n = bit w n"
    by cases (auto simp: rd_le32_def le32_def bit_simps bit_byte_of)
qed

lemma rd_be32_rev: "length bs = 4 \<Longrightarrow> rd_be32 bs = rd_le32 (rev bs)"
  by (simp add: rd_be32_def rd_le32_def rev_nth)

lemma rd_be32_be32 [codec_simps]: "rd_be32 (be32 w) = w"
proof -
  have "rev (be32 w) = le32 w" by (simp add: be32_def le32_def)
  then show ?thesis by (simp add: rd_be32_rev codec_simps)
qed

lemma le16_rd_le16:
  assumes "length bs = 2"
  shows "le16 (rd_le16 bs) = bs"
proof -
  from assms obtain a b where bs: "bs = [a, b]"
    by (auto simp: numeral_2_eq_2 length_Suc_conv)
  show ?thesis
    unfolding bs le16_def rd_le16_def
    by (auto intro!: bit_word_eqI simp: bit_byte_of bit_simps)
qed

lemma le32_rd_le32:
  assumes "length bs = 4"
  shows "le32 (rd_le32 bs) = bs"
proof -
  from assms obtain a b c d where bs: "bs = [a, b, c, d]"
    by (auto simp: numeral_eq_Suc length_Suc_conv)
  show ?thesis
    unfolding bs le32_def rd_le32_def
    by (auto intro!: bit_word_eqI simp: bit_byte_of bit_simps)
qed

lemma le16_htons [codec_simps]: "le16 (htons w) = be16 w"
  by (simp add: htons_def le16_rd_le16) (simp add: le16_def be16_def)

lemma le32_htonl [codec_simps]: "le32 (htonl w) = be32 w"
  by (simp add: htonl_def le32_rd_le32) (simp add: le32_def be32_def)

lemma ntohs_htons [codec_simps]: "ntohs (htons w) = w"
  unfolding htons_def [of "htons w"] le16_htons
  by (simp add: be16_def le16_def [symmetric] codec_simps del: One_nat_def)

lemma ntohl_htonl [codec_simps]: "ntohl (htonl w) = w"
  unfolding htonl_def [of "htonl w"] le32_htonl
  by (simp add: be32_def le32_def [symmetric] codec_simps del: One_nat_def)

section \<open>Fixed-width codecs\<close>

text \<open>
  What a reader may rely on when a value is stored as a fixed number of bytes. The laws
  give injectivity, decoding in front of any remaining bytes, and unambiguous
  concatenation.
\<close>

locale byte_codec =
  fixes enc :: "'a \<Rightarrow> byte list"
    and dec :: "byte list \<Rightarrow> 'a"
    and width :: nat
  assumes enc_length: "length (enc x) = width"
    and dec_enc: "dec (enc x) = x"
begin

lemma enc_inject: "enc x = enc y \<longleftrightarrow> x = y"
  by (metis dec_enc)

lemma dec_prefix: "dec (take width (enc x @ r)) = x"
  by (simp add: enc_length dec_enc)

lemma concat_inject: "enc x @ r = enc y @ r' \<longleftrightarrow> x = y \<and> r = r'"
  using enc_length by (auto simp: enc_inject)

lemma dec_slice: "length p = n \<Longrightarrow> dec (take width (drop n (p @ enc x @ r))) = x"
  by (simp add: enc_length dec_enc)

end

text \<open>16- and 32-bit fields in network byte order.\<close>

definition rd_net16 :: "byte list \<Rightarrow> u16" where
  "rd_net16 bs = ntohs (rd_le16 bs)"

definition rd_net32 :: "byte list \<Rightarrow> u32" where
  "rd_net32 bs = ntohl (rd_le32 bs)"

interpretation net16: byte_codec be16 rd_net16 2
  by unfold_locales (simp_all add: rd_net16_def le16_htons [symmetric] codec_simps del: le16_htons)

interpretation net32: byte_codec be32 rd_net32 4
  by unfold_locales (simp_all add: rd_net32_def le32_htonl [symmetric] codec_simps del: le32_htonl)

end
