(* ===== verification/Sha.thy ===== *)
theory Sha
  imports Bytes
begin

text \<open>
  \<^verbatim>\<open>sha.c\<close>: the SHA-1 implementation that identifies chunks. The context record, the
  block function, the buffered update and the finalisation are translated as compiled
  (\<open>SHA1_UNROLL = 20\<close>, neither \<open>SHA1_FAST_COPY\<close> nor \<open>RUNTIME_ENDIAN\<close>). The second half
  states FIPS 180-4 and proves that init, any sequence of updates and final compute it.
\<close>

section \<open>The code\<close>

definition ROTL :: "u32 \<Rightarrow> nat \<Rightarrow> u32" where
  "ROTL x n = push_bit n x OR drop_bit (32 - n) x"

definition ROTR :: "u32 \<Rightarrow> nat \<Rightarrow> u32" where
  "ROTR x n = drop_bit n x OR push_bit (32 - n) x"

definition F_0_19 :: "u32 \<Rightarrow> u32 \<Rightarrow> u32 \<Rightarrow> u32" where
  "F_0_19 x y z = z XOR (x AND (y XOR z))"

definition F_20_39 :: "u32 \<Rightarrow> u32 \<Rightarrow> u32 \<Rightarrow> u32" where
  "F_20_39 x y z = x XOR y XOR z"

definition F_40_59 :: "u32 \<Rightarrow> u32 \<Rightarrow> u32 \<Rightarrow> u32" where
  "F_40_59 x y z = (x AND (y OR z)) OR (y AND z)"

definition F_60_79 :: "u32 \<Rightarrow> u32 \<Rightarrow> u32 \<Rightarrow> u32" where
  "F_60_79 x y z = x XOR y XOR z"

definition K_0_19 :: u32 where "K_0_19 = 0x5a827999"
definition K_20_39 :: u32 where "K_20_39 = 0x6ed9eba1"
definition K_40_59 :: u32 where "K_40_59 = 0x8f1bbcdc"
definition K_60_79 :: u32 where "K_60_79 = 0xca62c1d6"

definition BYTESWAP :: "u32 \<Rightarrow> u32" where
  "BYTESWAP x = (ROTR x 8 AND 0xff00ff00) OR (ROTL x 8 AND 0x00ff00ff)"

definition byteswap64 :: "u64 \<Rightarrow> u64" where
  "byteswap64 x =
     (let a = ucast (drop_bit 32 x) :: u32; b = ucast x :: u32
      in push_bit 32 (ucast (BYTESWAP b)) OR ucast (BYTESWAP a))"

record SHA1Context =
  totalLength :: u64
  hash_words :: "u32 list"
  bufferLength :: u32
  buffer_bytes :: "byte list"

definition padding :: "byte list" where
  "padding = 0x80 # replicate 63 0"

text \<open>
  \<open>SHA1Init\<close> assigns every field but the buffer, whose bytes stay whatever the stack
  held; the context is therefore a function of the previous one.
\<close>

definition SHA1Init :: "SHA1Context \<Rightarrow> SHA1Context" where
  "SHA1Init sc = sc\<lparr>totalLength := 0,
     hash_words := [0x67452301, 0xefcdab89, 0x98badcfe, 0x10325476, 0xc3d2e1f0],
     bufferLength := 0\<rparr>"

type_synonym regs = "u32 \<times> u32 \<times> u32 \<times> u32 \<times> u32"

fun do_round :: "(u32 \<Rightarrow> u32 \<Rightarrow> u32 \<Rightarrow> u32) \<Rightarrow> u32 \<Rightarrow> regs \<Rightarrow> u32 \<Rightarrow> regs" where
  "do_round F K (a, b, c, d, e) w =
     (let temp = ROTL a 5 + F b c d + e + w + K in (temp, a, ROTL b 30, c, d))"

text \<open>The first sixteen schedule words: the block read as host integers and byte-swapped.\<close>

definition load_block :: "byte list \<Rightarrow> u32 list" where
  "load_block cbuf = map (\<lambda>i. BYTESWAP (rd_le32 (take 4 (drop (4 * i) cbuf)))) [0..<16]"

text \<open>The loop that fills \<open>buf[16..79]\<close>: \<open>W3\<close>, \<open>W8\<close>, \<open>W14\<close> and \<open>W16\<close> trail the write position.\<close>

fun extend_schedule :: "nat \<Rightarrow> u32 list \<Rightarrow> u32 list" where
  "extend_schedule 0 buf = buf"
| "extend_schedule (Suc n) buf =
     (let t = length buf
      in extend_schedule n
           (buf @ [ROTL (buf ! (t - 3) XOR buf ! (t - 8) XOR buf ! (t - 14) XOR buf ! (t - 16)) 1]))"

definition sha_rounds :: "u32 list \<Rightarrow> regs \<Rightarrow> regs" where
  "sha_rounds W r0 =
     (let r1 = foldl (do_round F_0_19 K_0_19) r0 (take 20 W);
          r2 = foldl (do_round F_20_39 K_20_39) r1 (take 20 (drop 20 W));
          r3 = foldl (do_round F_40_59 K_40_59) r2 (take 20 (drop 40 W))
      in foldl (do_round F_60_79 K_60_79) r3 (take 20 (drop 60 W)))"

definition SHA1Guts :: "SHA1Context \<Rightarrow> byte list \<Rightarrow> SHA1Context" where
  "SHA1Guts sc cbuf =
     (let W = extend_schedule 64 (load_block cbuf);
          h = hash_words sc
      in case sha_rounds W (h ! 0, h ! 1, h ! 2, h ! 3, h ! 4) of
           (a, b, c, d, e) \<Rightarrow>
             sc\<lparr>hash_words := [h ! 0 + a, h ! 1 + b, h ! 2 + c, h ! 3 + d, h ! 4 + e]\<rparr>)"

text \<open>
  \<open>SHA1Update\<close> copies at most the free part of the 64-byte buffer per turn of its loop
  and runs the block function whenever the buffer is full. With a full buffer at entry
  \<open>bytesToCopy\<close> is 0 and \<open>len\<close> never shrinks, so the loop does not end.
\<close>

function SHA1Update :: "SHA1Context \<Rightarrow> byte list \<Rightarrow> SHA1Context res" where
  "SHA1Update sc data =
     (if data = [] then Inr sc
      else let bufferBytesLeft = 64 - bufferLength sc;
               bytesToCopy = min (unat bufferBytesLeft) (length data)
           in if bytesToCopy = 0 then Inl Hang
              else ebind (mem_write (buffer_bytes sc) (uint (bufferLength sc)) (take bytesToCopy data))
                (\<lambda>bytes.
                   let sc1 = sc\<lparr>buffer_bytes := bytes,
                                totalLength := totalLength sc + of_nat bytesToCopy * 8,
                                bufferLength := bufferLength sc + of_nat bytesToCopy\<rparr>;
                       sc2 = (if bufferLength sc1 = 64
                              then (SHA1Guts sc1 (buffer_bytes sc1))\<lparr>bufferLength := 0\<rparr>
                              else sc1)
                   in SHA1Update sc2 (drop bytesToCopy data)))"
  by pat_completeness auto
termination
  by (relation "measure (\<lambda>(sc, data). length data)") auto

declare SHA1Update.simps [simp del]

definition hash_bytes :: "u32 \<Rightarrow> byte list" where
  "hash_bytes h = [ucast (drop_bit 24 h), ucast (drop_bit 16 h), ucast (drop_bit 8 h), ucast h]"

definition SHA1Final :: "SHA1Context \<Rightarrow> (SHA1Context \<times> byte list) res" where
  "SHA1Final sc =
     (let pad0 = 120 - bufferLength sc;
          bytesToPad = (if pad0 > 64 then pad0 - 64 else pad0);
          lengthPad = byteswap64 (totalLength sc)
      in ebind (mem_read padding 0 (uint bytesToPad)) (\<lambda>pad.
         ebind (SHA1Update sc pad) (\<lambda>sc1.
         ebind (SHA1Update sc1 (le64 lengthPad)) (\<lambda>sc2.
         Inr (sc2, concat (map (\<lambda>i. hash_bytes (hash_words sc2 ! i)) [0..<5]))))))"

section \<open>FIPS 180-4\<close>

definition fips_f :: "nat \<Rightarrow> u32 \<Rightarrow> u32 \<Rightarrow> u32 \<Rightarrow> u32" where
  "fips_f t x y z =
     (if t < 20 then (x AND y) XOR (NOT x AND z)
      else if t < 40 then x XOR y XOR z
      else if t < 60 then (x AND y) XOR (x AND z) XOR (y AND z)
      else x XOR y XOR z)"

definition fips_K :: "nat \<Rightarrow> u32" where
  "fips_K t = (if t < 20 then 0x5a827999 else if t < 40 then 0x6ed9eba1
               else if t < 60 then 0x8f1bbcdc else 0xca62c1d6)"

fun fips_W :: "(nat \<Rightarrow> u32) \<Rightarrow> nat \<Rightarrow> u32" where
  "fips_W M t = (if t < 16 then M t
     else word_rotl 1 (fips_W M (t - 3) XOR fips_W M (t - 8) XOR fips_W M (t - 14) XOR fips_W M (t - 16)))"

declare fips_W.simps [simp del]

text \<open>The \<open>t\<close>-th word of a block, big-endian.\<close>

definition block_word :: "byte list \<Rightarrow> nat \<Rightarrow> u32" where
  "block_word blk t = rd_be32 (take 4 (drop (4 * t) blk))"

definition fips_round :: "(nat \<Rightarrow> u32) \<Rightarrow> regs \<Rightarrow> nat \<Rightarrow> regs" where
  "fips_round W r t = (case r of (a, b, c, d, e) \<Rightarrow>
     (word_rotl 5 a + fips_f t b c d + e + fips_K t + W t, a, word_rotl 30 b, c, d))"

definition fips_block :: "regs \<Rightarrow> byte list \<Rightarrow> regs" where
  "fips_block H blk =
     (case (H, foldl (fips_round (fips_W (block_word blk))) H [0..<80]) of
        ((h0, h1, h2, h3, h4), (a, b, c, d, e)) \<Rightarrow> (h0 + a, h1 + b, h2 + c, h3 + d, h4 + e))"

text \<open>All complete 64-byte blocks at the front of a message.\<close>

function absorb :: "regs \<Rightarrow> byte list \<Rightarrow> regs" where
  "absorb H m = (if length m < 64 then H else absorb (fips_block H (take 64 m)) (drop 64 m))"
  by pat_completeness auto
termination
  by (relation "measure (\<lambda>(H, m). length m)") auto

declare absorb.simps [simp del]

definition fips_pad :: "byte list \<Rightarrow> byte list" where
  "fips_pad m = m @ [0x80] @ replicate (nat ((55 - int (length m)) mod 64)) 0
                @ be64 (of_nat (8 * length m))"

definition fips_H0 :: regs where
  "fips_H0 = (0x67452301, 0xefcdab89, 0x98badcfe, 0x10325476, 0xc3d2e1f0)"

definition regs_bytes :: "regs \<Rightarrow> byte list" where
  "regs_bytes r = (case r of (a, b, c, d, e) \<Rightarrow> be32 a @ be32 b @ be32 c @ be32 d @ be32 e)"

definition fips_sha1 :: "byte list \<Rightarrow> byte list" where
  "fips_sha1 m = regs_bytes (absorb fips_H0 (fips_pad m))"

section \<open>The block function computes the FIPS block function\<close>

lemma rotl_index:
  assumes "0 < n" and "n < 32" and "(i::nat) < 32"
  shows "(i + 32 - n) mod 32 = (if n \<le> i then i - n else 32 + i - n)"
proof (cases "n \<le> i")
  case True
  then have "(i + 32 - n) mod 32 = ((i - n) + 32) mod 32" by simp
  also have "\<dots> = i - n" using assms by (simp only: mod_add_self2) simp
  finally show ?thesis using True by simp
next
  case False
  with assms show ?thesis by simp
qed

lemma ROTL_word_rotl: "0 < n \<Longrightarrow> n < 32 \<Longrightarrow> ROTL x n = word_rotl n x"
  by (rule bit_word_eqI)
     (auto simp: ROTL_def bit_simps rotl_index not_le dest: bit_imp_le_length split: if_splits)

lemma F_0_19_fips: "t < 20 \<Longrightarrow> F_0_19 x y z = fips_f t x y z"
  by (rule bit_word_eqI) (auto simp: F_0_19_def fips_f_def bit_simps)

lemma F_20_39_fips: "20 \<le> t \<Longrightarrow> t < 40 \<Longrightarrow> F_20_39 x y z = fips_f t x y z"
  by (simp add: F_20_39_def fips_f_def)

lemma F_40_59_fips: "40 \<le> t \<Longrightarrow> t < 60 \<Longrightarrow> F_40_59 x y z = fips_f t x y z"
  by (rule bit_word_eqI) (auto simp: F_40_59_def fips_f_def bit_simps)

lemma F_60_79_fips: "60 \<le> t \<Longrightarrow> F_60_79 x y z = fips_f t x y z"
  by (simp add: F_60_79_def fips_f_def)

text \<open>\<open>BYTESWAP\<close> exchanges the bytes of a word, so the schedule starts with big-endian words.\<close>

lemma swap_masks:
  "(0xff00ff00 :: u32) = push_bit 8 (mask 8) OR push_bit 24 (mask 8)"
  "(0x00ff00ff :: u32) = mask 8 OR push_bit 16 (mask 8)"
  by (simp_all add: mask_eq_exp_minus_1)

lemma BYTESWAP_htonl: "BYTESWAP x = htonl x"
proof (rule bit_word_eqI)
  fix n
  assume "n < LENGTH(32)"
  then consider "n < 8" | "8 \<le> n" "n < 16" | "16 \<le> n" "n < 24" | "24 \<le> n" "n < 32"
    by fastforce
  then show "bit (BYTESWAP x) n = bit (htonl x) n"
    unfolding BYTESWAP_def swap_masks ROTR_def ROTL_def htonl_def rd_le32_def le32_def
    by cases (auto simp: bit_simps bit_byte_of dest: bit_imp_le_length)
qed

lemma BYTESWAP_rd: "length bs = 4 \<Longrightarrow> BYTESWAP (rd_le32 bs) = rd_be32 bs"
  by (simp add: BYTESWAP_htonl htonl_def le32_rd_le32 rd_be32_rev)

lemma load_block_length [simp]: "length (load_block c) = 16"
  by (simp add: load_block_def)

lemma load_block_nth: "length c = 64 \<Longrightarrow> t < 16 \<Longrightarrow> load_block c ! t = block_word c t"
  by (simp add: load_block_def block_word_def BYTESWAP_rd)

lemma extend_schedule_fips:
  assumes "16 \<le> length buf" and "\<forall>t < length buf. buf ! t = fips_W M t"
  shows "extend_schedule n buf = map (fips_W M) [0..<length buf + n]"
  using assms
proof (induction n arbitrary: buf)
  case 0
  then show ?case by (auto intro!: nth_equalityI)
next
  case (Suc n)
  let ?t = "length buf"
  let ?w = "ROTL (buf ! (?t - 3) XOR buf ! (?t - 8) XOR buf ! (?t - 14) XOR buf ! (?t - 16)) 1"
  have "?w = fips_W M ?t"
    using Suc.prems by (subst fips_W.simps) (simp add: ROTL_word_rotl)
  then have "\<forall>t < length (buf @ [?w]). (buf @ [?w]) ! t = fips_W M t"
    using Suc.prems by (auto simp: nth_append less_Suc_eq)
  with Suc.IH [of "buf @ [?w]"] Suc.prems show ?case by (simp add: Let_def)
qed

lemma schedule_fips:
  assumes "length c = 64"
  shows "extend_schedule 64 (load_block c) = map (fips_W (block_word c)) [0..<80]"
proof -
  have "\<forall>t < length (load_block c). load_block c ! t = fips_W (block_word c) t"
    using assms by (simp add: load_block_nth fips_W.simps)
  then show ?thesis
    using extend_schedule_fips [of "load_block c" "block_word c" 64] by simp
qed

lemma do_round_fips:
  assumes "\<And>x y z. F x y z = fips_f t x y z" and "K = fips_K t"
  shows "do_round F K r (W t) = fips_round W r t"
  using assms by (cases r) (simp add: fips_round_def ROTL_word_rotl ac_simps)

lemma rounds_segment:
  assumes "\<And>t x y z. t \<in> set ts \<Longrightarrow> F x y z = fips_f t x y z"
    and "\<And>t. t \<in> set ts \<Longrightarrow> K = fips_K t"
  shows "foldl (do_round F K) r (map W ts) = foldl (fips_round W) r ts"
  using assms by (induction ts arbitrary: r) (simp_all add: do_round_fips)

lemmas K_defs = K_0_19_def K_20_39_def K_40_59_def K_60_79_def

lemma sha_rounds_fips: "sha_rounds (map W [0..<80]) r = foldl (fips_round W) r [0..<80]"
proof -
  have split: "[0..<80] = [0..<20] @ [20..<40] @ [40..<60] @ [60..<(80::nat)]"
    using upt_split [of 0 20 80] upt_split [of 20 40 80] upt_split [of 40 60 80]
    by (simp only: le_num_simps le0 semiring_norm simp_thms True_implies_equals zero_le_numeral)
  have "foldl (do_round F_0_19 K_0_19) r (map W [0..<20]) = foldl (fips_round W) r [0..<20]" for r
    by (rule rounds_segment) (auto simp: F_0_19_fips K_defs fips_K_def)
  moreover have "foldl (do_round F_20_39 K_20_39) r (map W [20..<40]) = foldl (fips_round W) r [20..<40]" for r
    by (rule rounds_segment) (auto simp: F_20_39_fips K_defs fips_K_def)
  moreover have "foldl (do_round F_40_59 K_40_59) r (map W [40..<60]) = foldl (fips_round W) r [40..<60]" for r
    by (rule rounds_segment) (auto simp: F_40_59_fips K_defs fips_K_def)
  moreover have "foldl (do_round F_60_79 K_60_79) r (map W [60..<80]) = foldl (fips_round W) r [60..<80]" for r
    by (rule rounds_segment) (auto simp: F_60_79_fips K_defs fips_K_def)
  ultimately show ?thesis
    unfolding split map_append foldl_append sha_rounds_def Let_def
    by (simp del: upt_rec_numeral)
qed

text \<open>The hash words of a context, as a register tuple.\<close>

fun regs_of :: "u32 list \<Rightarrow> regs" where
  "regs_of h = (h ! 0, h ! 1, h ! 2, h ! 3, h ! 4)"

declare regs_of.simps [simp del]

lemma SHA1Guts_fips:
  assumes "length c = 64"
  shows "regs_of (hash_words (SHA1Guts sc c)) = fips_block (regs_of (hash_words sc)) c"
  using assms
  by (simp add: SHA1Guts_def regs_of.simps schedule_fips sha_rounds_fips fips_block_def Let_def
      del: upt_rec_numeral split: prod.split)

lemma SHA1Guts_fields [simp]:
  "totalLength (SHA1Guts sc c) = totalLength sc"
  "bufferLength (SHA1Guts sc c) = bufferLength sc"
  "buffer_bytes (SHA1Guts sc c) = buffer_bytes sc"
  "length (hash_words (SHA1Guts sc c)) = 5"
  by (simp_all add: SHA1Guts_def Let_def split: prod.split)

section \<open>The buffered update computes the hash of the concatenation\<close>

lemma absorb_short: "length m < 64 \<Longrightarrow> absorb H m = H"
  by (simp add: absorb.simps)

lemma absorb_block: "length b = 64 \<Longrightarrow> absorb H b = fips_block H b"
  by (simp add: absorb.simps [of H b] absorb_short)

lemma absorb_append: "length a mod 64 = 0 \<Longrightarrow> absorb H (a @ b) = absorb (absorb H a) b"
proof (induction H a rule: absorb.induct)
  case (1 H a)
  show ?case
  proof (cases "length a < 64")
    case True
    with "1.prems" have "a = []" by simp
    then show ?thesis by (simp add: absorb_short)
  next
    case False
    with "1.prems" have "length (drop 64 a) mod 64 = 0"
      by (simp add: le_mod_geq)
    with 1 False have "absorb (fips_block H (take 64 a)) (drop 64 a @ b)
        = absorb (absorb (fips_block H (take 64 a)) (drop 64 a)) b" by blast
    with False show ?thesis
      by (simp add: absorb.simps [of H "a @ b"] absorb.simps [of H a])
  qed
qed

text \<open>
  The contract of a context: the message \<open>m\<close> fed so far is absorbed up to its last
  complete block, and the rest of it lies at the front of the buffer.
\<close>

definition sha_inv :: "SHA1Context \<Rightarrow> byte list \<Rightarrow> bool" where
  "sha_inv sc m \<longleftrightarrow>
     length (hash_words sc) = 5 \<and> length (buffer_bytes sc) = 64 \<and>
     unat (bufferLength sc) = length m mod 64 \<and>
     take (length m mod 64) (buffer_bytes sc) = drop (length m - length m mod 64) m \<and>
     regs_of (hash_words sc) = absorb fips_H0 (take (length m - length m mod 64) m) \<and>
     totalLength sc = of_nat (length m) * 8"

lemma sha_inv_init:
  "length (buffer_bytes sc) = 64 \<Longrightarrow> sha_inv (SHA1Init sc) []"
  by (simp add: sha_inv_def SHA1Init_def regs_of.simps fips_H0_def absorb_short)

text \<open>The turn of the loop that leaves the buffer partly filled.\<close>

lemma sha_inv_partial:
  assumes inv: "sha_inv sc m" and d: "length m mod 64 + length d < 64"
  shows "sha_inv (sc\<lparr>buffer_bytes := take (length m mod 64) (buffer_bytes sc) @ d
                       @ drop (length m mod 64 + length d) (buffer_bytes sc),
                     totalLength := totalLength sc + of_nat (length d) * 8,
                     bufferLength := bufferLength sc + of_nat (length d)\<rparr>) (m @ d)"
proof -
  let ?r = "length m mod 64" and ?q = "length m - length m mod 64"
  have mod: "(length m + length d) mod 64 = ?r + length d"
    using d by (metis mod_add_left_eq mod_less)
  then have q: "length m + length d - (length m + length d) mod 64 = ?q"
    by simp
  have "unat (bufferLength sc + of_nat (length d)) = ?r + length d"
    using inv d by (simp add: sha_inv_def unat_word_ariths unat_of_nat)
  with inv d show ?thesis
    unfolding sha_inv_def length_append mod q
    by (simp add: distrib_right)
qed

text \<open>The turn that completes a block.\<close>

lemma sha_inv_full:
  assumes inv: "sha_inv sc m" and d: "length m mod 64 + length d = 64"
  shows "sha_inv ((SHA1Guts (sc\<lparr>buffer_bytes := take (length m mod 64) (buffer_bytes sc) @ d,
                     totalLength := totalLength sc + of_nat (length d) * 8,
                     bufferLength := x\<rparr>) (take (length m mod 64) (buffer_bytes sc) @ d))
                  \<lparr>bufferLength := 0\<rparr>) (m @ d)"
proof -
  let ?r = "length m mod 64" and ?q = "length m - length m mod 64"
  let ?blk = "take ?r (buffer_bytes sc) @ d"
  have blk: "?blk = drop ?q m @ d" and "length ?blk = 64"
    using inv d by (auto simp: sha_inv_def)
  have mod: "(length m + length d) mod 64 = 0"
    using d by (metis mod_add_left_eq mod_self)
  have "m @ d = take ?q m @ ?blk" by (simp add: blk)
  moreover have "length (take ?q m) mod 64 = 0"
    by (simp add: minus_mod_eq_mult_div)
  ultimately have "absorb fips_H0 (m @ d) = fips_block (absorb fips_H0 (take ?q m)) ?blk"
    using \<open>length ?blk = 64\<close> by (simp only: absorb_append absorb_block)
  with inv \<open>length ?blk = 64\<close> show ?thesis
    unfolding sha_inv_def length_append mod
    by (simp add: SHA1Guts_fips distrib_right)
qed

lemma SHA1Update_step:
  assumes inv: "sha_inv sc m" and "d \<noteq> []"
  obtains n sc' where "0 < n" and "n \<le> length d" and "sha_inv sc' (m @ take n d)"
    and "SHA1Update sc d = SHA1Update sc' (drop n d)"
proof -
  let ?r = "length m mod 64"
  define n where "n = min (64 - ?r) (length d)"
  let ?buf = "take ?r (buffer_bytes sc) @ take n d @ drop (?r + n) (buffer_bytes sc)"
  define sc1 where "sc1 = sc\<lparr>buffer_bytes := ?buf,
      totalLength := totalLength sc + of_nat n * 8, bufferLength := bufferLength sc + of_nat n\<rparr>"
  define sc2 where "sc2 = (if bufferLength sc1 = 64
      then (SHA1Guts sc1 (buffer_bytes sc1))\<lparr>bufferLength := 0\<rparr> else sc1)"
  have r: "unat (bufferLength sc) = ?r" "length (buffer_bytes sc) = 64" "?r < 64"
    using inv by (auto simp: sha_inv_def)
  have left: "unat (64 - bufferLength sc) = 64 - ?r"
    using r by (subst unat_sub) (auto simp: word_le_nat_alt)
  have n: "0 < n" "n \<le> length d" "?r + n \<le> 64"
    using assms(2) r(3) by (auto simp: n_def)
  have wr: "mem_write (buffer_bytes sc) (uint (bufferLength sc)) (take n d) = Inr ?buf"
  proof -
    have "uint (bufferLength sc) = int ?r" by (simp add: r(1) [symmetric])
    with n r(2) \<open>d \<noteq> []\<close> show ?thesis by (auto simp: mem_write_def)
  qed
  have eq: "SHA1Update sc d = SHA1Update sc2 (drop n d)"
    using n left wr \<open>d \<noteq> []\<close>
    by (subst SHA1Update.simps) (simp add: Let_def n_def [symmetric] sc1_def sc2_def)
  have bl: "unat (bufferLength sc1) = ?r + n"
    using r n by (simp add: sc1_def unat_word_ariths unat_of_nat)
  have "sha_inv sc2 (m @ take n d)"
  proof (cases "?r + n = 64")
    case True
    with bl have full: "bufferLength sc1 = 64" by (simp add: word_unat_eq_iff)
    have "sha_inv ((SHA1Guts sc1 (buffer_bytes sc1))\<lparr>bufferLength := 0\<rparr>) (m @ take n d)"
      using sha_inv_full [OF inv, of "take n d"] True n r(2) by (simp add: sc1_def)
    with full show ?thesis by (simp add: sc2_def)
  next
    case False
    with bl n have "bufferLength sc1 \<noteq> 64" by auto
    moreover have "sha_inv sc1 (m @ take n d)"
      using sha_inv_partial [OF inv, of "take n d"] False n by (simp add: sc1_def)
    ultimately show ?thesis by (simp add: sc2_def)
  qed
  with n eq show ?thesis by (intro that)
qed

lemma SHA1Update_inv:
  "sha_inv sc m \<Longrightarrow> \<exists>sc'. SHA1Update sc d = Inr sc' \<and> sha_inv sc' (m @ d)"
proof (induction d arbitrary: sc m rule: length_induct)
  case (1 d)
  show ?case
  proof (cases "d = []")
    case True
    with "1.prems" show ?thesis by (simp add: SHA1Update.simps)
  next
    case False
    with "1.prems" obtain n sc' where n: "0 < n" "n \<le> length d" "sha_inv sc' (m @ take n d)"
      "SHA1Update sc d = SHA1Update sc' (drop n d)"
      by (rule SHA1Update_step)
    then have "length (drop n d) < length d" by simp
    with "1.IH" n(3) obtain sc'' where
      "SHA1Update sc' (drop n d) = Inr sc''" "sha_inv sc'' ((m @ take n d) @ drop n d)"
      by blast
    with n(4) show ?thesis by simp
  qed
qed

lemma upt_8: "[0..<8] = [0, 1, 2, 3, 4, 5, 6, (7::nat)]"
  by (simp add: upt_rec)

lemma le64_join: "le64 (push_bit 32 (ucast h) OR ucast l) = le32 l @ le32 h"
  for h l :: u32
  by (auto simp: le64_def le32_def upt_8 bit_byte_of bit_simps dest: bit_imp_le_length intro!: bit_word_eqI)

lemma be64_split: "be64 w = be32 (ucast (drop_bit 32 w)) @ be32 (ucast w)"
  by (auto simp: be64_def le64_def be32_def upt_8 bit_byte_of bit_simps intro!: bit_word_eqI)

lemma byteswap64_be: "le64 (byteswap64 w) = be64 w"
  by (simp add: byteswap64_def Let_def BYTESWAP_htonl le64_join be64_split codec_simps)

text \<open>The padding of \<open>SHA1Final\<close> is the FIPS padding.\<close>

lemma final_pad_length:
  fixes bl :: u32
  assumes "unat bl = r" and "(r::nat) < 64"
  shows "uint (let pad0 = 120 - bl in if pad0 > 64 then pad0 - 64 else pad0)
         = int (Suc (nat ((55 - int r) mod 64)))"
proof -
  have p: "unat (120 - bl) = 120 - r"
    using assms by (subst unat_sub) (auto simp: word_le_nat_alt)
  show ?thesis
  proof (cases "120 - r > 64")
    case True
    with p have gt: "120 - bl > 64" by (simp add: word_less_nat_alt)
    then have "unat (120 - bl - 64) = 56 - r"
      using p True by (subst unat_sub) (auto simp: word_le_nat_alt)
    moreover have "(55 - int r) mod 64 = 55 - int r" using True by simp
    ultimately show ?thesis using gt True by (simp flip: uint_nat add: uint_nat)
  next
    case False
    with p have "\<not> 120 - bl > 64" by (simp add: word_less_nat_alt)
    moreover have "(55 - int r) mod 64 = 119 - int r"
      using False assms by (subst mod_add_self2 [symmetric]) simp
    ultimately show ?thesis using p False assms by (simp add: uint_nat)
  qed
qed

lemma padding_take: "n < 64 \<Longrightarrow> mem_read padding 0 (int (Suc n)) = Inr (0x80 # replicate n 0)"
  by (simp add: mem_read_def padding_def min_def nat_add_distrib)

lemma hash_bytes_be32: "hash_bytes h = be32 h"
  by (simp add: hash_bytes_def be32_def byte_of_def)

lemma upt_5: "[0..<5] = [0, 1, 2, 3, (4::nat)]"
  by (simp add: upt_rec)

lemma digest_bytes: "concat (map (\<lambda>i. hash_bytes (h ! i)) [0..<5]) = regs_bytes (regs_of h)"
  by (simp add: regs_bytes_def regs_of.simps hash_bytes_be32 upt_5)

lemma fips_pad_mod: "length (fips_pad m) mod 64 = 0"
proof -
  have "int (length (fips_pad m)) = int (length m) + 9 + (55 - int (length m)) mod 64"
    by (simp add: fips_pad_def)
  then have "int (length (fips_pad m)) mod 64 = (int (length m) + 9 + (55 - int (length m))) mod 64"
    by (simp only: mod_add_right_eq)
  then have "int (length (fips_pad m) mod 64) = 0" by (simp add: zmod_int)
  then show ?thesis by (simp only: of_nat_eq_0_iff)
qed

lemma SHA1Final_fips:
  assumes inv: "sha_inv sc m"
  shows "\<exists>sc'. SHA1Final sc = Inr (sc', fips_sha1 m)"
proof -
  let ?r = "length m mod 64"
  let ?k = "nat ((55 - int ?r) mod 64)"
  let ?pad = "0x80 # replicate ?k (0::byte)"
  have tl: "totalLength sc = of_nat (8 * length m)"
    using inv by (simp add: sha_inv_def mult.commute)
  have k: "?k = nat ((55 - int (length m)) mod 64)"
    using mod_diff_right_eq [of 55 "int (length m)" 64] by (simp add: zmod_int)
  have bl: "unat (bufferLength sc) = ?r" using inv by (simp add: sha_inv_def)
  obtain sc1 where sc1: "SHA1Update sc ?pad = Inr sc1" "sha_inv sc1 (m @ ?pad)"
    using SHA1Update_inv [OF inv] by blast
  obtain sc2 where sc2: "SHA1Update sc1 (be64 (of_nat (8 * length m))) = Inr sc2"
    "sha_inv sc2 ((m @ ?pad) @ be64 (of_nat (8 * length m)))"
    using SHA1Update_inv [OF sc1(2)] by blast
  have msg: "(m @ ?pad) @ be64 (of_nat (8 * length m)) = fips_pad m"
    by (simp only: fips_pad_def k) simp
  have "mem_read padding 0 (uint (let pad0 = 120 - bufferLength sc
      in if pad0 > 64 then pad0 - 64 else pad0)) = Inr ?pad"
    by (subst final_pad_length [OF bl]) (simp, subst padding_take, auto)
  then have "SHA1Final sc = Inr (sc2, regs_bytes (regs_of (hash_words sc2)))"
    using sc1(1) sc2(1)
    by (simp add: SHA1Final_def Let_def tl byteswap64_be digest_bytes del: upt_rec_numeral)
  moreover have "regs_of (hash_words sc2) = absorb fips_H0 (fips_pad m)"
    using sc2(2) unfolding msg sha_inv_def by (simp add: fips_pad_mod)
  ultimately show ?thesis by (simp add: fips_sha1_def)
qed

section \<open>A known answer\<close>

text \<open>
  The first NIST sample message of the comment at the head of \<^verbatim>\<open>sha.c\<close>, \<open>abc\<close>: its
  single block, the schedule and the state after each group of twenty rounds, evaluated
  by the simplifier on the code's own definitions.
\<close>

lemma extend_schedule_numeral:
  "extend_schedule (numeral k) buf = extend_schedule (pred_numeral k)
     (buf @ [ROTL (buf ! (length buf - 3) XOR buf ! (length buf - 8)
                   XOR buf ! (length buf - 14) XOR buf ! (length buf - 16)) 1])"
  by (simp add: numeral_eq_Suc Let_def)

lemma upt_16: "[0..<16] = [0, 1, 2, 3, 4, 5, 6, 7, 8, 9, 10, 11, 12, 13, 14, (15::nat)]"
  by (simp add: upt_rec)

definition abc_block :: "byte list" where
  "abc_block = [0x61, 0x62, 0x63, 0x80] @ replicate 52 0 @ be64 24"

lemma abc_load: "load_block abc_block = [1633837952, 0, 0, 0, 0, 0, 0, 0, 0, 0, 0, 0, 0, 0, 0, 24]"
  by (simp add: abc_block_def be64_split be32_def byte_of_def load_block_def BYTESWAP_rd
      rd_be32_def upt_16)

lemma abc_schedule: "extend_schedule 64 [1633837952, 0, 0, 0, 0, 0, 0, 0, 0, 0, 0, 0, 0, 0, 0, 24] =
  [1633837952, 0, 0, 0, 0, 0, 0, 0, 0, 0, 0, 0, 0, 0, 0, 24, 3267675904, 0, 48, 2240384513, 0, 96,
    185801731, 48, 2240384705, 371603462, 0, 384, 743206924, 240, 2477765895, 1486413896, 2392494594, 1536,
    2972827888, 371604422, 1321128990, 1650688161, 371603462, 6336, 3537975492, 3840, 989548665,
    2307785957, 3803855915, 24768, 87701453, 1950713159, 3667138029, 641206806, 1650688929, 1321161950,
    943043659, 62976, 512018339, 2564836760, 1696405152, 1650822305, 1166361814, 1146637495, 2074109465,
    1669377698, 182801001, 1652246945, 2094292125, 983040, 4216354106, 3966199272, 3124505570, 6340608,
    976735493, 1166362356, 3092880854, 940186150, 31465987, 3888919638, 3873835881, 16124416, 1469443919,
    2184054905]"
  by (simp add: extend_schedule_numeral ROTL_def)

lemma abc_rounds_0: "foldl (do_round F_0_19 K_0_19) (1732584193, 4023233417, 2562383102, 271733878,
    3285377520)
  [1633837952, 0, 0, 0, 0, 0, 0, 0, 0, 0, 0, 0, 0, 0, 0, 24, 3267675904, 0, 48, 2240384513] = (4254997885,
    3697578013, 548051402, 3550778888, 3358553483)"
  by (simp add: ROTL_def F_0_19_def K_0_19_def)

lemma abc_rounds_1: "foldl (do_round F_20_39 K_20_39) (4254997885, 3697578013, 548051402, 3550778888,
    3358553483)
  [0, 96, 185801731, 48, 2240384705, 371603462, 0, 384, 743206924, 240, 2477765895, 1486413896, 2392494594,
    1536, 2972827888, 371604422, 1321128990, 1650688161, 371603462, 6336] = (853417146, 1285055493,
    4145604047, 64243702, 4147047474)"
  by (simp add: ROTL_def F_20_39_def K_20_39_def)

lemma abc_rounds_2: "foldl (do_round F_40_59 K_40_59) (853417146, 1285055493, 4145604047, 64243702,
    4147047474)
  [3537975492, 3840, 989548665, 2307785957, 3803855915, 24768, 87701453, 1950713159, 3667138029, 641206806,
    1650688929, 1321161950, 943043659, 62976, 512018339, 2564836760, 1696405152, 1650822305, 1166361814,
    1146637495] = (1062395482, 165119485, 882425812, 4061233743, 3617133995)"
  by (simp add: ROTL_def F_40_59_def K_40_59_def)

lemma abc_rounds_3: "foldl (do_round F_60_79 K_60_79) (1062395482, 165119485, 882425812, 4061233743,
    3617133995)
  [2074109465, 1669377698, 182801001, 1652246945, 2094292125, 983040, 4216354106, 3966199272, 3124505570,
    6340608, 976735493, 1166362356, 3092880854, 940186150, 31465987, 3888919638, 3873835881, 16124416,
    1469443919, 2184054905] = (1112808245, 1463342561, 562251891, 1746824694, 3640522413)"
  by (simp add: ROTL_def F_60_79_def K_60_79_def)


lemma abc_fips_block:
  "fips_block fips_H0 abc_block = (0xa9993e36, 0x4706816a, 0xba3e2571, 0x7850c26c, 0x9cd0d89d)"
proof -
  have len: "length abc_block = 64" by (simp add: abc_block_def)
  have "regs_of (hash_words (SHA1Guts (SHA1Init sc) abc_block)) = fips_block fips_H0 abc_block" for sc
    using SHA1Guts_fips [OF len, of "SHA1Init sc"]
    by (simp add: SHA1Init_def regs_of.simps fips_H0_def)
  moreover have "regs_of (hash_words (SHA1Guts (SHA1Init sc) abc_block))
      = (0xa9993e36, 0x4706816a, 0xba3e2571, 0x7850c26c, 0x9cd0d89d)" for sc
    unfolding SHA1Guts_def abc_load abc_schedule sha_rounds_def
    by (simp add: SHA1Init_def regs_of.simps abc_rounds_0 abc_rounds_1 abc_rounds_2 abc_rounds_3
        del: foldl.simps do_round.simps)
  ultimately show ?thesis by metis
qed

lemma abc_fips_sha1:
  "fips_sha1 [0x61, 0x62, 0x63] =
   [0xa9, 0x99, 0x3e, 0x36, 0x47, 0x06, 0x81, 0x6a, 0xba, 0x3e,
    0x25, 0x71, 0x78, 0x50, 0xc2, 0x6c, 0x9c, 0xd0, 0xd8, 0x9d]"
proof -
  have pad: "fips_pad [0x61, 0x62, 0x63] = abc_block"
    by (simp add: fips_pad_def abc_block_def)
  have "absorb fips_H0 abc_block = fips_block fips_H0 abc_block"
    by (simp add: absorb_block abc_block_def)
  then show ?thesis
    by (simp add: fips_sha1_def pad abc_fips_block regs_bytes_def be32_def byte_of_def)
qed

end
