(* ===== verification/ShaVariants.thy ===== *)
theory ShaVariants
  imports Sha
begin

text \<open>
  The other builds of \<^verbatim>\<open>sha.c\<close>: every setting of \<open>SHA1_UNROLL\<close>, the block copy of
  \<open>SHA1_FAST_COPY\<close> and the byte order found at run time by \<open>RUNTIME_ENDIAN\<close>, on a
  little-endian host. All of them compute the digest of the build that is used.
\<close>

section \<open>The code\<close>

record build =
  unroll :: nat
  fast_copy :: bool
  runtime_endian :: bool

text \<open>
  \<open>setEndian\<close> looks at the first byte of the integer 1; \<open>swap32\<close> and \<open>swap64\<close> are the macros
  \<open>BYTESWAP\<close> and \<open>BYTESWAP64\<close> of the build.
\<close>

definition setEndian :: int where
  "setEndian = (if le32 1 ! 0 \<noteq> 0 then 1 else 0)"

definition runtime_swap32 :: "int \<Rightarrow> u32 \<Rightarrow> u32" where
  "runtime_swap32 littleEndian x = (if littleEndian = 0 then x else BYTESWAP x)"

definition runtime_swap64 :: "int \<Rightarrow> u64 \<Rightarrow> u64" where
  "runtime_swap64 littleEndian x = (if littleEndian = 0 then x else byteswap64 x)"

definition swap32 :: "build \<Rightarrow> u32 \<Rightarrow> u32" where
  "swap32 v x = (if runtime_endian v then runtime_swap32 setEndian x else BYTESWAP x)"

definition swap64 :: "build \<Rightarrow> u64 \<Rightarrow> u64" where
  "swap64 v x = (if runtime_endian v then runtime_swap64 setEndian x else byteswap64 x)"

text \<open>
  The body of a loop with \<open>u\<close> copies of \<open>DO_ROUND\<close>, each of which reads the next schedule
  word, and the loop around it.
\<close>

fun round_body ::
  "nat \<Rightarrow> (u32 \<Rightarrow> u32 \<Rightarrow> u32 \<Rightarrow> u32) \<Rightarrow> u32 \<Rightarrow> u32 list \<times> regs \<Rightarrow> (u32 list \<times> regs) res" where
  "round_body 0 F K (W, r) = Inr (W, r)"
| "round_body (Suc u) F K ([], r) = Inl OutOfBounds"
| "round_body (Suc u) F K (w # W, r) = round_body u F K (W, do_round F K r w)"

fun round_loop ::
  "nat \<Rightarrow> nat \<Rightarrow> (u32 \<Rightarrow> u32 \<Rightarrow> u32 \<Rightarrow> u32) \<Rightarrow> u32 \<Rightarrow> u32 list \<times> regs \<Rightarrow> (u32 list \<times> regs) res" where
  "round_loop 0 u F K s = Inr s"
| "round_loop (Suc i) u F K s = ebind (round_body u F K s) (round_loop i u F K)"

text \<open>The number of turns that the source gives the loop for each setting; any other is an error.\<close>

definition turns_of :: "nat \<Rightarrow> nat option" where
  "turns_of = [1 \<mapsto> 20, 2 \<mapsto> 10, 4 \<mapsto> 5, 5 \<mapsto> 4, 10 \<mapsto> 2, 20 \<mapsto> 1]"

definition unrolled_rounds :: "nat \<Rightarrow> nat \<Rightarrow> u32 list \<Rightarrow> regs \<Rightarrow> regs res" where
  "unrolled_rounds i u W r =
     ebind (round_loop i u F_0_19 K_0_19 (W, r)) (\<lambda>s1.
     ebind (round_loop i u F_20_39 K_20_39 s1) (\<lambda>s2.
     ebind (round_loop i u F_40_59 K_40_59 s2) (\<lambda>s3.
     ebind (round_loop i u F_60_79 K_60_79 s3) (\<lambda>(_, r'). Inr r'))))"

definition build_block :: "build \<Rightarrow> byte list \<Rightarrow> u32 list" where
  "build_block v cbuf = map (\<lambda>i. swap32 v (rd_le32 (take 4 (drop (4 * i) cbuf)))) [0..<16]"

definition build_guts :: "build \<Rightarrow> nat \<Rightarrow> SHA1Context \<Rightarrow> byte list \<Rightarrow> SHA1Context res" where
  "build_guts v i sc cbuf =
     (let W = extend_schedule 64 (build_block v cbuf);
          h = hash_words sc
      in ebind (unrolled_rounds i (unroll v) W (h ! 0, h ! 1, h ! 2, h ! 3, h ! 4)) (\<lambda>(a, b, c, d, e).
         Inr (sc\<lparr>hash_words := [h ! 0 + a, h ! 1 + b, h ! 2 + c, h ! 3 + d, h ! 4 + e]\<rparr>)))"

type_synonym guts = "SHA1Context \<Rightarrow> byte list \<Rightarrow> SHA1Context res"

text \<open>\<open>SHA1Update\<close> with and without \<open>SHA1_FAST_COPY\<close>, for any block function.\<close>

definition buffer_piece :: "guts \<Rightarrow> nat \<Rightarrow> SHA1Context \<Rightarrow> byte list \<Rightarrow> SHA1Context res" where
  "buffer_piece guts n sc data =
     ebind (mem_write (buffer_bytes sc) (uint (bufferLength sc)) (take n data)) (\<lambda>bytes.
     let sc1 = sc\<lparr>buffer_bytes := bytes, totalLength := totalLength sc + of_nat n * 8,
                  bufferLength := bufferLength sc + of_nat n\<rparr>
     in if bufferLength sc1 = 64
        then ebind (guts sc1 (buffer_bytes sc1)) (\<lambda>sc2. Inr (sc2\<lparr>bufferLength := 0\<rparr>))
        else Inr sc1)"

function update_loop :: "guts \<Rightarrow> SHA1Context \<Rightarrow> byte list \<Rightarrow> SHA1Context res" where
  "update_loop guts sc data =
     (if data = [] then Inr sc
      else let bytesToCopy = min (unat (64 - bufferLength sc)) (length data)
           in if bytesToCopy = 0 then Inl Hang
              else ebind (buffer_piece guts bytesToCopy sc data) (\<lambda>sc'. update_loop guts sc' (drop bytesToCopy data)))"
  by pat_completeness auto
termination
  by (relation "measure (\<lambda>(guts, sc, data). length data)") auto

declare update_loop.simps [simp del]

text \<open>The three parts of the fast copy: the buffered start, whole blocks, the rest.\<close>

definition fast_start :: "guts \<Rightarrow> SHA1Context \<Rightarrow> byte list \<Rightarrow> (SHA1Context \<times> byte list) res" where
  "fast_start guts sc data =
     (if bufferLength sc \<noteq> 0
      then let bytesToCopy = min (unat (64 - bufferLength sc)) (length data)
           in ebind (buffer_piece guts bytesToCopy sc data) (\<lambda>sc'. Inr (sc', drop bytesToCopy data))
      else Inr (sc, data))"

function fast_blocks :: "guts \<Rightarrow> SHA1Context \<Rightarrow> byte list \<Rightarrow> (SHA1Context \<times> byte list) res" where
  "fast_blocks guts sc data =
     (if length data > 63
      then ebind (guts (sc\<lparr>totalLength := totalLength sc + 512\<rparr>) (take 64 data)) (\<lambda>sc'.
           fast_blocks guts sc' (drop 64 data))
      else Inr (sc, data))"
  by pat_completeness auto
termination
  by (relation "measure (\<lambda>(guts, sc, data). length data)") auto

declare fast_blocks.simps [simp del]

definition fast_rest :: "SHA1Context \<Rightarrow> byte list \<Rightarrow> SHA1Context res" where
  "fast_rest sc data =
     (if data \<noteq> []
      then ebind (mem_write (buffer_bytes sc) (uint (bufferLength sc)) data) (\<lambda>bytes.
           Inr (sc\<lparr>buffer_bytes := bytes, totalLength := totalLength sc + of_nat (length data) * 8,
                   bufferLength := bufferLength sc + of_nat (length data)\<rparr>))
      else Inr sc)"

definition fast_update :: "guts \<Rightarrow> SHA1Context \<Rightarrow> byte list \<Rightarrow> SHA1Context res" where
  "fast_update guts sc data =
     ebind (fast_start guts sc data) (\<lambda>(sc1, data1).
     ebind (fast_blocks guts sc1 data1) (\<lambda>(sc2, data2). fast_rest sc2 data2))"

definition build_update :: "build \<Rightarrow> nat \<Rightarrow> SHA1Context \<Rightarrow> byte list \<Rightarrow> SHA1Context res" where
  "build_update v i = (if fast_copy v then fast_update (build_guts v i) else update_loop (build_guts v i))"

definition build_final :: "build \<Rightarrow> nat \<Rightarrow> SHA1Context \<Rightarrow> (SHA1Context \<times> byte list) res" where
  "build_final v i sc =
     (let pad0 = 120 - bufferLength sc;
          bytesToPad = (if pad0 > 64 then pad0 - 64 else pad0);
          lengthPad = swap64 v (totalLength sc)
      in ebind (mem_read padding 0 (uint bytesToPad)) (\<lambda>pad.
         ebind (build_update v i sc pad) (\<lambda>sc1.
         ebind (build_update v i sc1 (le64 lengthPad)) (\<lambda>sc2.
         Inr (sc2, concat (map (\<lambda>j. if fast_copy v then le32 (swap32 v (hash_words sc2 ! j))
                                    else hash_bytes (hash_words sc2 ! j)) [0..<5]))))))"

text \<open>The digest of a buffer, as \<open>shahash\<close> computes it; \<open>None\<close> when the build does not compile.\<close>

definition build_digest :: "build \<Rightarrow> SHA1Context \<Rightarrow> byte list \<Rightarrow> (SHA1Context \<times> byte list) res option" where
  "build_digest v sc data =
     map_option (\<lambda>i. ebind (build_update v i (SHA1Init sc) data) (build_final v i)) (turns_of (unroll v))"

section \<open>The rounds\<close>

lemma swaps: "swap32 v = BYTESWAP" "swap64 v = byteswap64"
  by (rule ext, simp add: swap32_def swap64_def runtime_swap32_def runtime_swap64_def setEndian_def le32_def byte_of_def)+

lemma round_body_foldl:
  "u \<le> length W \<Longrightarrow> round_body u F K (W, r) = Inr (drop u W, foldl (do_round F K) r (take u W))"
proof (induction u arbitrary: W r)
  case (Suc u)
  then show ?case by (cases W) simp_all
qed simp

lemma round_loop_foldl:
  "i * u \<le> length W \<Longrightarrow> round_loop i u F K (W, r) = Inr (drop (i * u) W, foldl (do_round F K) r (take (i * u) W))"
proof (induction i arbitrary: W r)
  case (Suc i)
  then have "u \<le> length W" "i * u \<le> length (drop u W)" by simp_all
  moreover have "take (u + i * u) W = take u W @ take (i * u) (drop u W)" by (rule take_add)
  ultimately show ?case using Suc.IH by (simp add: round_body_foldl add.commute)
qed simp

lemma turns_of_20: "turns_of u = Some i \<Longrightarrow> i * u = 20"
  by (auto simp: turns_of_def split: if_splits)

lemma unrolled_rounds_sha:
  assumes "i * u = 20" and "length W = 80"
  shows "unrolled_rounds i u W r = Inr (sha_rounds W r)"
  using assms by (simp add: unrolled_rounds_def round_loop_foldl sha_rounds_def Let_def)

lemma length_extend_schedule: "length (extend_schedule n buf) = length buf + n"
  by (induction n arbitrary: buf) (simp_all add: Let_def)

lemma build_guts_sha:
  assumes "i * unroll v = 20"
  shows "build_guts v i = (\<lambda>sc c. Inr (SHA1Guts sc c))"
proof (intro ext)
  fix sc c
  have b: "build_block v c = load_block c" by (simp add: build_block_def load_block_def swaps del: upt_rec_numeral)
  have "length (load_block c) = 16" by (simp add: load_block_def del: upt_rec_numeral)
  then have "length (extend_schedule 64 (load_block c)) = 80" unfolding length_extend_schedule by simp
  from unrolled_rounds_sha [OF assms this] show "build_guts v i sc c = Inr (SHA1Guts sc c)"
    by (simp add: build_guts_def b SHA1Guts_def Let_def split: prod.split)
qed

section \<open>The update\<close>

abbreviation pure_guts :: guts where
  "pure_guts \<equiv> \<lambda>sc c. Inr (SHA1Guts sc c)"

lemma buffer_piece_pure:
  "buffer_piece pure_guts n sc data =
     ebind (mem_write (buffer_bytes sc) (uint (bufferLength sc)) (take n data)) (\<lambda>bytes.
       let sc1 = sc\<lparr>buffer_bytes := bytes, totalLength := totalLength sc + of_nat n * 8,
                    bufferLength := bufferLength sc + of_nat n\<rparr>
       in Inr (if bufferLength sc1 = 64 then (SHA1Guts sc1 (buffer_bytes sc1))\<lparr>bufferLength := 0\<rparr> else sc1))"
  by (simp add: buffer_piece_def Let_def if_distrib [of Inr] cong: if_cong)

lemma update_loop_pure: "update_loop pure_guts sc data = SHA1Update sc data"
proof (induction data arbitrary: sc rule: length_induct)
  case (1 data)
  have IH: "update_loop pure_guts sc' (drop n data) = SHA1Update sc' (drop n data)" if "n \<noteq> 0" "data \<noteq> []" for n sc'
    using 1 that by simp
  show ?case
    by (subst update_loop.simps, subst SHA1Update.simps)
       (simp add: buffer_piece_pure Let_def ebind_assoc IH cong: if_cong)
qed

text \<open>A piece that fits into the buffer.\<close>

lemma buffer_piece_inv:
  assumes inv: "sha_inv sc m" and n: "length m mod 64 + n \<le> 64" "n \<le> length d"
  shows "\<exists>sc'. buffer_piece pure_guts n sc d = Inr sc' \<and> sha_inv sc' (m @ take n d)"
proof -
  let ?r = "length m mod 64"
  let ?buf = "take ?r (buffer_bytes sc) @ take n d @ drop (?r + n) (buffer_bytes sc)"
  have r: "unat (bufferLength sc) = ?r" "length (buffer_bytes sc) = 64" using inv by (auto simp: sha_inv_def)
  have "uint (bufferLength sc) = int ?r" by (simp add: r(1) [symmetric])
  with n r(2) have wr: "mem_write (buffer_bytes sc) (uint (bufferLength sc)) (take n d) = Inr ?buf"
    by (auto simp: mem_write_def)
  let ?sc1 = "sc\<lparr>buffer_bytes := ?buf, totalLength := totalLength sc + of_nat n * 8, bufferLength := bufferLength sc + of_nat n\<rparr>"
  have bl: "unat (bufferLength ?sc1) = ?r + n" using r n by (simp add: unat_word_ariths unat_of_nat)
  show ?thesis
  proof (cases "?r + n = 64")
    case True
    with bl have "bufferLength ?sc1 = 64" by (simp add: word_unat_eq_iff)
    moreover have "sha_inv ((SHA1Guts ?sc1 (buffer_bytes ?sc1))\<lparr>bufferLength := 0\<rparr>) (m @ take n d)"
      using sha_inv_full [OF inv, of "take n d"] True n r(2) by simp
    ultimately show ?thesis using wr by (simp add: buffer_piece_def Let_def)
  next
    case False
    with bl n have "bufferLength ?sc1 \<noteq> 64" by auto
    moreover have "sha_inv ?sc1 (m @ take n d)" using sha_inv_partial [OF inv, of "take n d"] False n by simp
    ultimately show ?thesis using wr by (simp add: buffer_piece_def Let_def)
  qed
qed

text \<open>A block that is not copied.\<close>

lemma sha_inv_block:
  assumes inv: "sha_inv sc m" and m: "length m mod 64 = 0" and b: "length b = 64"
  shows "sha_inv (SHA1Guts (sc\<lparr>totalLength := totalLength sc + 512\<rparr>) b) (m @ b)"
proof -
  have mod: "length (m @ b) mod 64 = 0" using m b by (simp add: mod_add_left_eq)
  have "absorb fips_H0 (m @ b) = fips_block (absorb fips_H0 m) b" using absorb_append [OF m] absorb_block [OF b] by simp
  with inv m b show ?thesis
    unfolding sha_inv_def mod by (simp add: SHA1Guts_fips distrib_right)
qed

lemma fast_blocks_inv:
  assumes "sha_inv sc m" and "length m mod 64 = 0"
  shows "\<exists>sc' d'. fast_blocks pure_guts sc d = Inr (sc', d') \<and> length d' < 64 \<and>
    (\<exists>b. d = b @ d' \<and> sha_inv sc' (m @ b) \<and> length (m @ b) mod 64 = 0)"
  using assms
proof (induction d arbitrary: sc m rule: length_induct)
  case (1 d)
  show ?case
  proof (cases "length d > 63")
    case False
    with 1(2,3) show ?thesis by (subst fast_blocks.simps) auto
  next
    case True
    let ?sc = "SHA1Guts (sc\<lparr>totalLength := totalLength sc + 512\<rparr>) (take 64 d)"
    have i: "sha_inv ?sc (m @ take 64 d)" using sha_inv_block [OF 1(2,3), of "take 64 d"] True by simp
    have "length (m @ take 64 d) mod 64 = 0" using 1(3) True by simp
    moreover have "length (drop 64 d) < length d" using True by simp
    ultimately have "\<exists>sc' d'. fast_blocks pure_guts ?sc (drop 64 d) = Inr (sc', d') \<and> length d' < 64 \<and>
      (\<exists>b. drop 64 d = b @ d' \<and> sha_inv sc' ((m @ take 64 d) @ b) \<and> length ((m @ take 64 d) @ b) mod 64 = 0)"
      by (intro 1(1) [rule_format, OF _ i])
    then obtain sc' d' b where r: "fast_blocks pure_guts ?sc (drop 64 d) = Inr (sc', d')" "length d' < 64"
      "drop 64 d = b @ d'" "sha_inv sc' ((m @ take 64 d) @ b)" "length ((m @ take 64 d) @ b) mod 64 = 0"
      by (elim exE conjE) (rule that)
    have "d = (take 64 d @ b) @ d'" using r(3) by (metis append_assoc append_take_drop_id)
    moreover have "fast_blocks pure_guts sc d = Inr (sc', d')" using True r(1) by (subst fast_blocks.simps) simp
    ultimately show ?thesis using r(2,4,5) by (metis append_assoc)
  qed
qed

lemma fast_rest_inv:
  assumes inv: "sha_inv sc m" and d: "length m mod 64 + length d < 64"
  shows "\<exists>sc'. fast_rest sc d = Inr sc' \<and> sha_inv sc' (m @ d)"
proof (cases "d = []")
  case True
  with inv show ?thesis by (simp add: fast_rest_def)
next
  case False
  have r: "unat (bufferLength sc) = length m mod 64" "length (buffer_bytes sc) = 64" using inv by (auto simp: sha_inv_def)
  then have "uint (bufferLength sc) = int (length m mod 64)" by (metis uint_nat)
  with d r(2) False have "mem_write (buffer_bytes sc) (uint (bufferLength sc)) d =
      Inr (take (length m mod 64) (buffer_bytes sc) @ d @ drop (length m mod 64 + length d) (buffer_bytes sc))"
    by (auto simp: mem_write_def)
  with sha_inv_partial [OF inv d] False show ?thesis by (simp add: fast_rest_def)
qed

lemma fast_update_inv:
  assumes inv: "sha_inv sc m"
  shows "\<exists>sc'. fast_update pure_guts sc d = Inr sc' \<and> sha_inv sc' (m @ d)"
proof -
  let ?r = "length m mod 64"
  have r: "unat (bufferLength sc) = ?r" using inv by (simp add: sha_inv_def)
  have left: "unat (64 - bufferLength sc) = 64 - ?r" using r by (subst unat_sub) (auto simp: word_le_nat_alt)
  obtain sc1 d1 b where s: "fast_start pure_guts sc d = Inr (sc1, d1)" "d = b @ d1" "sha_inv sc1 (m @ b)"
    "d1 = [] \<or> length (m @ b) mod 64 = 0"
  proof (cases "?r = 0")
    case True
    with r have "bufferLength sc = 0" by (simp add: unat_eq_0)
    with that [of sc d "[]"] inv True show ?thesis by (simp add: fast_start_def)
  next
    case False
    with r have nz: "bufferLength sc \<noteq> 0" by (auto simp: unat_eq_0)
    let ?n = "min (64 - ?r) (length d)"
    have "?r + ?n \<le> 64" "?n \<le> length d" by simp_all
    from buffer_piece_inv [OF inv this] obtain sc1 where b: "buffer_piece pure_guts ?n sc d = Inr sc1"
      "sha_inv sc1 (m @ take ?n d)" by blast
    have "drop ?n d = [] \<or> length (m @ take ?n d) mod 64 = 0"
    proof (cases "64 - ?r < length d")
      case True
      then have "length (m @ take ?n d) = length m + (64 - ?r)" by simp
      moreover have "(length m + (64 - ?r)) mod 64 = 0"
      proof -
        obtain q r where q: "length m = 64 * q + r" "r < 64" using div_mult_mod_eq [of "length m" 64]
          by (metis mod_less_divisor mult.commute zero_less_numeral)
        then have "length m + (64 - ?r) = 64 * (q + 1)" by simp
        then show ?thesis by (simp only: mod_mult_self1_is_0)
      qed
      ultimately show ?thesis by simp
    qed simp
    with that [of sc1 "drop ?n d" "take ?n d"] b nz left show ?thesis by (simp add: fast_start_def Let_def)
  qed
  show ?thesis
  proof (cases "d1 = []")
    case True
    with s show ?thesis by (simp add: fast_update_def fast_blocks.simps fast_rest_def)
  next
    case False
    with s(4) have "length (m @ b) mod 64 = 0" by simp
    from fast_blocks_inv [OF s(3) this, of d1] obtain sc2 d2 b2 where f: "fast_blocks pure_guts sc1 d1 = Inr (sc2, d2)"
      "length d2 < 64" "d1 = b2 @ d2" "sha_inv sc2 ((m @ b) @ b2)" "length ((m @ b) @ b2) mod 64 = 0"
      by (elim exE conjE) (rule that)
    have "length ((m @ b) @ b2) mod 64 + length d2 < 64" using f(2,5) by simp
    from fast_rest_inv [OF f(4) this] obtain sc3 where "fast_rest sc2 d2 = Inr sc3" "sha_inv sc3 (((m @ b) @ b2) @ d2)" by blast
    with s(1,2) f(1,3) show ?thesis by (simp add: fast_update_def)
  qed
qed

lemma build_update_inv:
  assumes "i * unroll v = 20" and "sha_inv sc m"
  shows "\<exists>sc'. build_update v i sc d = Inr sc' \<and> sha_inv sc' (m @ d)"
  using fast_update_inv [OF assms(2)] SHA1Update_inv [OF assms(2)]
  by (simp add: build_update_def build_guts_sha [OF assms(1)] update_loop_pure)

section \<open>The digest\<close>

lemma fast_hash_bytes: "le32 (BYTESWAP h) = hash_bytes h"
  by (simp add: BYTESWAP_htonl hash_bytes_be32 codec_simps)

lemma digest_word: "(if fast_copy v then le32 (swap32 v h) else hash_bytes h) = hash_bytes h"
  unfolding swaps(1) fast_hash_bytes by simp

lemma build_final_fips:
  assumes b: "i * unroll v = 20" and inv: "sha_inv sc m"
  shows "\<exists>sc'. build_final v i sc = Inr (sc', fips_sha1 m)"
proof -
  let ?r = "length m mod 64"
  let ?k = "nat ((55 - int ?r) mod 64)"
  let ?pad = "0x80 # replicate ?k (0::byte)"
  have tl: "totalLength sc = of_nat (8 * length m)" using inv by (simp add: sha_inv_def mult.commute)
  have k: "?k = nat ((55 - int (length m)) mod 64)"
    using mod_diff_right_eq [of 55 "int (length m)" 64] by (simp add: zmod_int)
  have bl: "unat (bufferLength sc) = ?r" using inv by (simp add: sha_inv_def)
  obtain sc1 where sc1: "build_update v i sc ?pad = Inr sc1" "sha_inv sc1 (m @ ?pad)"
    using build_update_inv [OF b inv] by blast
  obtain sc2 where sc2: "build_update v i sc1 (be64 (of_nat (8 * length m))) = Inr sc2"
    "sha_inv sc2 ((m @ ?pad) @ be64 (of_nat (8 * length m)))" using build_update_inv [OF b sc1(2)] by blast
  have msg: "(m @ ?pad) @ be64 (of_nat (8 * length m)) = fips_pad m" by (simp only: fips_pad_def k) simp
  have "mem_read padding 0 (uint (let pad0 = 120 - bufferLength sc in if pad0 > 64 then pad0 - 64 else pad0)) = Inr ?pad"
    by (subst final_pad_length [OF bl]) (simp, subst padding_take, auto)
  then have "build_final v i sc = Inr (sc2, concat (map (\<lambda>j. hash_bytes (hash_words sc2 ! j)) [0..<5]))"
    using sc1(1) sc2(1) unfolding build_final_def digest_word
    by (simp add: Let_def tl swaps(2) byteswap64_be del: upt_rec_numeral)
  then have "build_final v i sc = Inr (sc2, regs_bytes (regs_of (hash_words sc2)))" unfolding digest_bytes .
  moreover have "regs_of (hash_words sc2) = absorb fips_H0 (fips_pad m)"
    using sc2(2) unfolding msg sha_inv_def by (simp add: fips_pad_mod)
  ultimately show ?thesis by (simp add: fips_sha1_def)
qed



end
