(* ===== verification/Chunk.thy ===== *)
theory Chunk
  imports Sha
begin

text \<open>
  \<^verbatim>\<open>chunk.c\<close> and \<^verbatim>\<open>make_chunks.c\<close>: the digest of a byte range, hexadecimal text and the
  splitting of a file into 512 KiB chunks. C strings and buffers are byte lists.
\<close>

section \<open>Digests\<close>

definition BT_CHUNK_SIZE :: nat where "BT_CHUNK_SIZE = 512 * 1024"
definition SHA1_HASH_SIZE :: nat where "SHA1_HASH_SIZE = 20"

text \<open>
  The context lives on the stack and is uninitialised; \<open>shahash_in\<close> takes what the stack
  holds as an argument, \<open>shahash\<close> fixes it, and \<open>shahash_stack_irrelevant\<close> shows that
  the choice does not matter. The length is converted to \<open>uint32_t\<close> by the call of
  \<open>SHA1Update\<close>.
\<close>

definition shahash_in :: "SHA1Context \<Rightarrow> byte list \<Rightarrow> int \<Rightarrow> byte list res" where
  "shahash_in stack str len =
     ebind (mem_read str 0 (len mod 2 ^ 32)) (\<lambda>data.
     ebind (SHA1Update (SHA1Init stack) data) (\<lambda>sha.
     ebind (SHA1Final sha) (\<lambda>(sha', hash). Inr hash)))"

definition stack_context :: SHA1Context where
  "stack_context = \<lparr>totalLength = 0, hash_words = replicate 5 0, bufferLength = 0,
                    buffer_bytes = replicate 64 0\<rparr>"

definition shahash :: "byte list \<Rightarrow> int \<Rightarrow> byte list res" where
  "shahash str len = shahash_in stack_context str len"

lemma shahash_in_fips:
  assumes "length (buffer_bytes stack) = 64" and "0 \<le> len" and "len < 2 ^ 32"
    and "len \<le> int (length str)"
  shows "shahash_in stack str len = Inr (fips_sha1 (take (nat len) str))"
proof -
  have rd: "mem_read str 0 (len mod 2 ^ 32) = Inr (take (nat len) str)"
    using assms by (auto simp: mem_read_def)
  obtain sc where "SHA1Update (SHA1Init stack) (take (nat len) str) = Inr sc"
    and inv: "sha_inv sc (take (nat len) str)"
    using SHA1Update_inv [OF sha_inv_init [OF assms(1)]] by fastforce
  moreover obtain sc' where "SHA1Final sc = Inr (sc', fips_sha1 (take (nat len) str))"
    using SHA1Final_fips [OF inv] by blast
  ultimately show ?thesis unfolding shahash_in_def rd by simp
qed

lemma shahash_fips:
  "length str < 2 ^ 32 \<Longrightarrow> shahash str (int (length str)) = Inr (fips_sha1 str)"
  by (simp add: shahash_def shahash_in_fips stack_context_def)

lemma shahash_prefix:
  "n \<le> length str \<Longrightarrow> n < 2 ^ 32 \<Longrightarrow> shahash str (int n) = Inr (fips_sha1 (take n str))"
  by (simp add: shahash_def shahash_in_fips stack_context_def)

lemma length_fips_sha1 [simp]: "length (fips_sha1 m) = 20"
  by (simp add: fips_sha1_def regs_bytes_def split: prod.split)

section \<open>Hexadecimal text\<close>

text \<open>\<open>sprintf("%.2x")\<close> of one byte.\<close>

definition hexdigit :: "nat \<Rightarrow> byte" where
  "hexdigit d = (if d < 10 then of_nat (48 + d) else of_nat (87 + d))"

definition sprintf_02x :: "byte \<Rightarrow> byte list" where
  "sprintf_02x b = [hexdigit (unat b div 16), hexdigit (unat b mod 16)]"

fun binary2hex_loop :: "byte list \<Rightarrow> nat \<Rightarrow> nat \<Rightarrow> byte list \<Rightarrow> byte list res" where
  "binary2hex_loop buf i 0 hex = Inr hex"
| "binary2hex_loop buf i (Suc n) hex =
     ebind (mem_read buf (int i) 1) (\<lambda>b.
     ebind (mem_write hex (int (i * 2)) (sprintf_02x (hd b) @ [0])) (\<lambda>hex'.
     binary2hex_loop buf (Suc i) n hex'))"

definition binary2hex :: "byte list \<Rightarrow> nat \<Rightarrow> byte list \<Rightarrow> byte list res" where
  "binary2hex buf len hex =
     ebind (binary2hex_loop buf 0 len hex) (\<lambda>hex'. mem_write hex' (int (len * 2)) [0])"

text \<open>\<open>toupper\<close> in the C locale, on a \<open>char\<close> read as a signed value.\<close>

definition toupper :: "int \<Rightarrow> int" where
  "toupper c = (if 97 \<le> c \<and> c \<le> 122 then c - 32 else c)"

definition hex2binary_digit :: "byte \<Rightarrow> byte" where
  "hex2binary_digit hex =
     (let h = toupper (sint hex)
      in of_int (if h \<le> 57 then h - 48 else h - (65 - 0x0A)))"

fun hex2binary_loop :: "byte list \<Rightarrow> nat \<Rightarrow> nat \<Rightarrow> byte list \<Rightarrow> byte list res" where
  "hex2binary_loop hex i 0 buf = Inr buf"
| "hex2binary_loop hex i (Suc n) buf =
     ebind (mem_read hex (int i) 2) (\<lambda>h.
     ebind (mem_write buf (int (i div 2))
              [push_bit 4 (hex2binary_digit (h ! 0)) OR hex2binary_digit (h ! 1)]) (\<lambda>buf'.
     hex2binary_loop hex (i + 2) n buf'))"

text \<open>The loop runs while \<open>i < len\<close> in steps of two.\<close>

definition hex2binary :: "byte list \<Rightarrow> nat \<Rightarrow> byte list \<Rightarrow> byte list res" where
  "hex2binary hex len buf = hex2binary_loop hex 0 ((len + 1) div 2) buf"

section \<open>Splitting a file\<close>

text \<open>
  \<open>make_chunks\<close> over the unread rest of the file; \<open>cap\<close> is the number of rows the
  caller allocated in \<open>chunk_hashes\<close>.
\<close>

function make_chunks_loop :: "nat \<Rightarrow> byte list \<Rightarrow> byte list list \<Rightarrow> byte list list res" where
  "make_chunks_loop cap rest hashes =
     (if rest = [] then Inr hashes
      else let buffer = take BT_CHUNK_SIZE rest
           in guard (length hashes < cap) OutOfBounds
                (ebind (shahash buffer (int (length buffer)))
                   (\<lambda>h. make_chunks_loop cap (drop BT_CHUNK_SIZE rest) (hashes @ [h]))))"
  by pat_completeness auto
termination
  by (relation "measure (\<lambda>(cap, rest, hashes). length rest)") (auto simp: BT_CHUNK_SIZE_def)

declare make_chunks_loop.simps [simp del]

definition make_chunks :: "nat \<Rightarrow> byte list \<Rightarrow> byte list list res" where
  "make_chunks cap file = make_chunks_loop cap file []"

text \<open>\<open>get_numchunks\<close>: the division by a power of two is exact in \<open>double\<close>.\<close>

definition get_numchunks :: "nat \<Rightarrow> int" where
  "get_numchunks st_size = (int st_size + int BT_CHUNK_SIZE - 1) div int BT_CHUNK_SIZE"

section \<open>Hexadecimal round trip\<close>

definition hex_of :: "byte list \<Rightarrow> byte list" where
  "hex_of bs = concat (map sprintf_02x bs)"

lemma length_hex_of [simp]: "length (hex_of bs) = 2 * length bs"
  by (induction bs) (simp_all add: hex_of_def sprintf_02x_def)

lemma hex_of_append: "hex_of (xs @ ys) = hex_of xs @ hex_of ys"
  by (simp add: hex_of_def)

lemma hex2binary_hexdigit:
  assumes "d < 16"
  shows "hex2binary_digit (hexdigit d) = of_nat d"
proof -
  have "list_all (\<lambda>d. hex2binary_digit (hexdigit d) = of_nat d) [0..<16]"
    by (simp add: upt_16 hex2binary_digit_def hexdigit_def toupper_def)
  with assms show ?thesis by (simp add: list_all_iff)
qed

lemma unat_byte: "unat (b :: byte) < 256"
  using unsigned_less [of b] by simp

lemma nibbles: "push_bit 4 (of_nat (unat b div 16)) OR of_nat (unat b mod 16) = (b :: byte)"
proof -
  have "of_nat (unat b div 16) = drop_bit 4 b"
    using unat_byte [of b] by (simp add: drop_bit_eq_div word_unat_eq_iff unat_div unat_of_nat)
  moreover have "of_nat (unat b mod 16) = take_bit 4 b"
    by (simp add: take_bit_eq_mod word_unat_eq_iff unat_mod unat_of_nat)
  ultimately show ?thesis
    by (auto intro!: bit_word_eqI simp: bit_simps)
qed

lemma binary2hex_loop_result:
  assumes "length p = 2 * i" and "length q = i" and "2 * length bs < length rest"
  shows "binary2hex_loop (q @ bs @ q') i (length bs) (p @ rest)
         = Inr (p @ hex_of bs @ (if bs = [] then rest else 0 # drop (2 * length bs + 1) rest))"
  using assms
proof (induction bs arbitrary: i p q rest)
  case Nil
  then show ?case by (simp add: hex_of_def)
next
  case (Cons b bs)
  then obtain x y z rest' where rest: "rest = x # y # z # rest'" and len: "2 * length bs \<le> length rest'"
    by (cases rest; cases "tl rest"; cases "tl (tl rest)") auto
  let ?d = "sprintf_02x b"
  have rd: "mem_read (q @ (b # bs) @ q') (int i) 1 = Inr [b]"
    using Cons.prems by (simp add: mem_read_def)
  have wr: "mem_write (p @ rest) (int (i * 2)) (?d @ [0]) = Inr ((p @ ?d) @ 0 # rest')"
    using mem_write_middle [of "int (i * 2)" p "?d @ [0]" "[x, y, z]" rest'] Cons.prems
    by (simp add: rest sprintf_02x_def)
  have "binary2hex_loop ((q @ [b]) @ bs @ q') (Suc i) (length bs) ((p @ ?d) @ 0 # rest')
      = Inr ((p @ ?d) @ hex_of bs @ (if bs = [] then 0 # rest' else 0 # drop (2 * length bs + 1) (0 # rest')))"
    by (rule Cons.IH) (use Cons.prems len in \<open>simp_all add: sprintf_02x_def\<close>)
  with rd wr show ?case
    by (simp add: rest hex_of_def)
qed

lemma binary2hex_result:
  assumes "2 * length bs < length hex"
  shows "binary2hex (bs @ r) (length bs) hex
         = Inr (hex_of bs @ 0 # drop (2 * length bs + 1) hex)"
proof -
  let ?tail = "if bs = [] then hex else 0 # drop (2 * length bs + 1) hex"
  have "binary2hex_loop (bs @ r) 0 (length bs) hex = Inr (hex_of bs @ ?tail)"
    using binary2hex_loop_result [of "[]" 0 "[]" bs hex r] assms by simp
  moreover have "?tail = hd ?tail # drop (2 * length bs + 1) hex"
    using assms by (cases hex) auto
  then have "mem_write (hex_of bs @ ?tail) (int (length bs * 2)) [0]
      = Inr (hex_of bs @ 0 # drop (2 * length bs + 1) hex)"
    using mem_write_middle [of "int (length bs * 2)" "hex_of bs" "[0]" "[hd ?tail]"
      "drop (2 * length bs + 1) hex"] by simp
  ultimately show ?thesis by (simp add: binary2hex_def)
qed

lemma hex2binary_loop_result:
  assumes "length p = 2 * i" and "length q = i" and "length bs \<le> length rest"
  shows "hex2binary_loop (p @ hex_of bs @ r) (2 * i) (length bs) (q @ rest)
         = Inr (q @ bs @ drop (length bs) rest)"
  using assms
proof (induction bs arbitrary: i p q rest)
  case Nil
  then show ?case by simp
next
  case (Cons b bs)
  then obtain x rest' where rest: "rest = x # rest'" and len: "length bs \<le> length rest'"
    by (cases rest) auto
  have rd: "mem_read (p @ hex_of (b # bs) @ r) (int (2 * i)) 2 = Inr (sprintf_02x b)"
    using Cons.prems by (simp add: mem_read_def hex_of_def sprintf_02x_def)
  have digits: "push_bit 4 (hex2binary_digit (sprintf_02x b ! 0)) OR hex2binary_digit (sprintf_02x b ! 1) = b"
    using unat_byte [of b] by (simp add: sprintf_02x_def hex2binary_hexdigit nibbles)
  have wr: "mem_write (q @ rest) (int (2 * i div 2)) [b] = Inr ((q @ [b]) @ rest')"
    using mem_write_middle [of "int i" q "[b]" "[x]" rest'] Cons.prems by (simp add: rest)
  have "hex2binary_loop ((p @ sprintf_02x b) @ hex_of bs @ r) (2 * Suc i) (length bs) ((q @ [b]) @ rest')
      = Inr ((q @ [b]) @ bs @ drop (length bs) rest')"
    by (rule Cons.IH) (use Cons.prems len in \<open>simp_all add: sprintf_02x_def\<close>)
  with rd wr digits show ?case
    by (simp add: rest hex_of_def)
qed

lemma hex2binary_result:
  assumes "length bs \<le> length buf"
  shows "hex2binary (hex_of bs @ r) (2 * length bs) buf = Inr (bs @ drop (length bs) buf)"
  using hex2binary_loop_result [of "[]" 0 "[]" bs buf r] assms by (simp add: hex2binary_def)

section \<open>Chunk lists\<close>

text \<open>The chunks of a file, in order, all of \<open>BT_CHUNK_SIZE\<close> bytes but the last.\<close>

function chunks_of :: "byte list \<Rightarrow> byte list list" where
  "chunks_of content = (if content = [] then []
     else take BT_CHUNK_SIZE content # chunks_of (drop BT_CHUNK_SIZE content))"
  by pat_completeness auto
termination
  by (relation "measure length") (auto simp: BT_CHUNK_SIZE_def)

declare chunks_of.simps [simp del]

lemma concat_chunks_of: "concat (chunks_of content) = content"
  by (induction content rule: chunks_of.induct) (simp add: chunks_of.simps)

lemma length_chunks_of: "int (length (chunks_of content)) = get_numchunks (length content)"
proof (induction content rule: chunks_of.induct)
  case (1 content)
  have pos: "0 < int BT_CHUNK_SIZE" by (simp add: BT_CHUNK_SIZE_def)
  show ?case
  proof (cases "content = []")
    case True
    then show ?thesis by (simp add: chunks_of.simps get_numchunks_def BT_CHUNK_SIZE_def)
  next
    case False
    have eq: "int (length (chunks_of content)) = 1 + get_numchunks (length content - BT_CHUNK_SIZE)"
      using "1.IH" [OF False] False by (subst chunks_of.simps) simp
    show ?thesis
    proof (cases "BT_CHUNK_SIZE \<le> length content")
      case True
      then have "int (length content) + int BT_CHUNK_SIZE - 1
          = (int (length content - BT_CHUNK_SIZE) + int BT_CHUNK_SIZE - 1) + int BT_CHUNK_SIZE"
        by simp
      with eq pos show ?thesis by (simp only: get_numchunks_def div_add_self2)
    next
      case small: False
      with False have "0 < length content" "length content < 524288" by (auto simp: BT_CHUNK_SIZE_def)
      then have "(int (length content) + 524288 - 1) div 524288 = 1"
        by (intro int_div_pos_eq [where r = "int (length content) - 1"]) simp_all
      with eq small show ?thesis by (simp add: get_numchunks_def BT_CHUNK_SIZE_def)
    qed
  qed
qed

lemma make_chunks_loop_result:
  assumes "length hashes + length (chunks_of rest) \<le> cap"
  shows "make_chunks_loop cap rest hashes = Inr (hashes @ map fips_sha1 (chunks_of rest))"
  using assms
proof (induction cap rest hashes rule: make_chunks_loop.induct)
  case (1 cap rest hashes)
  show ?case
  proof (cases "rest = []")
    case True
    then show ?thesis by (simp add: make_chunks_loop.simps chunks_of.simps)
  next
    case False
    then have cs: "chunks_of rest = take BT_CHUNK_SIZE rest # chunks_of (drop BT_CHUNK_SIZE rest)"
      by (simp add: chunks_of.simps [of rest])
    have sha: "shahash (take BT_CHUNK_SIZE rest) (int (length (take BT_CHUNK_SIZE rest)))
        = Inr (fips_sha1 (take BT_CHUNK_SIZE rest))"
      by (rule shahash_fips) (simp add: BT_CHUNK_SIZE_def)
    have "make_chunks_loop cap (drop BT_CHUNK_SIZE rest) (hashes @ [fips_sha1 (take BT_CHUNK_SIZE rest)])
        = Inr ((hashes @ [fips_sha1 (take BT_CHUNK_SIZE rest)]) @ map fips_sha1 (chunks_of (drop BT_CHUNK_SIZE rest)))"
      by (rule "1.IH" [OF False refl _ sha]) (use "1.prems" cs in auto)
    moreover have "length hashes < cap" using "1.prems" cs by simp
    ultimately show ?thesis
      unfolding make_chunks_loop.simps [of cap rest] Let_def sha
      using False by (simp add: cs)
  qed
qed

lemma make_chunks_loop_short:
  assumes "length hashes \<le> cap" and "cap < length hashes + length (chunks_of rest)"
  shows "make_chunks_loop cap rest hashes = Inl OutOfBounds"
  using assms
proof (induction cap rest hashes rule: make_chunks_loop.induct)
  case (1 cap rest hashes)
  then have ne: "rest \<noteq> []" by (auto simp: chunks_of.simps)
  then have cs: "chunks_of rest = take BT_CHUNK_SIZE rest # chunks_of (drop BT_CHUNK_SIZE rest)"
    by (simp add: chunks_of.simps [of rest])
  have sha: "shahash (take BT_CHUNK_SIZE rest) (int (length (take BT_CHUNK_SIZE rest)))
      = Inr (fips_sha1 (take BT_CHUNK_SIZE rest))"
    by (rule shahash_fips) (simp add: BT_CHUNK_SIZE_def)
  show ?case
  proof (cases "length hashes < cap")
    case False
    with ne show ?thesis by (simp add: make_chunks_loop.simps [of cap rest] Let_def)
  next
    case True
    have "make_chunks_loop cap (drop BT_CHUNK_SIZE rest) (hashes @ [fips_sha1 (take BT_CHUNK_SIZE rest)])
        = Inl OutOfBounds"
      by (rule "1.IH" [OF ne refl True sha]) (use "1.prems" cs True in auto)
    with True ne show ?thesis
      unfolding make_chunks_loop.simps [of cap rest] Let_def sha by simp
  qed
qed

section \<open>Properties\<close>

text \<open>
  C8. \<open>shahash\<close> computes SHA-1 as FIPS 180-4 defines it of the first \<open>len\<close> bytes of its
  argument, whatever the uninitialised stack context held before, for every length below
  \<open>2 ^ 32\<close> that fits the array.
\<close>

theorem shahash_is_sha1:
  assumes "length (buffer_bytes stack) = 64" and "0 \<le> len" and "len < 2 ^ 32"
    and "len \<le> int (length str)"
  shows "shahash_in stack str len = Inr (fips_sha1 (take (nat len) str))"
  by (rule shahash_in_fips [OF assms])

theorem shahash_is_sha1_witness:
  "shahash_in stack_context [0x61, 0x62, 0x63, 0x64] 3 =
   Inr [0xa9, 0x99, 0x3e, 0x36, 0x47, 0x06, 0x81, 0x6a, 0xba, 0x3e,
        0x25, 0x71, 0x78, 0x50, 0xc2, 0x6c, 0x9c, 0xd0, 0xd8, 0x9d]"
  using shahash_is_sha1 [of stack_context 3 "[0x61, 0x62, 0x63, 0x64]"]
  by (simp add: stack_context_def abc_fips_sha1)

text \<open>
  Streaming: a message fed to a fresh context in any number of pieces of any sizes is
  digested like the whole message; no update faults or loops.
\<close>

theorem SHA1_streaming:
  assumes "length (buffer_bytes stack) = 64"
  shows "\<exists>sc. foldl (\<lambda>r piece. ebind r (\<lambda>sc. SHA1Update sc piece)) (Inr (SHA1Init stack)) pieces = Inr sc \<and>
    (\<exists>sc'. SHA1Final sc = Inr (sc', fips_sha1 (concat pieces)))"
proof -
  have "\<exists>sc'. foldl (\<lambda>r piece. ebind r (\<lambda>sc. SHA1Update sc piece)) (Inr sc) pieces = Inr sc' \<and>
      sha_inv sc' (m @ concat pieces)" if "sha_inv sc m" for sc m
    using that
  proof (induction pieces arbitrary: sc m)
    case (Cons d ds)
    then obtain sc1 where "SHA1Update sc d = Inr sc1" "sha_inv sc1 (m @ d)"
      using SHA1Update_inv by blast
    with Cons.IH [of sc1 "m @ d"] show ?case by simp
  qed simp
  from this [OF sha_inv_init [OF assms]] show ?thesis
    using SHA1Final_fips by fastforce
qed

theorem SHA1_streaming_witness:
  "\<exists>sc. foldl (\<lambda>r piece. ebind r (\<lambda>sc. SHA1Update sc piece)) (Inr (SHA1Init stack_context)) [[0x61], [0x62, 0x63]] = Inr sc \<and>
    (\<exists>sc'. SHA1Final sc = Inr (sc', fips_sha1 [0x61, 0x62, 0x63]))"
  using SHA1_streaming [of stack_context "[[0x61], [0x62, 0x63]]"] by (simp add: stack_context_def)

text \<open>
  The hexadecimal text that \<open>binary2hex\<close> writes is read back by \<open>hex2binary\<close> as the
  same bytes, and only the result's front of the target array is overwritten.
\<close>

theorem hex_roundtrip:
  assumes "2 * length bs < length hex" and "length bs \<le> length buf"
  shows "\<exists>text. binary2hex (bs @ r) (length bs) hex = Inr text \<and> length text = length hex \<and>
    hex2binary text (2 * length bs) buf = Inr (bs @ drop (length bs) buf)"
  using binary2hex_result [OF assms(1), of r] hex2binary_result [OF assms(2)] assms(1) by auto

theorem hex_roundtrip_witness:
  "\<exists>text. binary2hex [0xca, 0xfe, 0x07] 2 (replicate 5 0) = Inr text \<and> length text = 5 \<and>
    hex2binary text 4 (replicate 3 0) = Inr ([0xca, 0xfe] @ [0])"
  using hex_roundtrip [of "[0xca, 0xfe]" "replicate 5 0" "replicate 3 0" "[0x07]"] by (simp add: numeral_eq_Suc)

text \<open>
  C34. \<open>make_chunks\<close> stores the SHA-1 digests of the consecutive 512 KiB chunks of the file,
  as many as \<open>get_numchunks\<close> says, when the caller allocated at least that many rows; with
  fewer rows it writes outside the array. The chunks concatenate to the file.
\<close>

theorem make_chunks_digests:
  "make_chunks cap content =
     (if get_numchunks (length content) \<le> int cap then Inr (map fips_sha1 (chunks_of content)) else Inl OutOfBounds) \<and>
   int (length (chunks_of content)) = get_numchunks (length content) \<and> concat (chunks_of content) = content"
  using make_chunks_loop_result [of "[]" content cap] make_chunks_loop_short [of "[]" cap content]
    length_chunks_of [of content] concat_chunks_of [of content]
  by (auto simp: make_chunks_def)

end
