(* ===== verification/Packet.thy ===== *)
theory Packet
  imports Chunk
begin

text \<open>
  \<^verbatim>\<open>packet.c\<close>: the packet structure, its wire format, the receive buffer and the
  constructors of DATA and ACK packets. The first sixteen bytes of the C structure have
  no padding and are copied to and from the wire as they lie in memory.
\<close>

section \<open>Data\<close>

definition MAX_HASHNUM_PER_PACK :: nat where "MAX_HASHNUM_PER_PACK = 50"
definition BUFLEN2 :: nat where "BUFLEN2 = 1500"
definition HEADER_LEN :: nat where "HEADER_LEN = 16"

text \<open>
  \<open>payload\<close> is \<open>None\<close> for a null pointer and otherwise the bytes stored in the allocated
  block. Every allocation is one byte longer than what is stored; that spare byte is not
  represented, and reading it counts as out of bounds.
\<close>

record packet =
  Magic_Num :: u16
  Version_Num :: byte
  Packet_Type :: byte
  Hd_len :: u16
  Pack_len :: u16
  Seq_Num :: u32
  ACK_Num :: u32
  Chunkhash_Num :: byte
  payload :: "byte list option"
  timestamp :: int
  ACKed_num :: int

text \<open>The structure after \<open>bzero\<close>.\<close>

definition zero_packet :: packet where
  "zero_packet = \<lparr>Magic_Num = 0, Version_Num = 0, Packet_Type = 0, Hd_len = 0, Pack_len = 0,
     Seq_Num = 0, ACK_Num = 0, Chunkhash_Num = 0, payload = None, timestamp = 0, ACKed_num = 0\<rparr>"

record buf =
  buf_bytes :: "byte list"
  buf_len :: int

definition zero_buf :: buf where
  "zero_buf = \<lparr>buf_bytes = replicate BUFLEN2 0, buf_len = 0\<rparr>"

section \<open>Serialisation\<close>

text \<open>The first \<open>HEADER_LEN\<close> bytes of a packet object in memory, and the assignment of them.\<close>

definition struct_image :: "packet \<Rightarrow> byte list" where
  "struct_image p = le16 (Magic_Num p) @ [Version_Num p, Packet_Type p] @ le16 (Hd_len p)
     @ le16 (Pack_len p) @ le32 (Seq_Num p) @ le32 (ACK_Num p)"

definition set_struct_image :: "packet \<Rightarrow> byte list \<Rightarrow> packet" where
  "set_struct_image p hdr = p\<lparr>Magic_Num := rd_le16 (take 2 hdr), Version_Num := hdr ! 2,
     Packet_Type := hdr ! 3, Hd_len := rd_le16 (take 2 (drop 4 hdr)),
     Pack_len := rd_le16 (take 2 (drop 6 hdr)), Seq_Num := rd_le32 (take 4 (drop 8 hdr)),
     ACK_Num := rd_le32 (take 4 (drop 12 hdr))\<rparr>"

definition hton_packet :: "packet \<Rightarrow> packet" where
  "hton_packet p = p\<lparr>Magic_Num := htons (Magic_Num p), Hd_len := htons (Hd_len p),
     Pack_len := htons (Pack_len p), Seq_Num := htonl (Seq_Num p), ACK_Num := htonl (ACK_Num p)\<rparr>"

definition ntoh_packet :: "packet \<Rightarrow> packet" where
  "ntoh_packet p = p\<lparr>Magic_Num := ntohs (Magic_Num p), Hd_len := ntohs (Hd_len p),
     Pack_len := ntohs (Pack_len p), Seq_Num := ntohl (Seq_Num p), ACK_Num := ntohl (ACK_Num p)\<rparr>"

text \<open>Reading \<open>n\<close> bytes at offset \<open>off\<close> of a packet's payload.\<close>

definition payload_read :: "packet \<Rightarrow> int \<Rightarrow> int \<Rightarrow> byte list res" where
  "payload_read p off n =
     (if n = 0 then Inr []
      else case payload p of None \<Rightarrow> Inl NullDeref | Some bs \<Rightarrow> mem_read bs off n)"

text \<open>
  \<open>serial_pack\<close> swaps the header fields in place, copies them, swaps them back and then
  goes on with the restored packet; the length of the payload copy is a difference of
  \<open>int\<close>s that becomes a \<open>size_t\<close>.
\<close>

definition serial_pack :: "packet \<Rightarrow> byte list res" where
  "serial_pack p0 =
     (let stream = replicate (unat (Pack_len p0) + 1) 0;
          p1 = hton_packet p0
      in ebind (mem_write stream 0 (struct_image p1)) (\<lambda>s1.
         let p = ntoh_packet p1;
             non_payload_len = (if Packet_Type p \<le> 1 then 20 else int HEADER_LEN)
         in ebind (if Packet_Type p \<le> 1 then mem_write s1 (int HEADER_LEN) [Chunkhash_Num p] else Inr s1) (\<lambda>s2.
            ebind (payload_read p 0 (int (unat (Pack_len p)) - non_payload_len)) (\<lambda>bs.
            mem_write s2 non_payload_len bs))))"

definition binary2packet :: "byte list \<Rightarrow> packet \<Rightarrow> packet res" where
  "binary2packet stream p0 =
     ebind (mem_read stream 0 (int HEADER_LEN)) (\<lambda>hdr.
     let p = ntoh_packet (set_struct_image p0 hdr);
         n = int (unat (Pack_len p))
     in ebind (if Packet_Type p \<le> 1
               then ebind (mem_read stream (int HEADER_LEN) 1) (\<lambda>c. Inr (p\<lparr>Chunkhash_Num := hd c\<rparr>, 20))
               else Inr (p, 16)) (\<lambda>(p, non_payload_len).
        if Packet_Type p < 4 \<and> n - non_payload_len > 0
        then ebind (mem_read stream non_payload_len (n - non_payload_len)) (\<lambda>bs.
             Inr (p\<lparr>payload := Some bs\<rparr>))
        else Inr p))"

section \<open>The receive buffer\<close>

text \<open>
  \<open>get_firststream\<close> cuts the first packet off the front of the buffer. The overlapping
  \<open>memcpy\<close> that moves the rest forward is read as \<open>memmove\<close>, which is what the C
  library does for this direction of copy.
\<close>

definition get_firststream :: "buf \<Rightarrow> (byte list option \<times> buf) res" where
  "get_firststream b =
     (if buf_len b < int HEADER_LEN then Inr (None, b)
      else ebind (mem_read (buf_bytes b) 6 2) (\<lambda>l.
           let stream_len = ntohs (rd_le16 l); n = int (unat stream_len)
           in ebind (mem_read (buf_bytes b) 0 n) (\<lambda>first.
              let new_stream = first @ [0]
              in ebind (mem_read (buf_bytes b) n (int BUFLEN2 - n)) (\<lambda>rest.
                 ebind (mem_write (buf_bytes b) 0 rest) (\<lambda>b1.
                 ebind (mem_write b1 (int BUFLEN2 - n) (replicate (unat stream_len) 0)) (\<lambda>b2.
                 Inr (Some new_stream, b\<lparr>buf_bytes := b2, buf_len := buf_len b - n\<rparr>)))))))"

definition get_firstpack :: "buf \<Rightarrow> packet \<Rightarrow> (buf \<times> packet) res" where
  "get_firstpack b pack =
     ebind (get_firststream b) (\<lambda>(s, b').
       case s of None \<Rightarrow> Inr (b', pack)
       | Some stream \<Rightarrow> ebind (binary2packet stream pack) (\<lambda>p. Inr (b', p)))"

section \<open>Constructors\<close>

definition form_DATA_pack :: "byte list \<Rightarrow> int \<Rightarrow> int \<Rightarrow> packet res" where
  "form_DATA_pack data data_len seqno =
     ebind (mem_read data 0 data_len) (\<lambda>bs.
     Inr (zero_packet\<lparr>Packet_Type := 3, Hd_len := of_nat HEADER_LEN, Magic_Num := 15441,
       Version_Num := 1, Seq_Num := of_int seqno, timestamp := 0,
       Pack_len := of_int (int HEADER_LEN + data_len), payload := Some bs\<rparr>))"

definition form_ACK_pack :: "int \<Rightarrow> packet" where
  "form_ACK_pack seqno = zero_packet\<lparr>Packet_Type := 4, Hd_len := of_nat HEADER_LEN,
     Magic_Num := 15441, Version_Num := 1, Pack_len := of_nat HEADER_LEN, ACK_Num := of_int seqno\<rparr>"

text \<open>
  \<open>print_pack\<close> writes the hash list of a packet into a stack buffer of 2000 bytes before
  it prints; only that memory access matters here.
\<close>

definition print_pack :: "packet \<Rightarrow> unit res" where
  "print_pack p =
     (let n = 20 * unat (Chunkhash_Num p)
      in ebind (payload_read p 0 (int n)) (\<lambda>bs.
         ebind (binary2hex bs n (replicate 2000 0)) (\<lambda>_. Inr ())))"

section \<open>Wire format\<close>

text \<open>The header as it travels: every field in network order.\<close>

definition wire_header :: "packet \<Rightarrow> byte list" where
  "wire_header p = be16 (Magic_Num p) @ [Version_Num p, Packet_Type p] @ be16 (Hd_len p)
     @ be16 (Pack_len p) @ be32 (Seq_Num p) @ be32 (ACK_Num p)"

lemma length_wire_header [simp]: "length (wire_header p) = 16"
  by (simp add: wire_header_def)

lemma struct_image_hton: "struct_image (hton_packet p) = wire_header p"
  by (simp add: struct_image_def hton_packet_def wire_header_def codec_simps)

lemma ntoh_hton_packet [simp]: "ntoh_packet (hton_packet p) = p"
  by (simp add: ntoh_packet_def hton_packet_def codec_simps)

lemma set_struct_image_image:
  "set_struct_image q (struct_image p) =
   q\<lparr>Magic_Num := Magic_Num p, Version_Num := Version_Num p, Packet_Type := Packet_Type p,
     Hd_len := Hd_len p, Pack_len := Pack_len p, Seq_Num := Seq_Num p, ACK_Num := ACK_Num p\<rparr>"
  by (simp add: set_struct_image_def struct_image_def rd_le16_le16 rd_le32_le32 nth_append)

text \<open>Reading a wire header into any packet object sets exactly the seven header fields.\<close>

lemma set_struct_image_wire:
  "ntoh_packet (set_struct_image q (wire_header p)) =
   q\<lparr>Magic_Num := Magic_Num p, Version_Num := Version_Num p, Packet_Type := Packet_Type p,
     Hd_len := Hd_len p, Pack_len := Pack_len p, Seq_Num := Seq_Num p, ACK_Num := ACK_Num p\<rparr>"
  by (simp flip: struct_image_hton
      add: set_struct_image_image ntoh_packet_def hton_packet_def ntohs_htons ntohl_htonl)

text \<open>
  Sixteen-byte headers in network order form a fixed-width code for the seven header
  fields, so two headers in a byte stream are never confused.
\<close>

type_synonym header_fields = "u16 \<times> byte \<times> byte \<times> u16 \<times> u16 \<times> u32 \<times> u32"

definition fields_of :: "packet \<Rightarrow> header_fields" where
  "fields_of p = (Magic_Num p, Version_Num p, Packet_Type p, Hd_len p, Pack_len p, Seq_Num p, ACK_Num p)"

definition packet_with :: "header_fields \<Rightarrow> packet" where
  "packet_with f = (case f of (m, v, t, h, l, s, a) \<Rightarrow>
     zero_packet\<lparr>Magic_Num := m, Version_Num := v, Packet_Type := t, Hd_len := h, Pack_len := l,
       Seq_Num := s, ACK_Num := a\<rparr>)"

lemma fields_of_packet_with [simp]: "fields_of (packet_with f) = f"
  by (simp add: fields_of_def packet_with_def split: prod.split)

interpretation wire: byte_codec
  "\<lambda>f. wire_header (packet_with f)"
  "\<lambda>bs. fields_of (ntoh_packet (set_struct_image zero_packet bs))" 16
  by unfold_locales (simp_all add: set_struct_image_wire fields_of_def packet_with_def split: prod.split)

lemma wire_header_fields: "wire_header (packet_with (fields_of p)) = wire_header p"
  by (simp add: wire_header_def packet_with_def fields_of_def)

lemma wire_header_inject: "wire_header p = wire_header q \<longleftrightarrow> fields_of p = fields_of q"
  using wire.enc_inject [of "fields_of p" "fields_of q"] by (simp add: wire_header_fields)

lemma byte_le_simps [simp]:
  "\<not> (2 :: byte) \<le> 1" "\<not> (3 :: byte) \<le> 1" "\<not> (4 :: byte) \<le> 1" "(0 :: byte) \<le> 1"
  by (simp_all add: word_le_nat_alt)

section \<open>Packets that can be sent\<close>

text \<open>
  A packet is well formed when its length field, type and payload agree: requests and
  announcements carry four bytes of count and padding before the hashes, ACKs carry no
  payload, and the header length is what the sender writes.
\<close>

definition overhead :: "packet \<Rightarrow> nat" where
  "overhead p = (if Packet_Type p \<le> 1 then 20 else 16)"

definition body :: "packet \<Rightarrow> byte list" where
  "body p = (case payload p of None \<Rightarrow> [] | Some bs \<Rightarrow> bs)"

definition wf_packet :: "packet \<Rightarrow> bool" where
  "wf_packet p \<longleftrightarrow>
     unat (Pack_len p) = overhead p + length (body p) \<and>
     (payload p = Some [] \<longrightarrow> False) \<and> (Packet_Type p \<ge> 4 \<longrightarrow> payload p = None) \<and>
     (Packet_Type p > 1 \<longrightarrow> Chunkhash_Num p = 0)"

definition wire_bytes :: "packet \<Rightarrow> byte list" where
  "wire_bytes p = wire_header p
     @ (if Packet_Type p \<le> 1 then [Chunkhash_Num p, 0, 0, 0] else []) @ body p"

lemma length_wire_bytes: "wf_packet p \<Longrightarrow> length (wire_bytes p) = unat (Pack_len p)"
  by (simp add: wire_bytes_def wf_packet_def overhead_def)

lemma payload_read_body:
  "payload_read p 0 (int (length (body p))) = Inr (body p)"
  by (auto simp: payload_read_def body_def mem_read_def split: option.split)

lemma serial_pack_bytes:
  assumes "wf_packet p"
  shows "serial_pack p = Inr (wire_bytes p @ [0])"
proof -
  have len: "unat (Pack_len p) = overhead p + length (body p)"
    using assms by (simp add: wf_packet_def)
  let ?n = "length (body p)"
  have hdr: "mem_write (replicate (unat (Pack_len p) + 1) 0) 0 (struct_image (hton_packet p))
      = Inr (wire_header p @ replicate (overhead p - 16 + ?n + 1) 0)"
  proof -
    have "replicate (unat (Pack_len p) + 1) (0::byte)
        = replicate 16 0 @ replicate (overhead p - 16 + ?n + 1) 0"
      by (rule replicate_split) (simp add: len overhead_def)
    then show ?thesis
      using mem_write_front [of "wire_header p" "replicate 16 0"] by (simp only: struct_image_hton) simp
  qed
  have bd: "payload_read p 0 (int (unat (Pack_len p)) - int (overhead p)) = Inr (body p)"
    by (simp add: len payload_read_body)
  show ?thesis
  proof (cases "Packet_Type p \<le> 1")
    case True
    then have ov: "overhead p = 20" by (simp add: overhead_def)
    have cnt: "mem_write (wire_header p @ replicate (4 + ?n + 1) 0) 16 [Chunkhash_Num p]
        = Inr (wire_header p @ [Chunkhash_Num p] @ replicate (3 + ?n + 1) 0)"
      using mem_write_middle [of 16 "wire_header p" "[Chunkhash_Num p]" "[0]" "replicate (3 + ?n + 1) 0"]
      by (simp add: numeral_eq_Suc)
    have fin: "mem_write (wire_header p @ [Chunkhash_Num p] @ replicate (3 + ?n + 1) 0) 20 (body p)
        = Inr (wire_bytes p @ [0])"
      using mem_write_middle [of 20 "wire_header p @ [Chunkhash_Num p, 0, 0, 0]" "body p"
          "replicate ?n 0" "[0]"] True
      by (simp add: wire_bytes_def replicate_add numeral_3_eq_3 replicate_append_same)
    show ?thesis
      using True hdr cnt fin bd ov
      by (simp add: serial_pack_def Let_def HEADER_LEN_def)
  next
    case False
    then have ov: "overhead p = 16" by (simp add: overhead_def)
    have fin: "mem_write (wire_header p @ replicate (?n + 1) 0) 16 (body p) = Inr (wire_bytes p @ [0])"
      using mem_write_middle [of 16 "wire_header p" "body p" "replicate ?n 0" "[0]"] False
      by (simp add: wire_bytes_def replicate_append_same)
    show ?thesis
      using False hdr fin bd ov
      by (simp add: serial_pack_def Let_def HEADER_LEN_def)
  qed
qed

text \<open>What \<open>binary2packet\<close> makes of the bytes of a well-formed packet followed by anything.\<close>

lemma binary2packet_wire:
  assumes "wf_packet p"
  shows "binary2packet (wire_bytes p @ r) zero_packet = Inr (p\<lparr>timestamp := 0, ACKed_num := 0\<rparr>)"
proof -
  let ?n = "length (body p)"
  have len: "int (unat (Pack_len p)) = int (overhead p) + int ?n"
    using assms by (simp add: wf_packet_def)
  define q where "q = ntoh_packet (set_struct_image zero_packet (wire_header p))"
  have qf: "Packet_Type q = Packet_Type p" "Pack_len q = Pack_len p"
    unfolding q_def set_struct_image_wire by simp_all
  have q1: "q\<lparr>Chunkhash_Num := Chunkhash_Num p\<rparr> = p\<lparr>payload := None, timestamp := 0, ACKed_num := 0\<rparr>"
    unfolding q_def set_struct_image_wire zero_packet_def by simp
  have q2: "q = p\<lparr>Chunkhash_Num := 0, payload := None, timestamp := 0, ACKed_num := 0\<rparr>"
    unfolding q_def set_struct_image_wire zero_packet_def by simp
  have hdr: "mem_read (wire_bytes p @ r) 0 (int HEADER_LEN) = Inr (wire_header p)"
    by (simp add: mem_read_def wire_bytes_def HEADER_LEN_def)
  have pay: "?n = 0 \<and> payload p = None \<or> 0 < ?n \<and> Packet_Type p < 4 \<and> payload p = Some (body p)"
    using assms by (auto simp: wf_packet_def body_def not_le split: option.splits)
  show ?thesis
  proof (cases "Packet_Type p \<le> 1")
    case True
    have "mem_read (wire_bytes p @ r) (int HEADER_LEN) 1 = Inr [Chunkhash_Num p]"
      using True by (simp add: mem_read_def wire_bytes_def HEADER_LEN_def)
    moreover have "mem_read (wire_bytes p @ r) 20 (int ?n) = Inr (body p)"
      using True by (simp add: mem_read_def wire_bytes_def)
    ultimately show ?thesis
      using True hdr pay len
      by (auto simp: binary2packet_def Let_def q_def [symmetric] qf q1 overhead_def)
  next
    case False
    then have "q = p\<lparr>payload := None, timestamp := 0, ACKed_num := 0\<rparr>"
      using assms q2 by (simp add: wf_packet_def)
    moreover have "mem_read (wire_bytes p @ r) 16 (int ?n) = Inr (body p)"
      using False by (simp add: mem_read_def wire_bytes_def)
    ultimately show ?thesis
      using False hdr pay len
      by (auto simp: binary2packet_def Let_def q_def [symmetric] overhead_def)
  qed
qed

text \<open>
  The buffer contract: \<open>holds b bs\<close> says that the first \<open>buf_len\<close> bytes of the receive
  buffer are \<open>bs\<close>.
\<close>

definition holds :: "buf \<Rightarrow> byte list \<Rightarrow> bool" where
  "holds b bs \<longleftrightarrow> length (buf_bytes b) = BUFLEN2 \<and> buf_len b = int (length bs) \<and>
     length bs \<le> BUFLEN2 \<and> take (length bs) (buf_bytes b) = bs"

lemma packet_length_field:
  "mem_read (wire_bytes p @ r) 6 2 = Inr (be16 (Pack_len p))"
  by (simp add: mem_read_def wire_bytes_def wire_header_def be16_def be32_def)

lemma get_firststream_holds:
  assumes "wf_packet p" and h: "holds b (wire_bytes p @ r)"
  shows "\<exists>b'. get_firststream b = Inr (Some (wire_bytes p @ [0]), b') \<and> holds b' r"
proof -
  let ?n = "unat (Pack_len p)" and ?B = "buf_bytes b"
  have n: "length (wire_bytes p) = ?n" using assms(1) by (rule length_wire_bytes)
  have ge16: "16 \<le> ?n" unfolding n [symmetric] by (simp add: wire_bytes_def)
  have B: "?B = wire_bytes p @ r @ drop (?n + length r) ?B" and lenB: "length ?B = BUFLEN2"
    and le: "?n + length r \<le> BUFLEN2" and bl: "buf_len b = int ?n + int (length r)"
    using h n by (auto simp: holds_def) (metis append_assoc append_take_drop_id)
  let ?rest = "r @ drop (?n + length r) ?B"
  have rest: "length ?rest = BUFLEN2 - ?n" using lenB le by simp
  have len: "mem_read ?B 6 2 = Inr (be16 (Pack_len p))"
    by (subst B) (rule packet_length_field)
  have fst: "mem_read ?B 0 (int ?n) = Inr (wire_bytes p)"
    by (subst B) (simp only: n [symmetric] mem_read_prefix)
  have snd: "mem_read ?B (int ?n) (int BUFLEN2 - int ?n) = Inr ?rest"
  proof -
    have "int BUFLEN2 - int ?n = int (length ?rest)" using rest le by simp
    then show ?thesis using mem_read_suffix [of "wire_bytes p" ?rest] B n by metis
  qed
  let ?b1 = "?rest @ drop (BUFLEN2 - ?n) ?B"
  have wr1: "mem_write ?B 0 ?rest = Inr ?b1"
    using rest lenB by (auto simp: mem_write_def)
  have wr2: "mem_write ?b1 (int BUFLEN2 - int ?n) (replicate ?n 0) = Inr (?rest @ replicate ?n 0)"
    using mem_write_middle [of "int BUFLEN2 - int ?n" ?rest "replicate ?n 0" "drop (BUFLEN2 - ?n) ?B" "[]"]
      rest lenB le by simp
  have pl: "ntohs (rd_le16 (be16 (Pack_len p))) = Pack_len p"
    using net16.dec_enc by (simp add: rd_net16_def)
  have nb: "\<not> buf_len b < int HEADER_LEN"
    using ge16 bl by (simp only: HEADER_LEN_def)
  have "get_firststream b = Inr (Some (wire_bytes p @ [0]),
      b\<lparr>buf_bytes := ?rest @ replicate ?n 0, buf_len := int (length r)\<rparr>)"
    using nb bl len fst snd wr1 wr2
    by (simp add: get_firststream_def Let_def pl)
  moreover have "holds (b\<lparr>buf_bytes := ?rest @ replicate ?n 0, buf_len := int (length r)\<rparr>) r"
    using le rest by (simp add: holds_def)
  ultimately show ?thesis by blast
qed

lemma get_firstpack_holds:
  assumes "wf_packet p" and "holds b (wire_bytes p @ r)"
  shows "\<exists>b'. get_firstpack b zero_packet = Inr (b', p\<lparr>timestamp := 0, ACKed_num := 0\<rparr>) \<and> holds b' r"
proof -
  obtain b' where "get_firststream b = Inr (Some (wire_bytes p @ [0]), b')" "holds b' r"
    using get_firststream_holds [OF assms] by blast
  then show ?thesis
    by (simp add: get_firstpack_def binary2packet_wire [OF assms(1)])
qed

text \<open>
  A packet cut off the buffer always shortens it: a length field below 15 makes
  \<open>binary2packet\<close> read outside the cut-off stream, so it never loops on a length of zero.
\<close>

lemma get_firststream_shape:
  assumes "get_firststream b = Inr (s, b')" and "int HEADER_LEN \<le> buf_len b"
  obtains stream where "s = Some stream" and "buf_len b' = buf_len b - (int (length stream) - 1)"
  using assms that
  by (auto simp: get_firststream_def Let_def res_simps not_le dest!: mem_read_length)

lemma get_firstpack_decreases:
  assumes "get_firstpack b p0 = Inr (b', p)" and "int HEADER_LEN \<le> buf_len b"
  shows "buf_len b' \<le> buf_len b - 15"
proof -
  from assms obtain s where s: "get_firststream b = Inr (s, b')"
    by (auto simp: get_firstpack_def res_simps split: option.splits)
  obtain stream where st: "s = Some stream"
    "buf_len b' = buf_len b - (int (length stream) - 1)"
    using s assms(2) by (rule get_firststream_shape)
  with assms(1) s have "\<exists>p'. binary2packet stream p0 = Inr p'"
    by (auto simp: get_firstpack_def res_simps)
  then have "16 \<le> int (length stream)"
    by (auto simp: binary2packet_def res_simps mem_read_def HEADER_LEN_def split: if_splits)
  with st show ?thesis by simp
qed

lemma form_DATA_pack_wf:
  assumes "0 < length bs" and "length bs \<le> 1024"
  shows "\<exists>p. form_DATA_pack (bs @ r) (int (length bs)) seqno = Inr p \<and> wf_packet p \<and>
    payload p = Some bs \<and> Packet_Type p = 3 \<and> Hd_len p = 16 \<and>
    Pack_len p = of_nat (16 + length bs) \<and> Seq_Num p = of_int seqno"
  using assms
  by (auto simp: form_DATA_pack_def mem_read_def wf_packet_def overhead_def body_def
      zero_packet_def HEADER_LEN_def unat_of_nat unat_word_ariths)

lemma form_ACK_pack_wf: "wf_packet (form_ACK_pack n)"
  by (simp add: form_ACK_pack_def wf_packet_def overhead_def body_def zero_packet_def HEADER_LEN_def)

section \<open>Properties\<close>

text \<open>Cutting \<open>n\<close> packets off the receive buffer, as the loop of \<open>process_inbound_udp\<close> does.\<close>

fun take_packets :: "nat \<Rightarrow> buf \<Rightarrow> (packet list \<times> buf) res" where
  "take_packets 0 b = Inr ([], b)"
| "take_packets (Suc n) b =
     ebind (get_firstpack b zero_packet) (\<lambda>(b', p).
     ebind (take_packets n b') (\<lambda>(ps, b''). Inr (p # ps, b'')))"

definition as_received :: "packet \<Rightarrow> packet" where
  "as_received p = p\<lparr>timestamp := 0, ACKed_num := 0\<rparr>"

lemma take_packets_holds:
  assumes "list_all wf_packet ps" and "holds b (concat (map wire_bytes ps) @ r)"
  shows "\<exists>b'. take_packets (length ps) b = Inr (map as_received ps, b') \<and> holds b' r"
  using assms
proof (induction ps arbitrary: b)
  case Nil
  then show ?case by simp
next
  case (Cons p ps)
  then have "wf_packet p" and "holds b (wire_bytes p @ concat (map wire_bytes ps) @ r)" by simp_all
  from get_firstpack_holds [OF this] obtain b1 where
    "get_firstpack b zero_packet = Inr (b1, as_received p)" "holds b1 (concat (map wire_bytes ps) @ r)"
    by (auto simp: as_received_def)
  with Cons.IH [of b1] Cons.prems show ?case by auto
qed

definition sample_packet :: packet where
  "sample_packet = zero_packet\<lparr>Magic_Num := 15441, Version_Num := 1, Packet_Type := 3, Hd_len := 16,
     Pack_len := 19, Seq_Num := 7, payload := Some [1, 2, 3], timestamp := 99\<rparr>"

lemma sample_packet_wf: "wf_packet sample_packet"
  by (simp add: sample_packet_def wf_packet_def overhead_def body_def zero_packet_def)

text \<open>
  C15. Round trip over the network: the bytes that \<open>serial_pack\<close> makes of a well-formed
  packet, header in network byte order, are parsed by \<open>binary2packet\<close> into the same packet
  with its local bookkeeping (timestamp and ACK count) cleared.
\<close>

theorem packet_roundtrip:
  assumes "wf_packet p"
  shows "\<exists>stream. serial_pack p = Inr stream \<and> stream = wire_header p
      @ (if Packet_Type p \<le> 1 then [Chunkhash_Num p, 0, 0, 0] else []) @ body p @ [0] \<and>
    binary2packet stream zero_packet = Inr (as_received p)"
  using serial_pack_bytes [OF assms] binary2packet_wire [OF assms, of "[0]"]
  by (simp add: wire_bytes_def as_received_def)

theorem packet_roundtrip_witness:
  "\<exists>stream. serial_pack sample_packet = Inr stream \<and>
    binary2packet stream zero_packet = Inr (sample_packet\<lparr>timestamp := 0\<rparr>)"
  using packet_roundtrip [OF sample_packet_wf]
  by (auto simp: as_received_def sample_packet_def zero_packet_def)

text \<open>
  Framing: when the receive buffer holds the bytes of any number of well-formed packets
  and any remainder, taking that many packets yields exactly these packets in order and
  leaves the remainder at the front of the buffer.
\<close>

theorem packet_framing:
  assumes "list_all wf_packet ps" and "holds b (concat (map wire_bytes ps) @ r)"
  shows "\<exists>b'. take_packets (length ps) b = Inr (map as_received ps, b') \<and> holds b' r"
  by (rule take_packets_holds [OF assms])

theorem packet_framing_witness:
  "\<exists>b b'. take_packets 2 b = Inr ([as_received sample_packet, form_ACK_pack 5], b') \<and> holds b' [7, 7]"
proof -
  let ?ps = "[sample_packet, form_ACK_pack 5]"
  let ?bs = "concat (map wire_bytes ?ps) @ [7, 7]"
  let ?b = "\<lparr>buf_bytes = ?bs @ replicate (BUFLEN2 - length ?bs) 0, buf_len = int (length ?bs)\<rparr>"
  have wf: "list_all wf_packet ?ps" using sample_packet_wf form_ACK_pack_wf by simp
  have "length ?bs = 37"
    using length_wire_bytes [OF sample_packet_wf] length_wire_bytes [OF form_ACK_pack_wf, of 5]
    by (simp add: sample_packet_def form_ACK_pack_def HEADER_LEN_def)
  then have "holds ?b ?bs" unfolding holds_def by (simp add: BUFLEN2_def)
  from packet_framing [OF wf this] show ?thesis
    by (auto simp: as_received_def form_ACK_pack_def zero_packet_def numeral_2_eq_2)
qed

text \<open>
  Serialisation loses nothing: two well-formed packets with the same stream are the same
  packet up to local bookkeeping.
\<close>

theorem serial_pack_injective:
  assumes "wf_packet p" and "wf_packet q" and "serial_pack p = serial_pack q"
  shows "as_received p = as_received q"
  using serial_pack_bytes [OF assms(1)] serial_pack_bytes [OF assms(2)] assms(3)
    binary2packet_wire [OF assms(1), of "[]"] binary2packet_wire [OF assms(2), of "[]"]
  by (simp add: as_received_def)

theorem serial_pack_injective_witness:
  "as_received sample_packet = as_received (sample_packet\<lparr>timestamp := 5\<rparr>)"
proof (rule serial_pack_injective)
  show wf: "wf_packet sample_packet" by (rule sample_packet_wf)
  show wf2: "wf_packet (sample_packet\<lparr>timestamp := 5\<rparr>)"
    using wf by (simp add: wf_packet_def overhead_def body_def)
  show "serial_pack sample_packet = serial_pack (sample_packet\<lparr>timestamp := 5\<rparr>)"
    unfolding serial_pack_bytes [OF wf] serial_pack_bytes [OF wf2]
    by (simp add: wire_bytes_def wire_header_def body_def)
qed

text \<open>
  Progress and error: as long as the buffer holds at least a header, taking a packet
  either faults or shortens the buffer by at least 15 bytes, so the receive loop ends for
  any contents; a length field below 15 is a fault (the header is read past the copy).
\<close>

theorem get_firstpack_progress:
  assumes "int HEADER_LEN \<le> buf_len b"
  shows "case get_firstpack b p0 of Inl e \<Rightarrow> e = OutOfBounds | Inr (b', p) \<Rightarrow> buf_len b' \<le> buf_len b - 15"
proof (cases "get_firstpack b p0")
  case (Inr s)
  then show ?thesis using get_firstpack_decreases assms by (cases s) auto
next
  case (Inl e)
  have r: "mem_read xs i n = Inl e \<Longrightarrow> e = OutOfBounds" for xs :: "byte list" and i n
    by (auto simp: mem_read_def split: if_splits)
  have w: "mem_write xs i ys = Inl e \<Longrightarrow> e = OutOfBounds" for xs ys :: "byte list" and i
    by (auto simp: mem_write_def split: if_splits)
  have "e = OutOfBounds"
    using Inl by (auto simp: get_firstpack_def get_firststream_def binary2packet_def Let_def ebind_eq_Inl
        split: if_splits option.splits dest!: r w)
  with Inl show ?thesis by simp
qed

theorem get_firstpack_progress_witness:
  "get_firstpack \<lparr>buf_bytes = replicate BUFLEN2 0, buf_len = 20\<rparr> zero_packet = Inl OutOfBounds"
proof -
  let ?b = "\<lparr>buf_bytes = replicate BUFLEN2 0, buf_len = 20\<rparr>"
  have "int HEADER_LEN \<le> buf_len ?b" by (simp add: HEADER_LEN_def)
  note get_firstpack_progress [OF this, of zero_packet]
  moreover have "rd_le16 [0, 0] = 0" by (simp add: rd_le16_def)
  then have "ntohs (rd_le16 [0, 0]) = 0" by (simp add: htons_def le16_def byte_of_def)
  then have "get_firstpack ?b zero_packet = Inl OutOfBounds"
    by (simp add: get_firstpack_def get_firststream_def binary2packet_def HEADER_LEN_def mem_read_def
        mem_write_def BUFLEN2_def numeral_2_eq_2)
  ultimately show ?thesis by simp
qed

end
