(* ===== verification/CText.thy ===== *)
theory CText
  imports Prelude
begin

text \<open>
  The parts of the C library's text handling that the program uses, on byte lists: C
  strings, \<open>strchr\<close>, \<open>atoi\<close>, \<open>fgets\<close> and the \<open>sscanf\<close> directives \<open>%d\<close>, \<open>%s\<close> and white space.
  Numbers are read as glibc does: \<open>strtol\<close> saturates at 64 bits and the result is
  converted to a 32-bit \<open>int\<close>.
\<close>

section \<open>Characters and strings\<close>

text \<open>A string literal as bytes.\<close>

definition ascii :: "string \<Rightarrow> byte list" where
  "ascii s = map of_char s"

text \<open>The C string that starts at the front of an array: everything before the first NUL.\<close>

definition cstr :: "byte list \<Rightarrow> byte list" where
  "cstr bs = takeWhile (\<lambda>c. c \<noteq> 0) bs"

definition is_space :: "byte \<Rightarrow> bool" where
  "is_space c \<longleftrightarrow> c = 32 \<or> (9 \<le> c \<and> c \<le> 13)"

definition is_digit :: "byte \<Rightarrow> bool" where
  "is_digit c \<longleftrightarrow> 48 \<le> c \<and> c \<le> 57"

definition skip_space :: "byte list \<Rightarrow> byte list" where
  "skip_space s = dropWhile is_space s"

section \<open>Numbers\<close>

definition int32 :: "int \<Rightarrow> int" where
  "int32 x = sint (word_of_int x :: u32)"

lemma int32_id: "- (2 ^ 31) \<le> x \<Longrightarrow> x < 2 ^ 31 \<Longrightarrow> int32 x = x"
  by (simp add: int32_def signed_of_int signed_take_bit_int_eq_self)

definition digits_value :: "byte list \<Rightarrow> int" where
  "digits_value ds = foldl (\<lambda>v c. 10 * v + (uint c - 48)) 0 ds"

definition saturate_long :: "int \<Rightarrow> int" where
  "saturate_long x = max (- (2 ^ 63)) (min (2 ^ 63 - 1) x)"

text \<open>An optionally signed decimal number at the front, after white space.\<close>

definition scan_sign :: "byte list \<Rightarrow> int \<times> byte list" where
  "scan_sign s = (case s of c # r \<Rightarrow> if c = 45 then (-1, r) else if c = 43 then (1, r) else (1, s)
                  | [] \<Rightarrow> (1, s))"

definition scan_int :: "byte list \<Rightarrow> (int \<times> byte list) option" where
  "scan_int s =
     (let (sgn, r) = scan_sign (skip_space s); ds = takeWhile is_digit r
      in if ds = [] then None
         else Some (int32 (saturate_long (sgn * digits_value ds)), dropWhile is_digit r))"

definition atoi :: "byte list \<Rightarrow> int" where
  "atoi s = (case scan_int (cstr s) of None \<Rightarrow> 0 | Some (v, r) \<Rightarrow> v)"

text \<open>Decimal output, as \<open>%d\<close> prints it.\<close>

fun show_nat :: "nat \<Rightarrow> byte list" where
  "show_nat n = (if n < 10 then [of_nat (48 + n)] else show_nat (n div 10) @ [of_nat (48 + n mod 10)])"

declare show_nat.simps [simp del]

definition show_int :: "int \<Rightarrow> byte list" where
  "show_int i = (if i < 0 then 45 # show_nat (nat (- i)) else show_nat (nat i))"

section \<open>Words and lines\<close>

text \<open>
  \<open>%s\<close> with a maximal field width (\<open>None\<close>: unlimited): the non-blank run after white
  space, or \<open>None\<close> at the end of the input.
\<close>

definition scan_word :: "nat option \<Rightarrow> byte list \<Rightarrow> (byte list \<times> byte list) option" where
  "scan_word width s =
     (let r = skip_space s;
          w = takeWhile (\<lambda>c. \<not> is_space c) r;
          v = (case width of None \<Rightarrow> w | Some n \<Rightarrow> take n w)
      in if r = [] then None else Some (v, drop (length v) r))"

text \<open>
  \<open>fgets(line, n, f)\<close> on the unread rest of a file: at most \<open>n - 1\<close> bytes, up to and
  including the first newline; \<open>None\<close> at the end of the file.
\<close>

definition fgets :: "nat \<Rightarrow> byte list \<Rightarrow> (byte list \<times> byte list) option" where
  "fgets n f =
     (let run = takeWhile (\<lambda>c. c \<noteq> 10) f;
          line = take (n - 1) (run @ (if length run < length f then [10] else []))
      in if line = [] then None else Some (line, drop (length line) f))"

lemma fgets_shortens: "fgets n f = Some (line, r) \<Longrightarrow> length r < length f"
proof -
  assume a: "fgets n f = Some (line, r)"
  then have "line \<noteq> []" and "r = drop (length line) f"
    by (auto simp: fgets_def Let_def split: if_splits)
  moreover from a have "f \<noteq> []" by (auto simp: fgets_def)
  ultimately show ?thesis by simp
qed

text \<open>The offset of a character in a C string.\<close>

definition strchr :: "byte list \<Rightarrow> byte \<Rightarrow> nat option" where
  "strchr s c = (let n = length (takeWhile (\<lambda>x. x \<noteq> c) (cstr s))
                 in if n < length (cstr s) then Some n else None)"

section \<open>Printing and scanning numbers\<close>

lemma is_digit_48: "d < 10 \<Longrightarrow> is_digit (of_nat (48 + d))"
  by (auto simp: is_digit_def word_le_nat_alt unat_of_nat unat_word_ariths)

lemma uint_48: "d < 10 \<Longrightarrow> uint (of_nat (48 + d) :: byte) = 48 + int d"
  by (auto simp: uint_nat unat_of_nat unat_word_ariths)

lemma show_nat_digits: "show_nat n \<noteq> [] \<and> list_all is_digit (show_nat n)"
proof (induction n rule: show_nat.induct)
  case (1 n)
  then show ?case
    by (subst (1 2) show_nat.simps) (auto simp: is_digit_48 simp del: of_nat_add)
qed

lemma digits_value_append: "digits_value (ds @ [c]) = 10 * digits_value ds + (uint c - 48)"
  by (simp add: digits_value_def)

lemma digits_value_show_nat: "digits_value (show_nat n) = int n"
proof (induction n rule: show_nat.induct)
  case (1 n)
  show ?case
  proof (cases "n < 10")
    case True
    then show ?thesis
      by (subst show_nat.simps) (simp add: digits_value_def uint_48 del: of_nat_add)
  next
    case False
    then have "show_nat n = show_nat (n div 10) @ [of_nat (48 + n mod 10)]"
      by (subst show_nat.simps) simp
    with "1.IH" False show ?thesis
      by (simp add: digits_value_append uint_48 del: of_nat_add) arith
  qed
qed

lemma is_digit_no_space: "is_digit c \<Longrightarrow> \<not> is_space c \<and> c \<noteq> 45 \<and> c \<noteq> 43"
  by (auto simp: is_digit_def is_space_def word_le_nat_alt)

lemma scan_int_show_nat:
  assumes "int n < 2 ^ 31" and "r = [] \<or> \<not> is_digit (hd r)"
  shows "scan_int (show_nat n @ r) = Some (int n, r)"
proof -
  obtain c cs where cs: "show_nat n = c # cs"
    using show_nat_digits [of n] by (cases "show_nat n") auto
  then have c: "is_digit c" using show_nat_digits [of n] by simp
  have sk: "skip_space (show_nat n @ r) = show_nat n @ r"
    using is_digit_no_space [OF c] by (simp add: skip_space_def cs)
  have sg: "scan_sign (show_nat n @ r) = (1, show_nat n @ r)"
    using is_digit_no_space [OF c] by (simp add: scan_sign_def cs)
  have all: "\<forall>x \<in> set (show_nat n). is_digit x"
    using show_nat_digits [of n] by (simp add: list_all_iff)
  have tw: "takeWhile is_digit (show_nat n @ r) = show_nat n"
    using all assms(2) by (cases r) (auto simp: takeWhile_append2)
  have dw: "dropWhile is_digit (show_nat n @ r) = r"
    using all assms(2) by (cases r) (auto simp: dropWhile_append2)
  have "int32 (saturate_long (int n)) = int n"
    using assms(1) by (simp add: saturate_long_def int32_id)
  then show ?thesis
    using show_nat_digits [of n] unfolding scan_int_def sk sg
    by (simp add: tw dw digits_value_show_nat)
qed

lemma length_show_nat: "0 < k \<Longrightarrow> n < 10 ^ k \<Longrightarrow> length (show_nat n) \<le> k"
proof (induction k arbitrary: n)
  case (Suc k)
  show ?case
  proof (cases "n < 10")
    case True
    then show ?thesis by (simp add: show_nat.simps)
  next
    case False
    then have "0 < k" using Suc.prems by (cases k) auto
    moreover have "n div 10 < 10 ^ k" using Suc.prems(2) by (simp add: div_less_iff_less_mult mult.commute)
    ultimately have "length (show_nat (n div 10)) \<le> k" by (rule Suc.IH)
    with False show ?thesis by (subst show_nat.simps) simp
  qed
qed simp

end
