(* ===== verification/Spiffy.thy ===== *)
theory Spiffy
  imports Packet CText
begin

text \<open>
  \<^verbatim>\<open>spiffy.c\<close> and the two senders of \<^verbatim>\<open>sock_io.c\<close> that use it. The outside world is a
  record: the values that the successive readings of \<open>time\<close> and \<open>gettimeofday\<close> and the
  successive calls of \<open>sendto\<close> return (all arbitrary, so that a theorem about a world
  holds for all of them; \<open>ticks\<close> counts the readings), the datagrams handed to the
  operating system so far, and the file system: contents by name, the open descriptors
  with their positions, which names can be opened for writing, and what the successive
  calls of \<open>write\<close> return for the number of bytes they are given.
\<close>

section \<open>Addresses and the world\<close>

text \<open>
  \<open>sin_port\<close> and \<open>sin_addr\<close> hold the objects of the C structure, that is, values in
  network order.
\<close>

record sockaddr_in =
  sin_family :: u16
  sin_port :: u16
  sin_addr :: u32

definition AF_INET :: u16 where "AF_INET = 2"
definition BT_FILENAME_LEN :: nat where "BT_FILENAME_LEN = 255"

record spiffy_globals =
  glSrcAddr :: u32
  gsSrcPort :: u16
  giSpiffyEnabled :: bool
  glNodeID :: u32
  gsSpiffyRouter :: sockaddr_in

type_synonym datagram = "sockaddr_in \<times> byte list"

record world =
  clock :: "nat \<Rightarrow> int"
  micro_clock :: "nat \<Rightarrow> int \<times> int"
  start_tm :: "int \<times> int"
  ticks :: nat
  sendto_result :: "nat \<Rightarrow> int"
  router :: spiffy_globals
  sent :: "datagram list"
  files :: "byte list \<Rightarrow> byte list option"
  can_open :: "byte list \<Rightarrow> bool"
  open_fds :: "int \<Rightarrow> (byte list \<times> int) option"
  next_fd :: int
  write_result :: "nat \<Rightarrow> nat \<Rightarrow> int"
  writes :: nat

definition time_now :: "world \<Rightarrow> int \<times> world" where
  "time_now w = (clock w (ticks w), w\<lparr>ticks := Suc (ticks w)\<rparr>)"

text \<open>
  \<^verbatim>\<open>win_log.c\<close>: microseconds since the log was opened, computed in \<open>long\<close> and converted to
  \<open>int\<close>, as the identifier of a flow.
\<close>

definition get_id_bytime :: "world \<Rightarrow> int \<times> world" where
  "get_id_bytime w =
     (case (micro_clock w (ticks w), start_tm w) of ((s, u), (s0, u0)) \<Rightarrow>
        (int32 (1000000 * (s - s0) + (u - u0)), w\<lparr>ticks := Suc (ticks w)\<rparr>))"

definition os_sendto :: "world \<Rightarrow> sockaddr_in \<Rightarrow> byte list \<Rightarrow> int \<times> world" where
  "os_sendto w to msg = (sendto_result w (length (sent w)), w\<lparr>sent := sent w @ [(to, msg)]\<rparr>)"

section \<open>The router header\<close>

record spiffy_header =
  ID :: u32
  lSrcAddr :: u32
  lDestAddr :: u32
  lSrcPort :: u16
  lDestPort :: u16

definition header_image :: "spiffy_header \<Rightarrow> byte list" where
  "header_image h = le32 (ID h) @ le32 (lSrcAddr h) @ le32 (lDestAddr h)
                    @ le16 (lSrcPort h) @ le16 (lDestPort h)"

definition read_header :: "byte list \<Rightarrow> spiffy_header" where
  "read_header bs = \<lparr>ID = rd_le32 (take 4 bs), lSrcAddr = rd_le32 (take 4 (drop 4 bs)),
     lDestAddr = rd_le32 (take 4 (drop 8 bs)), lSrcPort = rd_le16 (take 2 (drop 12 bs)),
     lDestPort = rd_le16 (take 2 (drop 14 bs))\<rparr>"

interpretation spiffy_hdr: byte_codec header_image read_header 16
  by unfold_locales (simp_all add: header_image_def read_header_def rd_le32_le32 rd_le16_le16)

section \<open>Sending and receiving\<close>

definition spiffy_sendto :: "world \<Rightarrow> byte list \<Rightarrow> int \<Rightarrow> sockaddr_in \<Rightarrow> (int \<times> world) res" where
  "spiffy_sendto w msg len to =
     (let g = router w
      in if \<not> giSpiffyEnabled g
         then ebind (mem_read msg 0 len) (\<lambda>m. Inr (os_sendto w to m))
         else if sin_family to = AF_INET
         then let s_head = \<lparr>ID = htonl (glNodeID g), lSrcAddr = glSrcAddr g, lDestAddr = sin_addr to,
                            lSrcPort = gsSrcPort g, lDestPort = sin_port to\<rparr>
              in ebind (mem_read msg 0 len) (\<lambda>m.
                 let (retVal, w') = os_sendto w (gsSpiffyRouter g) (header_image s_head @ m)
                 in Inr (if retVal > 0 then retVal - 16 else retVal, w'))
         else Inr (-1, w))"

text \<open>
  \<open>spiffy_recvfrom\<close> on the outcome of one \<open>recvfrom\<close>: \<open>None\<close> when it fails, otherwise the
  source and the bytes of the datagram, of which at most the given size arrives. Memory
  that \<open>malloc\<close> returned and nothing wrote is described by \<open>junk\<close>. The result is the
  return value, the \<open>size\<close> bytes written to the buffer (\<open>None\<close>: the buffer is untouched
  beyond the received bytes) and the address.
\<close>

definition plain_recvfrom ::
  "(sockaddr_in \<times> byte list) option \<Rightarrow> nat \<Rightarrow> sockaddr_in \<Rightarrow> int \<times> byte list \<times> sockaddr_in" where
  "plain_recvfrom dgram cap addr =
     (case dgram of None \<Rightarrow> (-1, [], addr)
      | Some (src, bs) \<Rightarrow> (int (length (take cap bs)), take cap bs, src))"

definition spiffy_recvfrom ::
  "(nat \<Rightarrow> byte) \<Rightarrow> spiffy_globals \<Rightarrow> (sockaddr_in \<times> byte list) option \<Rightarrow> nat \<Rightarrow> sockaddr_in
   \<Rightarrow> int \<times> byte list \<times> sockaddr_in" where
  "spiffy_recvfrom junk g dgram cap addr =
     (if \<not> giSpiffyEnabled g then plain_recvfrom dgram cap addr
      else case plain_recvfrom dgram (cap + 16) addr of
        (retVal, bs, src) \<Rightarrow>
          (if retVal > 0
           then let newbuf = bs @ map junk [length bs..<cap + 16];
                    s_head = read_header (take 16 newbuf)
                in (retVal - 16, drop 16 newbuf,
                    \<lparr>sin_family = AF_INET, sin_port = lSrcPort s_head, sin_addr = lSrcAddr s_head\<rparr>)
           else (retVal, [], addr)))"

text \<open>
  \<open>spiffy_init\<close> on the value of the environment variable \<open>SPIFFY_ROUTER\<close>, with the
  library's \<open>inet_aton\<close> as a parameter. The port is stored before the address is checked.
\<close>

definition spiffy_init ::
  "(byte list \<Rightarrow> u32 option) \<Rightarrow> world \<Rightarrow> byte list option \<Rightarrow> u32 \<Rightarrow> sockaddr_in \<Rightarrow> int \<times> world" where
  "spiffy_init inet_aton w env lNodeID addr =
     (case env of None \<Rightarrow> (1, w)
      | Some cSpiffyName \<Rightarrow>
         (case strchr cSpiffyName 58 of None \<Rightarrow> (-1, w)
          | Some cColon \<Rightarrow>
             (let host = take cColon cSpiffyName;
                  g = router w;
                  g1 = g\<lparr>gsSpiffyRouter := (gsSpiffyRouter g)
                          \<lparr>sin_port := htons (of_int (atoi (drop (cColon + 1) cSpiffyName)))\<rparr>\<rparr>
              in case inet_aton host of None \<Rightarrow> (-1, w\<lparr>router := g1\<rparr>)
                 | Some ip \<Rightarrow>
                     (0, w\<lparr>router := g1\<lparr>gsSpiffyRouter := (gsSpiffyRouter g1)\<lparr>sin_addr := ip\<rparr>,
                            giSpiffyEnabled := True, glNodeID := lNodeID,
                            glSrcAddr := sin_addr addr, gsSrcPort := sin_port addr\<rparr>\<rparr>))))"

section \<open>Sending packets\<close>

definition send_pack :: "world \<Rightarrow> packet \<Rightarrow> sockaddr_in \<Rightarrow> (int \<times> world) res" where
  "send_pack w pack toaddr =
     ebind (serial_pack pack) (\<lambda>stream.
     ebind (spiffy_sendto w stream (int (unat (Pack_len pack))) toaddr) (\<lambda>(ret, w').
     Inr (if ret = int (unat (Pack_len pack)) then 1 else -1, w')))"

record bt_peer =
  peer_id :: int
  peer_addr :: sockaddr_in

fun broadcast_loop :: "world \<Rightarrow> byte list \<Rightarrow> int \<Rightarrow> bt_peer list \<Rightarrow> int \<Rightarrow> world res" where
  "broadcast_loop w stream len [] myid = Inr w"
| "broadcast_loop w stream len (p # ps) myid =
     (if peer_id p = myid then broadcast_loop w stream len ps myid
      else ebind (spiffy_sendto w stream len (peer_addr p)) (\<lambda>(ret, w').
           broadcast_loop w' stream len ps myid))"

definition broadcast :: "world \<Rightarrow> packet \<Rightarrow> bt_peer list \<Rightarrow> int \<Rightarrow> (int \<times> world) res" where
  "broadcast w pack peers myid =
     ebind (serial_pack pack) (\<lambda>stream.
     ebind (broadcast_loop w stream (int (unat (Pack_len pack))) peers myid) (\<lambda>w'.
     Inr (1, w')))"

section \<open>What leaves the host\<close>

text \<open>The datagrams one call of \<open>spiffy_sendto\<close> hands to the operating system.\<close>

definition emitted :: "spiffy_globals \<Rightarrow> sockaddr_in \<Rightarrow> byte list \<Rightarrow> datagram list" where
  "emitted g to msg =
     (if \<not> giSpiffyEnabled g then [(to, msg)]
      else if sin_family to = AF_INET
      then [(gsSpiffyRouter g, header_image \<lparr>ID = htonl (glNodeID g), lSrcAddr = glSrcAddr g,
               lDestAddr = sin_addr to, lSrcPort = gsSrcPort g, lDestPort = sin_port to\<rparr> @ msg)]
      else [])"

definition record_sent :: "world \<Rightarrow> datagram list \<Rightarrow> world" where
  "record_sent w ds = w\<lparr>sent := sent w @ ds\<rparr>"

lemma record_sent_simps [simp]:
  "sent (record_sent w ds) = sent w @ ds" "router (record_sent w ds) = router w"
  "clock (record_sent w ds) = clock w" "ticks (record_sent w ds) = ticks w"
  "files (record_sent w ds) = files w" "open_fds (record_sent w ds) = open_fds w"
  "write_result (record_sent w ds) = write_result w" "writes (record_sent w ds) = writes w"
  "record_sent (record_sent w ds) es = record_sent w (ds @ es)" "record_sent w [] = w"
  by (simp_all add: record_sent_def)

lemma spiffy_sendto_emits:
  "\<exists>ret. spiffy_sendto w (msg @ r) (int (length msg)) to = Inr (ret, record_sent w (emitted (router w) to msg))"
  by (auto simp: spiffy_sendto_def emitted_def os_sendto_def record_sent_def mem_read_prefix Let_def)

lemma send_pack_wf:
  assumes "wf_packet p"
  shows "\<exists>ret. send_pack w p to = Inr (ret, record_sent w (emitted (router w) to (wire_bytes p)))"
proof -
  obtain ret where "spiffy_sendto w (wire_bytes p @ [0]) (int (length (wire_bytes p))) to
      = Inr (ret, record_sent w (emitted (router w) to (wire_bytes p)))"
    using spiffy_sendto_emits by blast
  then show ?thesis
    by (simp add: send_pack_def serial_pack_bytes [OF assms] length_wire_bytes [OF assms])
qed

lemma broadcast_loop_emits:
  "broadcast_loop w (msg @ r) (int (length msg)) peers myid =
   Inr (record_sent w (concat (map (\<lambda>p. emitted (router w) (peer_addr p) msg)
                                   (filter (\<lambda>p. peer_id p \<noteq> myid) peers))))"
proof (induction peers arbitrary: w)
  case Nil
  then show ?case by simp
next
  case (Cons p ps)
  obtain ret where "spiffy_sendto w (msg @ r) (int (length msg)) (peer_addr p)
      = Inr (ret, record_sent w (emitted (router w) (peer_addr p) msg))"
    using spiffy_sendto_emits by blast
  with Cons.IH show ?case by simp
qed

lemma broadcast_wf:
  assumes "wf_packet p"
  shows "broadcast w p peers myid =
   Inr (1, record_sent w (concat (map (\<lambda>q. emitted (router w) (peer_addr q) (wire_bytes p))
                                      (filter (\<lambda>q. peer_id q \<noteq> myid) peers))))"
  using broadcast_loop_emits [of w "wire_bytes p" "[0]" peers myid]
  by (simp add: broadcast_def serial_pack_bytes [OF assms] length_wire_bytes [OF assms])

text \<open>
  A datagram that went through the router is received with the sender's own address and
  port as its source, and with the message as the first bytes of the buffer.
\<close>

lemma spiffy_loopback:
  assumes "giSpiffyEnabled g" and "sin_family to = AF_INET" and "giSpiffyEnabled g'"
    and "length msg \<le> cap"
  shows "\<exists>bytes. spiffy_recvfrom junk g' (Some (src, snd (hd (emitted g to msg)))) cap from0 =
      (int (length msg), bytes, \<lparr>sin_family = AF_INET, sin_port = gsSrcPort g, sin_addr = glSrcAddr g\<rparr>) \<and>
    length bytes = cap \<and> take (length msg) bytes = msg"
proof -
  let ?h = "\<lparr>ID = htonl (glNodeID g), lSrcAddr = glSrcAddr g, lDestAddr = sin_addr to,
             lSrcPort = gsSrcPort g, lDestPort = sin_port to\<rparr>"
  have len: "length (header_image h) = 16" for h by (rule spiffy_hdr.enc_length)
  have tk: "take (cap + 16) (header_image ?h @ msg) = header_image ?h @ msg"
    using assms(4) by (simp add: len)
  show ?thesis
    using assms len tk
    by (simp add: emitted_def spiffy_recvfrom_def plain_recvfrom_def spiffy_hdr.dec_enc Let_def)
qed

section \<open>Properties\<close>

text \<open>A world in which every clock stands still and every call succeeds.\<close>

definition quiet_world :: world where
  "quiet_world = \<lparr>clock = \<lambda>_. 100, micro_clock = \<lambda>_. (100, 0), start_tm = (100, 0), ticks = 0,
     sendto_result = \<lambda>_. 1000,
     router = \<lparr>glSrcAddr = 1, gsSrcPort = 2, giSpiffyEnabled = False, glNodeID = 3,
               gsSpiffyRouter = \<lparr>sin_family = AF_INET, sin_port = 4, sin_addr = 5\<rparr>\<rparr>,
     sent = [], files = \<lambda>_. None, can_open = \<lambda>_. True, open_fds = \<lambda>_. None, next_fd = 3,
     write_result = \<lambda>_ n. int n, writes = 0\<rparr>"

lemma quiet_world_simps:
  "emitted (router quiet_world) to msg = [(to, msg)]" "sent quiet_world = []"
  "time_now quiet_world = (100, quiet_world\<lparr>ticks := 1\<rparr>)"
  by (simp_all add: emitted_def quiet_world_def time_now_def)



text \<open>
  A datagram through the router that is shorter than the router's header is reported
  with a negative length; the caller adds it to its byte count all the same.
\<close>

theorem spiffy_runt_negative:
  assumes "giSpiffyEnabled g" and "0 < length bs" "length bs < 16"
  shows "fst (spiffy_recvfrom junk g (Some (src, bs)) cap addr) < 0"
  using assms by (simp add: spiffy_recvfrom_def plain_recvfrom_def Let_def)

theorem spiffy_runt_negative_witness:
  "fst (spiffy_recvfrom (\<lambda>_. 0) ((router quiet_world)\<lparr>giSpiffyEnabled := True\<rparr>)
     (Some (\<lparr>sin_family = AF_INET, sin_port = 9, sin_addr = 8\<rparr>, [1, 2])) 1500
     \<lparr>sin_family = 0, sin_port = 0, sin_addr = 0\<rparr>) < 0"
  by (rule spiffy_runt_negative) simp_all

text \<open>
  \<open>broadcast\<close> hands exactly one copy of the packet's bytes to every peer of the list
  whose identifier is not the given one, in the order of the list, and always returns 1.
\<close>

theorem broadcast_reaches_others:
  assumes "wf_packet p"
  shows "\<exists>w'. broadcast w p peers myid = Inr (1, w') \<and>
    sent w' = sent w @ concat (map (\<lambda>q. emitted (router w) (peer_addr q) (wire_bytes p))
                                   (filter (\<lambda>q. peer_id q \<noteq> myid) peers))"
  by (simp add: broadcast_wf [OF assms])

theorem broadcast_reaches_others_witness:
  "let a = \<lparr>sin_family = AF_INET, sin_port = 9, sin_addr = 8\<rparr>; b = \<lparr>sin_family = AF_INET, sin_port = 7, sin_addr = 6\<rparr>
   in \<exists>w'. broadcast quiet_world sample_packet [\<lparr>peer_id = 1, peer_addr = a\<rparr>, \<lparr>peer_id = 2, peer_addr = b\<rparr>] 1 = Inr (1, w') \<and>
     sent w' = [(b, wire_bytes sample_packet)]"
  using broadcast_reaches_others [OF sample_packet_wf, where w = quiet_world and myid = 1 and
      peers = "[\<lparr>peer_id = 1, peer_addr = \<lparr>sin_family = AF_INET, sin_port = 9, sin_addr = 8\<rparr>\<rparr>,
                \<lparr>peer_id = 2, peer_addr = \<lparr>sin_family = AF_INET, sin_port = 7, sin_addr = 6\<rparr>\<rparr>]"]
  by (simp add: Let_def emitted_def) (simp add: quiet_world_def)

end
