(* ===== verification/Float32.thy ===== *)
theory Float32
  imports Complex_Main "HOL-Library.Log_Nat" Prelude
begin

text \<open>
  The congestion window size is a C \<open>float\<close>. Its values are modelled by the rationals
  they denote, and each arithmetic operation by the exact operation followed by rounding
  to the nearest number with a 24-bit significand, ties to even (IEEE 754 binary32
  without overflow and subnormals, which the window never comes near: its values lie
  between 1 and 513).
\<close>

section \<open>Rounding\<close>

text \<open>The exponent of a positive rational: \<open>2 ^ e \<le> q < 2 ^ (e + 1)\<close>.\<close>

definition expo :: "rat \<Rightarrow> int" where
  "expo q = (case quotient_of q of (n, d) \<Rightarrow>
     let e = bitlen n - bitlen d in if 2 powi e \<le> q then e else e - 1)"

definition round_even :: "rat \<Rightarrow> int" where
  "round_even x =
     (let f = \<lfloor>x\<rfloor>; r = x - of_int f
      in if r < 1 / 2 then f else if 1 / 2 < r then f + 1 else if even f then f else f + 1)"

definition rnd_pos :: "rat \<Rightarrow> rat" where
  "rnd_pos q = (let u = 2 powi (expo q - 23) in of_int (round_even (q / u)) * u)"

definition rnd32 :: "rat \<Rightarrow> rat" where
  "rnd32 q = (if q = 0 then 0 else if q < 0 then - rnd_pos (- q) else rnd_pos q)"

definition fl_of_int :: "int \<Rightarrow> rat" where "fl_of_int i = rnd32 (of_int i)"
definition fl_add :: "rat \<Rightarrow> rat \<Rightarrow> rat" where "fl_add a b = rnd32 (a + b)"
definition fl_sub :: "rat \<Rightarrow> rat \<Rightarrow> rat" where "fl_sub a b = rnd32 (a - b)"
definition fl_mul :: "rat \<Rightarrow> rat \<Rightarrow> rat" where "fl_mul a b = rnd32 (a * b)"
definition fl_div :: "rat \<Rightarrow> rat \<Rightarrow> rat" where "fl_div a b = rnd32 (a / b)"

text \<open>Conversion to \<open>int\<close> truncates towards zero.\<close>

definition fl_trunc :: "rat \<Rightarrow> int" where
  "fl_trunc q = (if 0 \<le> q then \<lfloor>q\<rfloor> else \<lceil>q\<rceil>)"

section \<open>Bounds\<close>

lemma round_even_ge: "of_int k \<le> x \<Longrightarrow> k \<le> round_even x"
proof -
  assume "of_int k \<le> x"
  then have "k \<le> \<lfloor>x\<rfloor>" by (simp add: le_floor_iff)
  then show ?thesis by (simp add: round_even_def Let_def)
qed

lemma round_even_le: "x \<le> of_int k \<Longrightarrow> round_even x \<le> k"
proof -
  assume x: "x \<le> of_int k"
  then have f: "\<lfloor>x\<rfloor> \<le> k" by (simp add: floor_le_iff)
  show ?thesis
  proof (cases "\<lfloor>x\<rfloor> = k")
    case True
    with x have "x = of_int k" by (metis of_int_floor_le order_antisym)
    then show ?thesis by (simp add: round_even_def)
  next
    case False
    with f show ?thesis by (simp add: round_even_def Let_def)
  qed
qed

lemma bitlen_pow:
  assumes "0 < n"
  shows "2 powi (bitlen n - 1) \<le> (of_int n :: rat)" and "(of_int n :: rat) < 2 powi (bitlen n)"
proof -
  have b: "2 ^ nat (bitlen n - 1) \<le> n" "n < 2 ^ nat (bitlen n)"
    using bitlen_bounds [OF assms] by auto
  have p: "0 \<le> bitlen n - 1" using bitlen_nonneg [of n] bitlen_eq_zero_iff [of n] assms by linarith
  show "2 powi (bitlen n - 1) \<le> (of_int n :: rat)"
    using b(1) p by (simp add: power_int_def)
  show "(of_int n :: rat) < 2 powi (bitlen n)"
    using b(2) p by (simp add: power_int_def)
qed

lemma expo_bounds:
  assumes "0 < q"
  shows "2 powi expo q \<le> q" and "q < 2 powi (expo q + 1)"
proof -
  obtain n d where nd: "quotient_of q = (n, d)" by fastforce
  then have d: "0 < d" and q: "q = of_int n / of_int d"
    by (auto simp: quotient_of_denom_pos quotient_of_div)
  with assms have n: "0 < n" by (simp add: zero_less_divide_iff)
  define e where "e = bitlen n - bitlen d"
  have "q < 2 powi bitlen n / 2 powi (bitlen d - 1)"
    unfolding q using bitlen_pow [OF n] bitlen_pow [OF d] d n
    by (intro frac_less) auto
  also have "\<dots> = 2 powi (e + 1)" by (simp add: e_def power_int_diff power_int_add)
  finally have up: "q < 2 powi (e + 1)" .
  have "2 powi (bitlen n - 1) / 2 powi bitlen d < q"
    unfolding q using bitlen_pow [OF n] bitlen_pow [OF d] d n
    by (intro frac_less2) auto
  moreover have "2 powi (bitlen n - 1) / 2 powi bitlen d = (2 :: rat) powi (e - 1)"
    by (simp add: e_def power_int_diff)
  ultimately have lo: "2 powi (e - 1) < q" by simp
  have ex: "expo q = (if 2 powi e \<le> q then e else e - 1)"
    by (simp add: expo_def nd e_def Let_def)
  show "2 powi expo q \<le> q" using lo by (simp add: ex)
  show "q < 2 powi (expo q + 1)" using up by (auto simp: ex)
qed

lemma unit_of:
  assumes "0 < q" and "q < 2 ^ 24"
  obtains m :: nat where "2 powi (expo q - 23) = 1 / (2 ^ m :: rat)"
proof
  have "(2 :: rat) powi expo q < 2 powi 24"
    using expo_bounds(1) [OF assms(1)] assms(2) by simp
  moreover have "(2 :: rat) powi 24 \<le> 2 powi expo q" if "24 \<le> expo q"
    using that by (rule power_int_increasing) simp
  ultimately have "expo q < 24" by (meson not_le)
  then show "2 powi (expo q - 23) = 1 / (2 ^ nat (23 - expo q) :: rat)"
    by (simp add: power_int_def field_simps)
qed

lemma rnd32_le_int:
  assumes "0 \<le> q" and "q \<le> of_int k" and "k < 2 ^ 24"
  shows "rnd32 q \<le> of_int k"
proof (cases "q = 0")
  case True
  with assms show ?thesis by (simp add: rnd32_def)
next
  case False
  with assms(1) have q: "0 < q" by simp
  have "(of_int k :: rat) < of_int (2 ^ 24)" using assms(3) by (simp only: of_int_less_iff)
  with assms(2) have "q < 2 ^ 24" by simp
  with q obtain m :: nat where u: "2 powi (expo q - 23) = 1 / (2 ^ m :: rat)"
    by (rule unit_of)
  have "q * 2 ^ m \<le> of_int (k * 2 ^ m)" using assms(2) by simp
  then have "round_even (q * 2 ^ m) \<le> k * 2 ^ m" by (rule round_even_le)
  then have "of_int (round_even (q * 2 ^ m)) \<le> (of_int (k * 2 ^ m) :: rat)" by (simp only: of_int_le_iff)
  with q u show ?thesis by (simp add: rnd32_def rnd_pos_def Let_def divide_le_eq)
qed

lemma rnd32_ge_int:
  assumes "0 \<le> q" and "of_int k \<le> q" and "q < 2 ^ 24"
  shows "of_int k \<le> rnd32 q"
proof (cases "q = 0")
  case True
  with assms show ?thesis by (simp add: rnd32_def)
next
  case False
  with assms(1) have q: "0 < q" by simp
  obtain m :: nat where u: "2 powi (expo q - 23) = 1 / (2 ^ m :: rat)"
    using q assms(3) by (rule unit_of)
  have "of_int (k * 2 ^ m) \<le> q * 2 ^ m" using assms(2) by simp
  then have "k * 2 ^ m \<le> round_even (q * 2 ^ m)" by (rule round_even_ge)
  then have "(of_int (k * 2 ^ m) :: rat) \<le> of_int (round_even (q * 2 ^ m))" by (simp only: of_int_le_iff)
  with q u show ?thesis by (simp add: rnd32_def rnd_pos_def Let_def le_divide_eq)
qed

lemma rnd32_int:
  assumes "0 \<le> k" and "k < 2 ^ 24"
  shows "rnd32 (of_int k) = of_int k"
proof (rule antisym)
  show "rnd32 (of_int k) \<le> of_int k" using assms by (intro rnd32_le_int) auto
  have "(of_int k :: rat) < of_int (2 ^ 24)" using assms(2) by (simp only: of_int_less_iff)
  then show "of_int k \<le> rnd32 (of_int k)" using assms(1) by (intro rnd32_ge_int) auto
qed

lemma rnd32_minus: "rnd32 (- q) = - rnd32 q"
  by (simp add: rnd32_def)

lemma rnd32_nonneg: "0 \<le> q \<Longrightarrow> q < 2 ^ 24 \<Longrightarrow> 0 \<le> rnd32 q"
  using rnd32_ge_int [of q 0] by simp

lemma fl_of_int_exact: "0 \<le> k \<Longrightarrow> k < 2 ^ 24 \<Longrightarrow> fl_of_int k = of_int k"
  by (simp add: fl_of_int_def rnd32_int)

section \<open>Representable numbers\<close>

text \<open>
  A number is a \<open>float\<close> value when rounding leaves it alone. Rounding yields such numbers,
  and subtracting a smaller integer from one is exact.
\<close>

definition is_f32 :: "rat \<Rightarrow> bool" where
  "is_f32 q \<longleftrightarrow> rnd32 q = q"

lemma powi_less_exp:
  assumes "(2 :: rat) powi a < 2 powi b"
  shows "a < b"
proof (rule ccontr)
  assume "\<not> a < b"
  then have "(2 :: rat) powi b \<le> 2 powi a" by (intro power_int_increasing) auto
  with assms show False by simp
qed

lemma expo_unique:
  assumes "0 < q" and "2 powi e \<le> q" and "q < 2 powi (e + 1)"
  shows "expo q = e"
proof -
  have "(2 :: rat) powi expo q < 2 powi (e + 1)"
    using expo_bounds(1) [OF assms(1)] assms(3) by (rule order_le_less_trans)
  then have "expo q < e + 1" by (rule powi_less_exp)
  moreover have "(2 :: rat) powi e < 2 powi (expo q + 1)"
    using assms(2) expo_bounds(2) [OF assms(1)] by (rule order_le_less_trans)
  then have "e < expo q + 1" by (rule powi_less_exp)
  ultimately show ?thesis by simp
qed

lemma round_even_int [simp]: "round_even (of_int k) = k"
  by (simp add: round_even_def)

lemma is_f32_grid:
  assumes "0 < q" and "q = of_int k * 2 powi (expo q - 23)"
  shows "is_f32 q"
proof -
  have "q / 2 powi (expo q - 23) = of_int k"
    by (subst assms(2)) simp
  then have "rnd_pos q = of_int k * 2 powi (expo q - 23)" by (simp add: rnd_pos_def Let_def)
  with assms show ?thesis by (simp add: is_f32_def rnd32_def)
qed

lemma is_f32_gridD:
  assumes "0 < q" and "is_f32 q"
  obtains k where "q = of_int k * 2 powi (expo q - 23)"
  using assms by (auto simp: is_f32_def rnd32_def rnd_pos_def Let_def split: if_splits) metis

lemma rnd_pos_f32:
  assumes q: "0 < q"
  shows "is_f32 (rnd_pos q)"
proof -
  define e where "e = expo q"
  define u where "u = (2 :: rat) powi (e - 23)"
  define k where "k = round_even (q / u)"
  have u: "0 < u" by (simp add: u_def)
  have e23: "2 powi e = 2 ^ 23 * u" "2 powi (e + 1) = 2 ^ 24 * u"
    by (simp_all add: u_def power_int_diff power_int_add)
  have "2 ^ 23 \<le> q / u" "q / u < 2 ^ 24"
    using expo_bounds [OF q] u by (simp_all add: e_def [symmetric] e23 le_divide_eq divide_less_eq)
  then have k: "2 ^ 23 \<le> k" "k \<le> 2 ^ 24"
    unfolding k_def by (auto intro!: round_even_ge round_even_le)
  have r: "rnd_pos q = of_int k * u"
    by (simp add: rnd_pos_def Let_def k_def u_def e_def)
  have k': "(2 ^ 23 :: rat) \<le> of_int k" using k(1) by (metis of_int_le_iff of_int_numeral of_int_power)
  then have pos: "0 < of_int k * u" using u by (intro mult_pos_pos) (auto intro: order_less_le_trans [rotated])
  show ?thesis
  proof (cases "k = 2 ^ 24")
    case True
    then have v: "of_int k * u = 2 powi (e + 1)" by (simp add: e23)
    then have "expo (of_int k * u) = e + 1" by (intro expo_unique pos) (simp_all add: power_int_add)
    moreover have "of_int k * u = of_int (2 ^ 23) * 2 powi (e + 1 - 23)"
      unfolding v by (simp add: power_int_diff power_int_add)
    ultimately show ?thesis unfolding r by (intro is_f32_grid [OF pos, of "2 ^ 23"]) simp
  next
    case False
    with k have "k < 2 ^ 24" by simp
    then have "(of_int k :: rat) < 2 ^ 24" by (metis of_int_less_iff of_int_numeral of_int_power)
    then have "expo (of_int k * u) = e"
      using k' u by (intro expo_unique pos) (simp_all add: e23)
    then show ?thesis unfolding r by (intro is_f32_grid [OF pos]) (simp add: u_def)
  qed
qed

lemma is_f32_rnd32: "is_f32 (rnd32 q)"
proof -
  have "is_f32 (rnd_pos (- q))" if "q < 0" using that by (intro rnd_pos_f32) simp
  then have "is_f32 (- rnd_pos (- q))" if "q < 0"
    using that by (simp add: is_f32_def rnd32_minus)
  moreover have "is_f32 (rnd_pos q)" if "0 < q" using that by (rule rnd_pos_f32)
  ultimately show ?thesis by (auto simp: rnd32_def is_f32_def [of 0])
qed

lemma rnd32_sub_int:
  assumes f: "is_f32 a" and n: "0 \<le> n" "of_int n \<le> a" and a: "a < 2 ^ 24"
  shows "rnd32 (a - of_int n) = a - of_int n"
proof (cases "a = of_int n")
  case True
  then show ?thesis by (simp add: rnd32_def)
next
  case False
  define d where "d = a - of_int n"
  have d: "0 < d" "d \<le> a" using False n by (auto simp: d_def)
  then have a0: "0 < a" by simp
  obtain j where j: "a = of_int j * 2 powi (expo a - 23)" using is_f32_gridD [OF a0 f] .
  obtain m :: nat where m: "2 powi (expo a - 23) = 1 / (2 ^ m :: rat)" using unit_of [OF a0 a] .
  have "(2 :: rat) powi expo d < 2 powi (expo a + 1)"
    using expo_bounds [OF d(1)] expo_bounds [OF a0] d(2) by linarith
  then have "expo d < expo a + 1" by (rule powi_less_exp)
  then have le: "expo d \<le> expo a" by simp
  define t where "t = nat (expo a - expo d)"
  have ulp: "2 powi (expo a - 23) = 2 ^ t * (2 :: rat) powi (expo d - 23)"
  proof -
    have "expo a - 23 = int t + (expo d - 23)" using le by (simp add: t_def)
    then show ?thesis by (simp only: power_int_add [OF disjI1 [OF numeral_neq_zero]] power_int_of_nat)
  qed
  have "d = of_int (j - n * 2 ^ m) * 2 powi (expo a - 23)"
    using j m by (simp add: d_def algebra_simps)
  also have "\<dots> = of_int ((j - n * 2 ^ m) * 2 ^ t) * 2 powi (expo d - 23)"
    unfolding ulp by simp
  finally have "is_f32 d" by (rule is_f32_grid [OF d(1)])
  then show ?thesis by (simp add: is_f32_def d_def)
qed

lemma rnd32_examples:
  "rnd32 (1 / 3) = 11184811 / 33554432" "rnd32 (1 / 65) = 16519105 / 1073741824" "rnd32 0 = 0"
  by code_simp+

end
