(* ===== verification/WinLog.thy ===== *)
theory WinLog
  imports Spiffy Float32
begin

text \<open>
  \<^verbatim>\<open>win_log.c\<close>: the log of the window sizes. The stream \<open>_winlog\<close> is the text of the file it
  appends to, \<open>None\<close> while it is \<open>NULL\<close>; the log is apart from the files of the \<open>world\<close>, as no
  other code reads it or writes to it. Times are milliseconds since the log was opened.
\<close>

type_synonym stream = "byte list option"

section \<open>Formatted output\<close>

text \<open>
  \<open>%f\<close>: six decimals of the exact value, rounded to nearest and to even on a tie. A size is a
  \<open>float\<close>, which its conversion to \<open>double\<close> leaves as it is.
\<close>

definition pad6 :: "nat \<Rightarrow> byte list" where
  "pad6 n = replicate (6 - length (show_nat n)) 48 @ show_nat n"

definition show_float :: "rat \<Rightarrow> byte list" where
  "show_float q =
     (let m = nat (round_even (\<bar>q\<bar> * 10 ^ 6))
      in (if q < 0 then [45] else []) @ show_nat (m div 10 ^ 6) @ [46] @ pad6 (m mod 10 ^ 6))"

definition tab :: byte where "tab = 9"
definition newline :: byte where "newline = 10"

section \<open>The log\<close>

definition gettimeofday :: "world \<Rightarrow> (int \<times> int) \<times> world" where
  "gettimeofday w = (micro_clock w (ticks w), w\<lparr>ticks := Suc (ticks w)\<rparr>)"

definition init_winlog :: "byte list \<Rightarrow> world \<Rightarrow> (stream \<times> world) res" where
  "init_winlog logfile w =
     (let (t, w1) = gettimeofday w; w2 = w1\<lparr>start_tm := t\<rparr>
      in guard (can_open w2 logfile) (ExitProgram 0)
           (Inr (Some (case files w2 logfile of None \<Rightarrow> [] | Some old \<Rightarrow> old), w2)))"

lemma init_winlog_opens:
  assumes "can_open w logfile"
  shows "\<exists>s w1. init_winlog logfile w = Inr (s, w1) \<and> files w1 = files w \<and>
    w1 = w\<lparr>ticks := Suc (ticks w), start_tm := micro_clock w (ticks w)\<rparr>"
  using assms by (simp add: init_winlog_def gettimeofday_def)

lemma init_winlog_fails: "\<not> can_open w logfile \<Longrightarrow> init_winlog logfile w = Inl (ExitProgram 0)"
  by (simp add: init_winlog_def gettimeofday_def)

definition winlog :: "byte list \<Rightarrow> stream \<Rightarrow> stream res" where
  "winlog line s = (case s of None \<Rightarrow> Inl NullDeref | Some old \<Rightarrow> Inr (Some (old @ line)))"

text \<open>Division of \<open>long\<close> values truncates towards zero; the sum is converted to \<open>int\<close>.\<close>

definition thousandth :: "int \<Rightarrow> int" where
  "thousandth d = sgn d * (\<bar>d\<bar> div 1000)"

definition millisec :: "int \<times> int \<Rightarrow> int \<times> int \<Rightarrow> int" where
  "millisec t0 curr_tm =
     int32 (1000 * (fst curr_tm - fst t0) + thousandth (snd curr_tm - snd t0))"

definition WSize_line :: "int \<Rightarrow> int \<Rightarrow> rat \<Rightarrow> byte list" where
  "WSize_line winid t winsize =
     [102] @ show_int winid @ [tab] @ show_int t @ [tab] @ show_float winsize @ [newline]"

definition WSize_log :: "int \<Rightarrow> rat \<Rightarrow> stream \<Rightarrow> world \<Rightarrow> (stream \<times> world) res" where
  "WSize_log winid winsize s w =
     (let (curr_tm, w1) = gettimeofday w
      in ebind (winlog (WSize_line winid (millisec (start_tm w1) curr_tm) winsize) s) (\<lambda>s'. Inr (s', w1)))"

text \<open>\<open>W_verb_log\<close> prints its line on the terminal; the result is that line.\<close>

definition W_verb_log ::
  "int \<Rightarrow> rat \<Rightarrow> int \<Rightarrow> int \<Rightarrow> int \<Rightarrow> int \<Rightarrow> int \<Rightarrow> byte list \<Rightarrow> world \<Rightarrow> byte list \<times> world" where
  "W_verb_log winid winsize threshold LPA LPS LPR count timeout_reason w =
     (let (curr_tm, w1) = gettimeofday w
      in ([87] @ show_int winid @ [tab] @ show_int (millisec (start_tm w1) curr_tm) @ [tab]
            @ show_float winsize
            @ concat (List.map (\<lambda>i. tab # show_int i) [threshold, LPA, LPS, LPR, count])
            @ [tab] @ timeout_reason @ [newline], w1))"


section \<open>The times of the log\<close>

text \<open>A clock reading as \<open>gettimeofday\<close> gives it, and its microseconds.\<close>

definition valid_time :: "int \<times> int \<Rightarrow> bool" where
  "valid_time t \<longleftrightarrow> 0 \<le> snd t \<and> snd t < 1000000"

definition micros :: "int \<times> int \<Rightarrow> int" where
  "micros t = 1000000 * fst t + snd t"

lemma thousandth_bounds:
  "1000 * thousandth d \<le> d + 999" "d - 999 \<le> 1000 * thousandth d"
  "0 \<le> d \<Longrightarrow> 0 \<le> thousandth d \<and> 1000 * thousandth d \<le> d"
  "d \<le> 0 \<Longrightarrow> thousandth d \<le> 0 \<and> d \<le> 1000 * thousandth d"
  unfolding thousandth_def by (cases "d = 0"; cases "0 < d"; simp; arith)+

lemma millisec_exact:
  assumes "micros t0 \<le> micros t" and "micros t < micros t0 + 2147483647000"
  shows "millisec t0 t = 1000 * (fst t - fst t0) + thousandth (snd t - snd t0)"
  unfolding millisec_def using thousandth_bounds(1,2) [of "snd t - snd t0"] assms
  by (intro int32_id) (simp_all add: micros_def)

lemma millisec_close:
  assumes "micros t0 \<le> micros t" and "micros t < micros t0 + 2147483647000"
  shows "\<bar>1000 * millisec t0 t - (micros t - micros t0)\<bar> < 1000"
  unfolding millisec_exact [OF assms] using thousandth_bounds(1,2) [of "snd t - snd t0"]
  by (simp add: micros_def abs_less_iff)

text \<open>The division truncates a negative difference upwards, and still no time is before another.\<close>

lemma millisec_mono:
  assumes t: "valid_time t" "valid_time t'"
    and le: "micros t0 \<le> micros t" "micros t \<le> micros t'" and lt: "micros t' < micros t0 + 2147483647000"
  shows "millisec t0 t \<le> millisec t0 t'"
proof -
  let ?d = "snd t - snd t0" and ?d' = "snd t' - snd t0"
  have "micros t < micros t0 + 2147483647000" and "micros t0 \<le> micros t'" using le lt by linarith+
  note e = millisec_exact [OF le(1) this(1)] millisec_exact [OF this(2) lt]
  have b: "?d \<le> ?d' + 999999" using t by (simp add: valid_time_def)
  note m = thousandth_bounds [of ?d] thousandth_bounds [of ?d']
  consider "fst t = fst t'" "snd t \<le> snd t'" | "fst t + 1 \<le> fst t'"
    using le(2) t by (fastforce simp: micros_def valid_time_def)
  then show ?thesis
  proof cases
    case 1
    then have "thousandth ?d \<le> thousandth ?d'"
      using m(3,4,7,8) by (auto simp: thousandth_def sgn_if abs_if zdiv_mono1 intro: order_trans [of _ 0])
    with 1 e show ?thesis by simp
  next
    case 2
    have "thousandth ?d - thousandth ?d' \<le> 1000"
      using m b by (cases "0 \<le> ?d"; cases "0 \<le> ?d'"; simp)
    moreover have "1000 * (fst t - fst t0) + 1000 \<le> 1000 * (fst t' - fst t0)" using 2 by simp
    ultimately show ?thesis unfolding e by linarith
  qed
qed

section \<open>Reading the log\<close>

lemma scan_int_show_int:
  assumes "- (2 ^ 31) \<le> i" and "i < 2 ^ 31" and "r = [] \<or> \<not> is_digit (hd r)"
  shows "scan_int (show_int i @ r) = Some (i, r)"
proof (cases "i < 0")
  case False
  then show ?thesis using scan_int_show_nat [of "nat i" r] assms by (simp add: show_int_def)
next
  case True
  let ?ds = "show_nat (nat (- i))"
  have all: "\<forall>x \<in> set ?ds. is_digit x" and ne: "?ds \<noteq> []"
    using show_nat_digits [of "nat (- i)"] by (simp_all add: list_all_iff)
  have tw: "takeWhile is_digit (?ds @ r) = ?ds" "dropWhile is_digit (?ds @ r) = r"
    using all assms(3) by (cases r; auto simp: takeWhile_append2 dropWhile_append2)+
  have "skip_space (45 # ?ds @ r) = 45 # ?ds @ r" by (simp add: skip_space_def is_space_def)
  moreover have "int32 (saturate_long i) = i" using assms True by (simp add: saturate_long_def int32_id)
  ultimately show ?thesis
    using True ne by (simp add: scan_int_def show_int_def scan_sign_def tw digits_value_show_nat)
qed

text \<open>A reader of one line: \<open>sscanf\<close> with the format that wrote it.\<close>

definition scan_float :: "byte list \<Rightarrow> (rat \<times> byte list) option" where
  "scan_float s =
     (let (sgn, r) = scan_sign s; ds = takeWhile is_digit r; r1 = dropWhile is_digit r;
          fs = takeWhile is_digit (tl r1)
      in if ds = [] \<or> r1 = [] \<or> hd r1 \<noteq> 46 then None
         else Some (of_int sgn * (of_int (digits_value ds) + of_int (digits_value fs) / 10 ^ length fs),
                    dropWhile is_digit (tl r1)))"

definition scan_WSize :: "byte list \<Rightarrow> (int \<times> int \<times> rat) option" where
  "scan_WSize s =
     (if s = [] \<or> hd s \<noteq> 102 then None
      else case scan_int (tl s) of None \<Rightarrow> None
        | Some (winid, r) \<Rightarrow> (case scan_int r of None \<Rightarrow> None
          | Some (t, r') \<Rightarrow> (case scan_float (tl r') of None \<Rightarrow> None
            | Some (q, r'') \<Rightarrow> Some (winid, t, q))))"

lemma digits_value_zeros: "digits_value (replicate k 48 @ ds) = digits_value ds"
  by (induction k) (simp_all add: digits_value_def)

lemma pad6_facts:
  assumes "n < 10 ^ 6"
  shows "length (pad6 n) = 6" and "\<forall>c \<in> set (pad6 n). is_digit c" and "digits_value (pad6 n) = int n"
  using length_show_nat [of 6 n] assms show_nat_digits [of n]
  by (auto simp: pad6_def digits_value_zeros digits_value_show_nat list_all_iff is_digit_def)

lemma round_even_close: "\<bar>of_int (round_even x) - x\<bar> \<le> 1 / 2"
proof -
  have "of_int \<lfloor>x\<rfloor> \<le> x" and "x < of_int \<lfloor>x\<rfloor> + 1" by linarith+
  then show ?thesis by (auto simp: round_even_def Let_def abs_le_iff)
qed

text \<open>What six decimals keep of a size.\<close>

definition six_decimals :: "rat \<Rightarrow> rat" where
  "six_decimals q = of_int (round_even (q * 10 ^ 6)) / 10 ^ 6"

lemma six_decimals_close: "\<bar>six_decimals q - q\<bar> \<le> 1 / 2000000"
  using round_even_close [of "q * 10 ^ 6"]
  by (simp add: six_decimals_def abs_le_iff field_simps)

lemma scan_float_show_float:
  assumes "0 \<le> q" and "r = [] \<or> \<not> is_digit (hd r)"
  shows "scan_float (show_float q @ r) = Some (six_decimals q, r)"
proof -
  let ?i = "round_even (q * 10 ^ 6)" let ?m = "nat ?i"
  have i: "0 \<le> ?i" using assms(1) round_even_ge [of 0 "q * 10 ^ 6"] by simp
  let ?ds = "show_nat (?m div 10 ^ 6)" and ?fs = "pad6 (?m mod 10 ^ 6)"
  have f: "length ?fs = 6" "\<forall>c \<in> set ?fs. is_digit c" "digits_value ?fs = int (?m mod 10 ^ 6)"
    using pad6_facts [of "?m mod 10 ^ 6"] by simp_all
  have d: "\<forall>c \<in> set ?ds. is_digit c" "?ds \<noteq> []"
    using show_nat_digits [of "?m div 10 ^ 6"] by (simp_all add: list_all_iff)
  have e: "show_float q @ r = ?ds @ 46 # ?fs @ r"
    using assms(1) by (simp add: show_float_def Let_def)
  have s: "scan_sign (?ds @ 46 # ?fs @ r) = (1, ?ds @ 46 # ?fs @ r)"
    using d is_digit_no_space by (cases ?ds) (auto simp: scan_sign_def)
  have n46: "\<not> is_digit 46" by (simp add: is_digit_def)
  have t1: "takeWhile is_digit (?ds @ 46 # ?fs @ r) = ?ds" "dropWhile is_digit (?ds @ 46 # ?fs @ r) = 46 # ?fs @ r"
    using d n46 by (auto simp: takeWhile_append2 dropWhile_append2)
  have t2: "takeWhile is_digit (?fs @ r) = ?fs" "dropWhile is_digit (?fs @ r) = r"
    using f(2) assms(2) by (cases r; auto simp: takeWhile_append2 dropWhile_append2)+
  have "int (?m div 1000000) * 1000000 + int (?m mod 1000000) = ?i"
    using i by (simp add: zdiv_int zmod_int)
  then have "of_int (int (?m div 1000000) * 1000000 + int (?m mod 1000000)) = (of_int ?i :: rat)"
    by simp
  then have v: "of_int (int (?m div 1000000)) + of_int (int (?m mod 1000000)) / 1000000 = six_decimals q"
    unfolding six_decimals_def by simp
  show ?thesis
    unfolding e scan_float_def s t1
    by (simp only: t1 t2 list.sel case_prod_conv Let_def f(1,3) digits_value_show_nat) (use d(2) v in simp)
qed

lemma scan_WSize_line:
  assumes "- (2 ^ 31) \<le> i" and "i < 2 ^ 31" and "- (2 ^ 31) \<le> t" and "t < 2 ^ 31" and "0 \<le> q"
  shows "scan_WSize (WSize_line i t q) = Some (i, t, six_decimals q)"
proof -
  have d: "\<not> is_digit tab" "\<not> is_digit newline" by (simp_all add: is_digit_def tab_def newline_def)
  have sk: "scan_int (tab # r) = scan_int r" for r
    by (simp add: scan_int_def skip_space_def is_space_def tab_def)
  show ?thesis
    using assms d
    by (simp add: scan_WSize_def WSize_line_def scan_int_show_int sk scan_float_show_float)
qed

lemma int32_range: "- (2 ^ 31) \<le> int32 x" "int32 x < 2 ^ 31"
  using sint_range_size [of "word_of_int x :: u32"] by (simp_all add: int32_def word_size)

text \<open>A run of calls of \<open>WSize_log\<close>, each with its window and size.\<close>

definition log_step :: "stream \<times> world \<Rightarrow> int \<times> rat \<Rightarrow> (stream \<times> world) res" where
  "log_step s e = WSize_log (fst e) (snd e) (fst s) (snd s)"

definition log_line :: "world \<Rightarrow> nat \<Rightarrow> int \<times> rat \<Rightarrow> byte list" where
  "log_line w k e = WSize_line (fst e) (millisec (start_tm w) (micro_clock w k)) (snd e)"

lemma log_run:
  "run_steps log_step (Some old, w) es
   = Inr (Some (old @ concat (map2 (log_line w) [ticks w..<ticks w + length es] es)),
          w\<lparr>ticks := ticks w + length es\<rparr>)"
proof (induction es arbitrary: old w)
  case Nil
  then show ?case by simp
next
  case (Cons e es)
  let ?w = "w\<lparr>ticks := Suc (ticks w)\<rparr>"
  have l: "log_line ?w = log_line w" by (simp add: fun_eq_iff log_line_def)
  have "log_step (Some old, w) e = Inr (Some (old @ log_line w (ticks w) e), ?w)"
    by (simp add: log_step_def WSize_log_def gettimeofday_def winlog_def log_line_def)
  moreover have "[ticks w..<ticks w + length (e # es)] = ticks w # [Suc (ticks w)..<Suc (ticks w) + length es]"
    by (simp add: upt_conv_Cons del: upt_Suc)
  ultimately show ?case
    using Cons.IH [of "old @ log_line w (ticks w) e" ?w]
    by (simp add: l del: upt_Suc)
qed

text \<open>
  C39. The log reads back: after \<open>init_winlog\<close>, on a clock that does not go back and for less
  than 24 days, every call of \<open>WSize_log\<close> appends one line to what the file held, from which the
  identifier of the window, the time within a millisecond and the size within half a millionth are read;
  the times of later lines are not before those of earlier ones.
\<close>

theorem log_reads_back:
  assumes "init_winlog logfile w = Inr (s, w1)"
    and valid: "\<And>k. valid_time (micro_clock w k)"
    and mono: "\<And>j k. j \<le> k \<Longrightarrow> micros (micro_clock w j) \<le> micros (micro_clock w k)"
    and short: "micros (micro_clock w (ticks w + length es)) < micros (micro_clock w (ticks w)) + 2147483647000"
    and es: "\<And>e. e \<in> set es \<Longrightarrow> - (2 ^ 31) \<le> fst e \<and> fst e < 2 ^ 31 \<and> 0 \<le> snd e"
  shows "\<exists>old ls ts w2. s = Some old \<and> run_steps log_step (s, w1) es = Inr (Some (old @ concat ls), w2)
     \<and> List.map scan_WSize ls = map2 (\<lambda>t e. Some (fst e, t, six_decimals (snd e))) ts es
     \<and> length ts = length es \<and> sorted ts
     \<and> (\<forall>k < length es. \<bar>1000 * ts ! k - (micros (micro_clock w (ticks w1 + k)) - micros (start_tm w1))\<bar> < 1000)"
proof -
  obtain old where s: "s = Some old" and w1: "w1 = w\<lparr>ticks := Suc (ticks w), start_tm := micro_clock w (ticks w)\<rparr>"
    using assms(1) by (auto simp: init_winlog_def gettimeofday_def guard_eq_Inr)
  let ?ks = "[ticks w1..<ticks w1 + length es]" and ?t = "\<lambda>k. millisec (start_tm w1) (micro_clock w k)"
  have le: "micros (start_tm w1) \<le> micros (micro_clock w k)" if "ticks w1 \<le> k" for k
    using mono [of "ticks w" k] that by (simp add: w1)
  have lt: "micros (micro_clock w k) < micros (start_tm w1) + 2147483647000" if "k < ticks w1 + length es" for k
    using mono [of k "ticks w + length es"] that short by (simp add: w1)
  have sorted: "sorted (List.map ?t ?ks)"
    unfolding sorted_iff_nth_mono
    by (auto intro!: millisec_mono valid le mono lt)
  have sc: "scan_WSize (log_line w1 k e) = Some (fst e, ?t k, six_decimals (snd e))" if "e \<in> set es" for k e
    using es [OF that] int32_range by (simp add: log_line_def w1 scan_WSize_line millisec_def)
  have "List.map scan_WSize (map2 (log_line w1) ?ks es)
      = map2 (\<lambda>t e. Some (fst e, t, six_decimals (snd e))) (List.map ?t ?ks) es"
    by (intro nth_equalityI) (simp_all add: sc)
  moreover have "\<forall>k < length es. \<bar>1000 * List.map ?t ?ks ! k
      - (micros (micro_clock w (ticks w1 + k)) - micros (start_tm w1))\<bar> < 1000"
    by (auto intro!: millisec_close le lt)
  ultimately show ?thesis
    unfolding s using sorted
    by (intro exI [of _ old] exI [of _ "map2 (log_line w1) ?ks es"] exI [of _ "List.map ?t ?ks"]
        exI [of _ "w1\<lparr>ticks := ticks w1 + length es\<rparr>"] conjI refl log_run) simp_all
qed

definition ticking_world :: world where
  "ticking_world = quiet_world\<lparr>micro_clock := \<lambda>k. (int k, 500000)\<rparr>"

theorem log_reads_back_witness:
  "\<exists>s w1 ls ts w2. init_winlog [108] ticking_world = Inr (s, w1) \<and>
     run_steps log_step (s, w1) [(7, 1), (7, 3 / 2)] = Inr (Some (concat ls), w2) \<and>
     List.map scan_WSize ls = map2 (\<lambda>t e. Some (fst e, t, six_decimals (snd e))) ts [(7, 1), (7, 3 / 2)] \<and>
     length ts = 2 \<and> sorted ts"
proof -
  let ?es = "[(7, 1), (7, 3 / 2)] :: (int \<times> rat) list"
  let ?w1 = "ticking_world\<lparr>ticks := 1, start_tm := (0, 500000)\<rparr>"
  have i: "init_winlog [108] ticking_world = Inr (Some [], ?w1)"
    by (simp add: init_winlog_def gettimeofday_def ticking_world_def quiet_world_def)
  have v: "valid_time (micro_clock ticking_world k)" for k
    by (simp add: ticking_world_def valid_time_def)
  have m: "micros (micro_clock ticking_world j) \<le> micros (micro_clock ticking_world k)" if "j \<le> k" for j k
    using that by (simp add: ticking_world_def micros_def)
  have sh: "micros (micro_clock ticking_world (ticks ticking_world + length ?es))
      < micros (micro_clock ticking_world (ticks ticking_world)) + 2147483647000"
    by (simp add: ticking_world_def micros_def quiet_world_def)
  have e: "- (2 ^ 31) \<le> fst e \<and> fst e < 2 ^ 31 \<and> 0 \<le> snd e" if "e \<in> set ?es" for e
    using that by auto
  from log_reads_back [OF i v m sh e] i show ?thesis by fastforce
qed

end
