(* ===== verification/Window.thy ===== *)
theory Window
  imports Spiffy Float32
begin

text \<open>
  The sending half of \<^verbatim>\<open>sock_io.c\<close>: the congestion-controlled window of one upload. The
  packet array is a map that every access guards by the array bounds; \<open>None\<close> is a null
  slot. Packets are owned by exactly one slot, so they are stored by value.
\<close>

section \<open>Data\<close>

definition SENDER_BUF_SIZE :: int where "SENDER_BUF_SIZE = 514"
definition MAX_PACKET_SIZE :: int where "MAX_PACKET_SIZE = 1040"
definition TCP_MAXWIN :: int where "TCP_MAXWIN = 128"
definition INITIAL_CONGESTION_THRESHOLD :: int where "INITIAL_CONGESTION_THRESHOLD = 64"
definition CHUNK_SIZE :: int where "CHUNK_SIZE = 524288"
definition TIMEOUT_SEC :: int where "TIMEOUT_SEC = 2"
definition HASH_SIZE :: nat where "HASH_SIZE = 20"

type_synonym slots = "int \<Rightarrow> packet option"

definition slot_get :: "slots \<Rightarrow> int \<Rightarrow> packet option res" where
  "slot_get b i = guard (0 \<le> i \<and> i < SENDER_BUF_SIZE) OutOfBounds (Inr (b i))"

definition slot_deref :: "slots \<Rightarrow> int \<Rightarrow> packet res" where
  "slot_deref b i =
     ebind (slot_get b i) (\<lambda>s. case s of None \<Rightarrow> Inl NullDeref | Some p \<Rightarrow> Inr p)"

definition slot_set :: "slots \<Rightarrow> int \<Rightarrow> packet option \<Rightarrow> slots res" where
  "slot_set b i p = guard (0 \<le> i \<and> i < SENDER_BUF_SIZE) OutOfBounds (Inr (b(i := p)))"

record Window =
  win_hash :: "byte list"
  dst :: sockaddr_in
  flowid :: int
  ssthresh :: int
  LPA :: int
  LPS :: int
  LPR :: int
  sendable :: int
  congwin_size :: rat
  sender_buf :: slots

section \<open>Filling the window\<close>

definition create_SW :: "world \<Rightarrow> byte list \<Rightarrow> sockaddr_in \<Rightarrow> (Window \<times> world) res" where
  "create_SW w hash to =
     ebind (mem_read hash 0 20) (\<lambda>h.
     let (fid, w') = get_id_bytime w
     in Inr (\<lparr>win_hash = h, dst = to, flowid = fid, ssthresh = INITIAL_CONGESTION_THRESHOLD,
              LPA = 0, LPS = 0, LPR = 1, sendable = 1, congwin_size = 1,
              sender_buf = (\<lambda>_. None)\<rparr>, w'))"

definition pload_len :: int where
  "pload_len = MAX_PACKET_SIZE - int HEADER_LEN"

text \<open>One DATA packet put into the slot \<open>LPR\<close>: the common tail of the loop body and of the last packet.\<close>

definition put_packet :: "byte list \<Rightarrow> Window \<Rightarrow> int \<Rightarrow> int \<Rightarrow> Window res" where
  "put_packet data SW off n =
     ebind (mem_read data off n) (\<lambda>pload.
     ebind (form_DATA_pack pload n (LPR SW)) (\<lambda>datapack.
     ebind (slot_set (sender_buf SW) (LPR SW) (Some datapack)) (\<lambda>sb.
     Inr (SW\<lparr>sender_buf := sb, LPR := LPR SW + 1\<rparr>))))"

text \<open>The loop of \<open>p2p_sender\<close>; the flag says that it returned because the buffer is full.\<close>

function p2p_loop :: "byte list \<Rightarrow> Window \<Rightarrow> int \<Rightarrow> int \<Rightarrow> (Window \<times> int \<times> bool) res" where
  "p2p_loop data SW len countlen =
     (if len - countlen > pload_len
      then if LPR SW = SENDER_BUF_SIZE - 1 then Inr (SW, countlen, True)
           else ebind (put_packet data SW countlen pload_len) (\<lambda>SW'.
                p2p_loop data SW' len (countlen + pload_len))
      else Inr (SW, countlen, False))"
  by pat_completeness auto
termination
  by (relation "measure (\<lambda>(data, SW, len, countlen). nat (len - countlen))")
     (auto simp: pload_len_def MAX_PACKET_SIZE_def HEADER_LEN_def)

declare p2p_loop.simps [simp del]

definition p2p_sender :: "byte list \<Rightarrow> Window \<Rightarrow> int \<Rightarrow> (int \<times> Window) res" where
  "p2p_sender data SW len =
     ebind (p2p_loop data SW len 0) (\<lambda>(SW1, countlen, full).
     if full \<or> LPR SW1 = SENDER_BUF_SIZE - 1 then Inr (countlen, SW1)
     else ebind (put_packet data SW1 countlen (len - countlen)) (\<lambda>SW2. Inr (len, SW2)))"

text \<open>
  \<open>send_onechunk\<close> over a file system that maps names to contents. The first line of the
  master file gives a word that goes to a 5-byte array and the name of the data file. A
  read at an offset the file does not have leaves the zeroed buffer as it is.
\<close>

definition read_master_line :: "byte list \<Rightarrow> byte list res" where
  "read_master_line master =
     (case fgets BT_FILENAME_LEN master of None \<Rightarrow> Inl Uninitialised
      | Some (line, _) \<Rightarrow>
         (case scan_word None (cstr line) of None \<Rightarrow> Inl Uninitialised
          | Some (c, r) \<Rightarrow>
             guard (length c < 5) OutOfBounds
               (case scan_word None r of None \<Rightarrow> Inl Uninitialised
                | Some (name, _) \<Rightarrow> Inr name)))"

definition pread_chunk :: "byte list \<Rightarrow> int \<Rightarrow> byte list" where
  "pread_chunk file off =
     (let got = (if off < 0 then [] else take (nat CHUNK_SIZE) (drop (nat off) file))
      in got @ replicate (nat CHUNK_SIZE + 1 - length got) 0)"

definition int_mult :: "int \<Rightarrow> int \<Rightarrow> int res" where
  "int_mult a b = guard (- (2 ^ 31) \<le> a * b \<and> a * b < 2 ^ 31) SignedOverflow (Inr (a * b))"

definition send_onechunk :: "(byte list \<Rightarrow> byte list option) \<Rightarrow> Window \<Rightarrow> int \<Rightarrow> byte list \<Rightarrow> (int \<times> Window) res" where
  "send_onechunk fs SW offset loc =
     (case fs loc of None \<Rightarrow> Inl NullDeref
      | Some master \<Rightarrow>
         ebind (read_master_line master) (\<lambda>data_file_name.
         case fs data_file_name of None \<Rightarrow> Inr (-1, SW)
         | Some datafile \<Rightarrow>
            ebind (int_mult offset CHUNK_SIZE) (\<lambda>off.
            ebind (p2p_sender (pread_chunk datafile off) SW CHUNK_SIZE) (\<lambda>(ret, SW').
            Inr (if ret \<noteq> CHUNK_SIZE then -1 else 1, SW')))))"

section \<open>Timeouts, sending, acknowledgements\<close>

text \<open>\<open>count = congwin_size - (LPS - LPA)\<close>, a \<open>float\<close> difference truncated to \<open>int\<close>.\<close>

definition recount :: "Window \<Rightarrow> Window" where
  "recount W = W\<lparr>sendable := fl_trunc (fl_sub (congwin_size W) (fl_of_int (LPS W - LPA W)))\<rparr>"

definition halved_threshold :: "Window \<Rightarrow> int" where
  "halved_threshold W = (let tmp = fl_trunc (fl_div (congwin_size W) 2) in if tmp < 2 then 2 else tmp)"

text \<open>The reaction to a loss: threshold halved, window back to one, everything in flight forgotten.\<close>

definition slow_start :: "Window \<Rightarrow> Window res" where
  "slow_start W0 =
     (let W = W0\<lparr>ssthresh := halved_threshold W0, congwin_size := 1, LPS := LPA W0\<rparr>
      in ebind (slot_deref (sender_buf W) (LPA W)) (\<lambda>p.
         ebind (slot_set (sender_buf W) (LPA W) (Some (p\<lparr>ACKed_num := 1\<rparr>))) (\<lambda>sb.
         Inr (recount (W\<lparr>sender_buf := sb\<rparr>)))))"

definition check_datapack_timeout :: "world \<Rightarrow> Window \<Rightarrow> (int \<times> Window \<times> world) res" where
  "check_datapack_timeout w sw =
     (let (currtime, w') = time_now w; index = LPA sw + 1
      in ebind (slot_deref (sender_buf sw) index) (\<lambda>p.
         if timestamp p \<le> 0 then Inr (0, sw, w')
         else let elapse = currtime - timestamp p
              in if index > LPS sw \<or> index = 1 then Inr (0, sw, w')
                 else if elapse > TIMEOUT_SEC
                 then ebind (slow_start sw) (\<lambda>sw'. Inr (1, sw', w'))
                 else Inr (0, sw, w')))"

text \<open>
  The loop of \<open>window_sender\<close>, by the number of turns left before \<open>i\<close> reaches \<open>count\<close>;
  it returns the number of turns made.
\<close>

fun window_loop :: "nat \<Rightarrow> int \<Rightarrow> world \<Rightarrow> Window \<Rightarrow> (int \<times> Window \<times> world) res" where
  "window_loop 0 i w SW = Inr (i, SW, w)"
| "window_loop (Suc n) i w SW =
     (if LPS SW = LPR SW - 1 then Inr (i, SW, w)
      else let SW1 = SW\<lparr>LPS := LPS SW + 1\<rparr>
           in ebind (slot_deref (sender_buf SW1) (LPS SW1)) (\<lambda>p.
              ebind (send_pack w p (dst SW1)) (\<lambda>(_, w1).
              let (t, w2) = time_now w1
              in ebind (slot_set (sender_buf SW1) (LPS SW1) (Some (p\<lparr>timestamp := t\<rparr>))) (\<lambda>sb.
                 window_loop n (i + 1) w2 (SW1\<lparr>sender_buf := sb\<rparr>)))))"

definition window_sender :: "world \<Rightarrow> Window \<Rightarrow> (int \<times> Window \<times> world) res" where
  "window_sender w SW =
     (if sendable SW = 0 then Inr (0, SW, w)
      else ebind (window_loop (nat (sendable SW)) 0 w SW) (\<lambda>(i, SW', w').
           Inr (i, SW'\<lparr>sendable := 0\<rparr>, w')))"

definition upon_receive_ACK :: "packet \<Rightarrow> Window \<Rightarrow> (int \<times> Window) res" where
  "upon_receive_ACK ack_pack W0 =
     (let confirmno = ACK_Num ack_pack;
          newly_acked_no = sint (confirmno - word_of_int (LPA W0))
      in if confirmno < 1 then Inr (fl_trunc (congwin_size W0), W0)
         else ebind (slot_deref (sender_buf W0) (uint confirmno)) (\<lambda>p.
              ebind (slot_set (sender_buf W0) (uint confirmno) (Some (p\<lparr>ACKed_num := ACKed_num p + 1\<rparr>))) (\<lambda>sb.
              let W = W0\<lparr>sender_buf := sb\<rparr>
              in if confirmno > word_of_int (LPS W)
                 then let W1 = recount (W\<lparr>LPA := sint confirmno, LPS := sint confirmno,
                                          congwin_size := fl_add (congwin_size W) 1\<rparr>)
                      in Inr (fl_trunc (congwin_size W1), W1)
                 else if newly_acked_no > 0
                 then let cw = congwin_size W;
                          cw1 = (if cw > fl_of_int (ssthresh W)
                                 then let c = fl_add cw (fl_mul (fl_div 1 cw) (fl_of_int newly_acked_no))
                                      in if c > of_int TCP_MAXWIN then of_int TCP_MAXWIN else c
                                 else fl_add cw (fl_of_int newly_acked_no));
                          W1 = recount (W\<lparr>LPA := sint confirmno, congwin_size := cw1\<rparr>)
                      in Inr (fl_trunc (congwin_size W1), W1)
                 else if newly_acked_no = 0
                 then ebind (if ACKed_num (p\<lparr>ACKed_num := ACKed_num p + 1\<rparr>) > 3 then slow_start W else Inr W) (\<lambda>W1.
                      let W2 = recount W1 in Inr (fl_trunc (congwin_size W2), W2))
                 else Inr (fl_trunc (congwin_size W), W))))"

text \<open>\<open>release_window\<close> frees every packet and the window itself; nothing of it is left to model.\<close>

section \<open>The window invariant\<close>

text \<open>The DATA packet with sequence number \<open>i\<close>, whatever its timestamp and counters.\<close>

definition data_packet :: "int \<Rightarrow> packet \<Rightarrow> bool" where
  "data_packet i p \<longleftrightarrow> wf_packet p \<and> Packet_Type p = 3 \<and> Hd_len p = 16 \<and> Seq_Num p = of_int i"

text \<open>
  Pointers in order, a DATA packet in every ready slot, a congestion window that is a
  \<open>float\<close> value between 1 and one more than the packets acknowledged so far.
\<close>

definition win_base :: "Window \<Rightarrow> bool" where
  "win_base W \<longleftrightarrow>
     0 \<le> LPA W \<and> LPA W \<le> LPS W \<and> LPS W < LPR W \<and> LPR W < SENDER_BUF_SIZE \<and>
     (\<forall>i. 1 \<le> i \<and> i < LPR W \<longrightarrow> (\<exists>p. sender_buf W i = Some p \<and> data_packet i p)) \<and>
     1 \<le> congwin_size W \<and> congwin_size W \<le> of_int (LPA W + 1) \<and> is_f32 (congwin_size W) \<and>
     2 \<le> ssthresh W \<and> ssthresh W \<le> 257"

text \<open>
  The send credit never takes the packets in flight above the window, and a window with
  nothing in flight has credit left.
\<close>

definition win_inv :: "Window \<Rightarrow> bool" where
  "win_inv W \<longleftrightarrow> win_base W \<and>
     (0 < sendable W \<longrightarrow> LPS W - LPA W + sendable W \<le> \<lfloor>congwin_size W\<rfloor>) \<and>
     (LPS W = LPA W \<longrightarrow> LPS W + 1 < LPR W \<longrightarrow> 0 < sendable W)"

lemma SBS [simp]: "SENDER_BUF_SIZE = 514"
  by (simp add: SENDER_BUF_SIZE_def)

lemma slot_get_in: "0 \<le> i \<Longrightarrow> i < 514 \<Longrightarrow> slot_get b i = Inr (b i)"
  by (simp add: slot_get_def)

lemma slot_deref_in: "0 \<le> i \<Longrightarrow> i < 514 \<Longrightarrow> b i = Some p \<Longrightarrow> slot_deref b i = Inr p"
  by (simp add: slot_deref_def slot_get_in)

lemma slot_set_in: "0 \<le> i \<Longrightarrow> i < 514 \<Longrightarrow> slot_set b i p = Inr (b(i := p))"
  by (simp add: slot_set_def)

lemmas slot_simps = slot_get_in slot_deref_in slot_set_in

lemma win_base_slot:
  "win_base W \<Longrightarrow> 1 \<le> i \<Longrightarrow> i < LPR W \<Longrightarrow> \<exists>p. sender_buf W i = Some p \<and> data_packet i p"
  by (simp add: win_base_def)

lemma win_base_bounds:
  assumes "win_base W"
  shows "0 \<le> LPA W" "LPA W \<le> LPS W" "LPS W < LPR W" "LPR W < 514"
    "1 \<le> congwin_size W" "congwin_size W \<le> 513" "congwin_size W < 2 ^ 24" "is_f32 (congwin_size W)"
proof -
  have "(of_int (LPA W + 1) :: rat) \<le> of_int 513" using assms by (subst of_int_le_iff) (simp add: win_base_def)
  with assms show "0 \<le> LPA W" "LPA W \<le> LPS W" "LPS W < LPR W" "LPR W < 514"
    "1 \<le> congwin_size W" "congwin_size W \<le> 513" "congwin_size W < 2 ^ 24" "is_f32 (congwin_size W)"
    by (auto simp: win_base_def)
qed

lemma congwin_floor_pos: "win_base W \<Longrightarrow> 1 \<le> \<lfloor>congwin_size W\<rfloor>"
  using win_base_bounds(5) [of W] by (simp add: le_floor_iff)

text \<open>The \<open>float\<close> computation of the credit is exact while the flight fits the window.\<close>

lemma recount_fits:
  assumes b: "win_base W" and "LPS W - LPA W \<le> \<lfloor>congwin_size W\<rfloor>"
  shows "sendable (recount W) = \<lfloor>congwin_size W\<rfloor> - (LPS W - LPA W)"
proof -
  note bb = win_base_bounds [OF b]
  let ?f = "LPS W - LPA W"
  have f: "0 \<le> ?f" "?f < 2 ^ 24" using bb by auto
  have le: "of_int ?f \<le> congwin_size W" using assms(2) by (simp only: le_floor_iff)
  have "fl_sub (congwin_size W) (fl_of_int ?f) = congwin_size W - of_int ?f"
    unfolding fl_sub_def fl_of_int_exact [OF f] by (rule rnd32_sub_int [OF bb(8) f(1) le bb(7)])
  with le show ?thesis by (simp add: recount_def fl_trunc_def del: of_int_diff)
qed

lemma rnd_pos_nonneg: "0 < q \<Longrightarrow> 0 \<le> rnd_pos q"
  by (simp add: rnd_pos_def Let_def) (intro mult_nonneg_nonneg, auto intro!: round_even_ge)

lemma recount_exceeds:
  assumes b: "win_base W" and "\<lfloor>congwin_size W\<rfloor> < LPS W - LPA W"
  shows "sendable (recount W) \<le> 0"
proof -
  note bb = win_base_bounds [OF b]
  let ?f = "LPS W - LPA W"
  have f: "0 \<le> ?f" "?f < 2 ^ 24" using bb by auto
  have "congwin_size W - of_int ?f < 0" using assms(2) by (simp only: floor_less_iff)
  then have "fl_sub (congwin_size W) (fl_of_int ?f) \<le> 0"
    unfolding fl_sub_def fl_of_int_exact [OF f] by (simp add: rnd32_def rnd_pos_nonneg)
  then show ?thesis by (auto simp: recount_def fl_trunc_def)
qed

lemma recount_simps [simp]:
  "LPA (recount W) = LPA W" "LPS (recount W) = LPS W" "LPR (recount W) = LPR W"
  "congwin_size (recount W) = congwin_size W" "ssthresh (recount W) = ssthresh W"
  "sender_buf (recount W) = sender_buf W" "dst (recount W) = dst W"
  by (simp_all add: recount_def)

lemma recount_inv:
  assumes "win_base W"
  shows "win_inv (recount W)"
proof -
  have base: "win_base (recount W)" using assms by (simp add: win_base_def)
  show ?thesis
  proof (cases "LPS W - LPA W \<le> \<lfloor>congwin_size W\<rfloor>")
    case True
    with recount_fits [OF assms] congwin_floor_pos [OF assms] base show ?thesis
      by (simp add: win_inv_def)
  next
    case False
    with recount_exceeds [OF assms] congwin_floor_pos [OF assms] base show ?thesis
      by (auto simp: win_inv_def)
  qed
qed

text \<open>The halved threshold stays between 2 and 257.\<close>

lemma halved_threshold_bounds:
  assumes "win_base W"
  shows "2 \<le> halved_threshold W" "halved_threshold W \<le> 257"
proof -
  note bb = win_base_bounds [OF assms]
  have "fl_div (congwin_size W) 2 \<le> of_int 257"
    unfolding fl_div_def using bb(5,6) by (intro rnd32_le_int) auto
  moreover have "0 \<le> fl_div (congwin_size W) 2"
    unfolding fl_div_def using bb(5,6) by (intro rnd32_nonneg) auto
  ultimately have "fl_trunc (fl_div (congwin_size W) 2) \<le> 257"
    by (simp add: fl_trunc_def floor_le_iff)
  then show "2 \<le> halved_threshold W" "halved_threshold W \<le> 257"
    by (auto simp: halved_threshold_def Let_def)
qed

lemma is_f32_1: "is_f32 1"
  using rnd32_int [of 1] by (simp add: is_f32_def)

lemma slot_update_data:
  assumes "win_base W" and "sender_buf W j = Some p" and "1 \<le> j" "j < LPR W"
    and "data_packet j q"
  shows "win_base (W\<lparr>sender_buf := (sender_buf W)(j := Some q)\<rparr>)"
  using assms by (auto simp: win_base_def)

lemma data_packet_update [simp]:
  "data_packet i (p\<lparr>timestamp := t\<rparr>) = data_packet i p"
  "data_packet i (p\<lparr>ACKed_num := n\<rparr>) = data_packet i p"
  by (simp_all add: data_packet_def wf_packet_def overhead_def body_def)

lemma slow_start_inv:
  assumes b: "win_base W" and a: "1 \<le> LPA W"
  obtains W' where "slow_start W = Inr W'" and "win_inv W'" and "LPA W' = LPA W" and "LPS W' = LPA W"
    and "LPR W' = LPR W" and "congwin_size W' = 1" and "ssthresh W' = halved_threshold W"
    and "sendable W' = 1"
proof -
  note bb = win_base_bounds [OF b]
  obtain p where p: "sender_buf W (LPA W) = Some p" "data_packet (LPA W) p"
    using win_base_slot [OF b a] bb by auto
  let ?W = "W\<lparr>ssthresh := halved_threshold W, congwin_size := 1, LPS := LPA W,
      sender_buf := (sender_buf W)(LPA W := Some (p\<lparr>ACKed_num := 1\<rparr>))\<rparr>"
  have one: "(1 :: rat) \<le> 1 + of_int (LPA W)" using bb(1) by simp
  have base: "win_base ?W"
    using b p bb halved_threshold_bounds [OF b] is_f32_1 one by (auto simp: win_base_def)
  have "slow_start W = Inr (recount ?W)"
    using p bb a by (simp add: slow_start_def Let_def slot_simps)
  moreover have "sendable (recount ?W) = 1"
    using recount_fits [OF base] by simp
  ultimately show ?thesis
    using recount_inv [OF base] by (intro that) auto
qed

section \<open>Timeouts\<close>

lemma check_datapack_timeout_first:
  assumes "win_base W" and "LPA W = 0" and "1 < LPR W"
  shows "check_datapack_timeout w W = Inr (0, W, snd (time_now w))"
proof -
  obtain p where "sender_buf W 1 = Some p" using win_base_slot [OF assms(1), of 1] assms(3) by auto
  with assms(2) show ?thesis
    by (simp add: check_datapack_timeout_def slot_simps Let_def time_now_def)
qed

lemma check_datapack_timeout_inv:
  assumes i: "win_inv W" and "LPA W + 1 < LPR W"
  shows "\<exists>r W' w'. check_datapack_timeout w W = Inr (r, W', w') \<and> win_inv W' \<and>
    LPA W' = LPA W \<and> LPR W' = LPR W \<and> sent w' = sent w \<and>
    (r = 0 \<and> W' = W \<or> r = 1 \<and> LPS W' = LPA W \<and> congwin_size W' = 1 \<and> sendable W' = 1
      \<and> ssthresh W' = halved_threshold W \<and> 1 \<le> LPA W \<and> LPA W < LPS W)"
proof -
  have b: "win_base W" using i by (simp add: win_inv_def)
  note bb = win_base_bounds [OF b]
  obtain p where p: "sender_buf W (LPA W + 1) = Some p"
    using win_base_slot [OF b, of "LPA W + 1"] bb assms(2) by auto
  let ?c = "fst (time_now w)"
  show ?thesis
  proof (cases "0 < timestamp p \<and> LPA W + 1 \<le> LPS W \<and> 1 \<le> LPA W \<and> ?c - timestamp p > TIMEOUT_SEC")
    case True
    then obtain W' where "slow_start W = Inr W'" "win_inv W'" "LPA W' = LPA W" "LPS W' = LPA W"
      "LPR W' = LPR W" "congwin_size W' = 1" "ssthresh W' = halved_threshold W" "sendable W' = 1"
      using slow_start_inv [OF b] by metis
    with True p bb show ?thesis
      by (auto simp: check_datapack_timeout_def slot_simps Let_def time_now_def)
  next
    case False
    with i p bb show ?thesis
      by (auto simp: check_datapack_timeout_def slot_simps Let_def time_now_def)
  qed
qed

section \<open>Sending\<close>

text \<open>The datagrams that sending the slots \<open>i + 1, \<dots>, i + n\<close> hands to the system.\<close>

definition slot_bytes :: "Window \<Rightarrow> int \<Rightarrow> byte list" where
  "slot_bytes W i = (case sender_buf W i of None \<Rightarrow> [] | Some p \<Rightarrow> wire_bytes p)"

definition burst :: "spiffy_globals \<Rightarrow> Window \<Rightarrow> int \<Rightarrow> nat \<Rightarrow> datagram list" where
  "burst g W i n = concat (map (\<lambda>k. emitted g (dst W) (slot_bytes W (i + 1 + int k))) [0..<n])"

lemma burst_Suc: "burst g W i (Suc n) = emitted g (dst W) (slot_bytes W (i + 1)) @ burst g W (i + 1) n"
proof -
  have "[0..<Suc n] = 0 # map Suc [0..<n]" by (simp add: map_Suc_upt upt_conv_Cons del: upt_Suc)
  then show ?thesis by (simp add: burst_def comp_def ac_simps del: upt_Suc)
qed

text \<open>Everything but the send pointer, the slots' timestamps and the credit is untouched by sending.\<close>

definition same_but_sent :: "Window \<Rightarrow> Window \<Rightarrow> bool" where
  "same_but_sent W W' \<longleftrightarrow> LPA W' = LPA W \<and> LPR W' = LPR W \<and> dst W' = dst W \<and>
     congwin_size W' = congwin_size W \<and> ssthresh W' = ssthresh W \<and> slot_bytes W' = slot_bytes W"

lemma wire_bytes_timestamp [simp]: "wire_bytes (p\<lparr>timestamp := t\<rparr>) = wire_bytes p"
  by (simp add: wire_bytes_def wire_header_def body_def)

lemma slot_bytes_sendable [simp]: "slot_bytes (W\<lparr>sendable := c\<rparr>) = slot_bytes W"
  by (rule ext) (simp add: slot_bytes_def)

lemma slot_bytes_timestamp:
  "sender_buf W i = Some p \<Longrightarrow>
   slot_bytes (W\<lparr>LPS := x, sender_buf := (sender_buf W)(i := Some (p\<lparr>timestamp := t\<rparr>))\<rparr>) = slot_bytes W"
  by (rule ext) (simp add: slot_bytes_def)

lemma window_loop_sends:
  assumes "win_base W"
  shows "\<exists>W' w'. window_loop n i w W = Inr (i + int (min n (nat (LPR W - 1 - LPS W))), W', w') \<and>
    win_base W' \<and> same_but_sent W W' \<and> sendable W' = sendable W \<and>
    LPS W' = LPS W + int (min n (nat (LPR W - 1 - LPS W))) \<and>
    router w' = router w \<and>
    sent w' = sent w @ burst (router w) W (LPS W) (min n (nat (LPR W - 1 - LPS W)))"
  using assms
proof (induction n arbitrary: i w W)
  case 0
  then show ?case by (simp add: same_but_sent_def burst_def)
next
  case (Suc n)
  note bb = win_base_bounds [OF Suc.prems]
  show ?case
  proof (cases "LPS W = LPR W - 1")
    case True
    with Suc.prems show ?thesis by (simp add: same_but_sent_def burst_def)
  next
    case False
    let ?j = "LPS W + 1"
    obtain p where p: "sender_buf W ?j = Some p" "data_packet ?j p"
      using win_base_slot [OF Suc.prems, of ?j] bb False by auto
    then have wf: "wf_packet p" by (simp add: data_packet_def)
    obtain ret where ret: "send_pack w p (dst W)
        = Inr (ret, record_sent w (emitted (router w) (dst W) (wire_bytes p)))"
      using send_pack_wf [OF wf] by blast
    let ?w1 = "record_sent w (emitted (router w) (dst W) (wire_bytes p))"
    let ?t = "fst (time_now ?w1)" and ?w2 = "snd (time_now ?w1)"
    let ?W2 = "W\<lparr>LPS := ?j, sender_buf := (sender_buf W)(?j := Some (p\<lparr>timestamp := ?t\<rparr>))\<rparr>"
    have base2: "win_base ?W2" using Suc.prems p False bb by (auto simp: win_base_def)
    have sb: "slot_bytes ?W2 = slot_bytes W" by (rule slot_bytes_timestamp [OF p(1)])
    have bp: "slot_bytes W ?j = wire_bytes p" using p by (simp add: slot_bytes_def)
    have m: "min (Suc n) (nat (LPR W - 1 - LPS W)) = Suc (min n (nat (LPR W - 1 - ?j)))"
      using False bb by auto
    have "window_loop (Suc n) i w W = window_loop n (i + 1) ?w2 ?W2"
      using False p bb ret by (simp add: slot_simps Let_def time_now_def)
    moreover have "burst g ?W2 k m = burst g W k m" for g k m
      by (simp add: burst_def sb)
    ultimately show ?thesis
      using Suc.IH [OF base2, of "i + 1" ?w2] sb bp
      by (auto simp: m burst_Suc same_but_sent_def time_now_def)
  qed
qed

lemma window_sender_sends:
  assumes inv: "win_inv W"
  defines "k \<equiv> min (nat (sendable W)) (nat (LPR W - 1 - LPS W))"
  shows "\<exists>W' w'. window_sender w W = Inr (int k, W', w') \<and>
    win_base W' \<and> same_but_sent W W' \<and> sendable W' = 0 \<and> LPS W' = LPS W + int k \<and>
    router w' = router w \<and> sent w' = sent w @ burst (router w) W (LPS W) k"
proof -
  have base: "win_base W" using inv by (simp add: win_inv_def)
  show ?thesis
  proof (cases "sendable W = 0")
    case True
    with base show ?thesis by (simp add: window_sender_def k_def same_but_sent_def burst_def)
  next
    case False
    obtain W' w' where W': "window_loop (nat (sendable W)) 0 w W = Inr (int k, W', w')"
      "win_base W'" "same_but_sent W W'" "LPS W' = LPS W + int k" "router w' = router w"
      "sent w' = sent w @ burst (router w) W (LPS W) k"
      using window_loop_sends [OF base, of "nat (sendable W)" 0 w] by (auto simp: k_def)
    moreover have "win_base (W'\<lparr>sendable := 0\<rparr>)" using W'(2) by (simp add: win_base_def)
    moreover have "same_but_sent W (W'\<lparr>sendable := 0\<rparr>)"
      using W'(3) by (simp add: same_but_sent_def)
    ultimately show ?thesis using False by (simp add: window_sender_def)
  qed
qed

lemma window_sender_inv:
  assumes inv: "win_inv W"
  shows "\<exists>r W' w'. window_sender w W = Inr (r, W', w') \<and> win_inv W'"
proof -
  let ?k = "min (nat (sendable W)) (nat (LPR W - 1 - LPS W))"
  have base: "win_base W" using inv by (simp add: win_inv_def)
  obtain W' w' where W': "window_sender w W = Inr (int ?k, W', w')"
    "win_base W'" "same_but_sent W W'" "sendable W' = 0" "LPS W' = LPS W + int ?k"
    using window_sender_sends [OF inv] by blast
  have "win_inv W'"
    using inv W' win_base_bounds [OF base] by (auto simp: win_inv_def same_but_sent_def)
  with W' show ?thesis by blast
qed

section \<open>Acknowledgements\<close>

text \<open>Unsigned and signed readings of an acknowledgement number that lies in the window.\<close>

lemma ack_numbers:
  fixes c :: u32
  assumes "uint c < 514" and "0 \<le> k" "k < 514"
  shows "sint c = uint c" "c > word_of_int k \<longleftrightarrow> k < uint c"
    "sint (c - word_of_int k) = uint c - k" "c < 1 \<longleftrightarrow> uint c = 0"
proof -
  have lo: "- (2 ^ 31) \<le> uint c" by (rule order_trans [OF _ uint_ge_0]) simp
  show s: "sint c = uint c"
    using assms(1) lo by (simp add: sint_uint signed_take_bit_int_eq_self)
  have k: "uint (word_of_int k :: u32) = k" "sint (word_of_int k :: u32) = k"
    using assms(2,3) by (simp_all add: unsigned_of_int take_bit_int_eq_self signed_of_int signed_take_bit_int_eq_self)
  show "c > word_of_int k \<longleftrightarrow> k < uint c" by (simp add: word_less_def k)
  show "sint (c - word_of_int k) = uint c - k"
  proof -
    have "- 2147483648 \<le> uint c - k" using uint_ge_0 [of c] assms(3) by linarith
    then show ?thesis
      unfolding sint_word_diff s k using assms by (simp add: signed_take_bit_int_eq_self)
  qed
  show "c < 1 \<longleftrightarrow> uint c = 0" by (simp add: uint_0_iff)
qed

text \<open>The congestion-avoidance increment never exceeds the number of packets acknowledged.\<close>

lemma grow_bounds:
  assumes c: "1 \<le> c" "c \<le> of_int m" and n: "1 \<le> n" "m + n < 1000" and d: "0 \<le> d" "d \<le> of_int n"
  shows "1 \<le> fl_add c d" "fl_add c d \<le> of_int (m + n)" "is_f32 (fl_add c d)"
proof -
  have "c + d \<le> of_int m + of_int n" using c(2) d(2) by (rule add_mono)
  then have le: "c + d \<le> of_int (m + n)" by simp
  have "(of_int (m + n) :: rat) < of_int 1000" using n(2) by (simp only: of_int_less_iff)
  with le have "c + d < 2 ^ 24" by simp
  then show "1 \<le> fl_add c d" using c(1) d(1) rnd32_ge_int [of "c + d" 1] by (simp add: fl_add_def)
  show "fl_add c d \<le> of_int (m + n)"
    unfolding fl_add_def using le c(1) d(1) n(2) by (intro rnd32_le_int) auto
  show "is_f32 (fl_add c d)" by (simp add: fl_add_def is_f32_rnd32)
qed

lemma avoidance_step:
  assumes "1 \<le> c" and "1 \<le> n" "n < 1000"
  shows "0 \<le> fl_mul (fl_div 1 c) (fl_of_int n)" "fl_mul (fl_div 1 c) (fl_of_int n) \<le> of_int n"
proof -
  have e: "fl_of_int n = of_int n" using assms by (intro fl_of_int_exact) auto
  have "0 \<le> 1 / c" "1 / c \<le> 1" using assms(1) by (auto simp: divide_le_eq)
  then have q: "0 \<le> fl_div 1 c" "fl_div 1 c \<le> 1"
    using rnd32_le_int [of "1 / c" 1] rnd32_nonneg [of "1 / c"] by (auto simp: fl_div_def)
  have le: "fl_div 1 c * of_int n \<le> of_int n"
    using q assms(2) by (simp add: mult_left_le_one_le)
  have "(of_int n :: rat) < of_int 1000" using assms(3) by (simp only: of_int_less_iff)
  with le have "fl_div 1 c * of_int n < 2 ^ 24" by simp
  then show "0 \<le> fl_mul (fl_div 1 c) (fl_of_int n)"
    unfolding fl_mul_def e using q assms(2) by (intro rnd32_nonneg) auto
  show "fl_mul (fl_div 1 c) (fl_of_int n) \<le> of_int n"
    unfolding fl_mul_def e using q assms(2,3) le by (intro rnd32_le_int) auto
qed

text \<open>An acknowledgement is admissible when it is zero or names a packet put into the window.\<close>

definition ack_ok :: "Window \<Rightarrow> packet \<Rightarrow> bool" where
  "ack_ok W a \<longleftrightarrow> uint (ACK_Num a) < LPR W"

text \<open>The window size after \<open>n\<close> new packets are acknowledged by one in-window ACK.\<close>

definition grown :: "Window \<Rightarrow> int \<Rightarrow> rat" where
  "grown W n =
     (let cw = congwin_size W
      in if cw > fl_of_int (ssthresh W)
         then let c = fl_add cw (fl_mul (fl_div 1 cw) (fl_of_int n))
              in if c > of_int TCP_MAXWIN then of_int TCP_MAXWIN else c
         else fl_add cw (fl_of_int n))"

lemma grown_bounds:
  assumes b: "win_base W" and n: "1 \<le> n" "LPA W + n < 514"
  shows "1 \<le> grown W n" "grown W n \<le> of_int (LPA W + n + 1)" "is_f32 (grown W n)"
proof -
  note bb = win_base_bounds [OF b]
  have cw: "congwin_size W \<le> of_int (LPA W + 1)" using b by (simp add: win_base_def)
  let ?d = "fl_mul (fl_div 1 (congwin_size W)) (fl_of_int n)"
  have e: "fl_of_int n = of_int n" using n bb(1) by (intro fl_of_int_exact) auto
  have d: "0 \<le> ?d" "?d \<le> of_int n" using avoidance_step [OF bb(5) n(1)] n bb(1) by auto
  have "LPA W + 1 + n < 1000" using n by simp
  note g = grow_bounds [OF bb(5) cw n(1) this]
  have "is_f32 (128 :: rat)" using rnd32_int [of 128] by (simp add: is_f32_def)
  moreover have "0 \<le> (of_int n :: rat)" using n by simp
  ultimately show "1 \<le> grown W n" "grown W n \<le> of_int (LPA W + n + 1)" "is_f32 (grown W n)"
    using g [OF d] g [of "of_int n"] by (auto simp: grown_def Let_def TCP_MAXWIN_def e ac_simps)
qed

lemma win_base_ack:
  assumes "win_base W" and "LPA W \<le> c" "c \<le> s" "s < LPR W"
    and "1 \<le> cw" "cw \<le> of_int (c + 1)" "is_f32 cw"
  shows "win_base (W\<lparr>LPA := c, LPS := s, congwin_size := cw\<rparr>)"
  using assms by (auto simp: win_base_def)

lemma upon_receive_ACK_inv:
  assumes i: "win_inv W" and a: "ack_ok W ack"
  shows "\<exists>r W'. upon_receive_ACK ack W = Inr (r, W') \<and> win_inv W' \<and> LPR W' = LPR W \<and>
    LPA W' = max (LPA W) (uint (ACK_Num ack)) \<and> r = fl_trunc (congwin_size W')"
proof (cases "uint (ACK_Num ack) = 0")
  case True
  have b: "win_base W" using i by (simp add: win_inv_def)
  with True i win_base_bounds [OF b] show ?thesis
    by (simp add: upon_receive_ACK_def uint_0_iff)
next
  case nz: False
  have b: "win_base W" using i by (simp add: win_inv_def)
  note bb = win_base_bounds [OF b]
  let ?c = "uint (ACK_Num ack)"
  have "1 \<le> ?c" using nz uint_ge_0 [of "ACK_Num ack"] by linarith
  then have c: "1 \<le> ?c" "?c < LPR W" "?c < 514" using a bb by (auto simp: ack_ok_def)
  obtain p where p: "sender_buf W ?c = Some p" "data_packet ?c p"
    using win_base_slot [OF b c(1,2)] by blast
  let ?p = "p\<lparr>ACKed_num := ACKed_num p + 1\<rparr>"
  define V where "V = W\<lparr>sender_buf := (sender_buf W)(?c := Some ?p)\<rparr>"
  have Vb: "win_base V" unfolding V_def by (rule slot_update_data [OF b p(1) c(1,2)]) (simp add: p)
  have V: "LPA V = LPA W" "LPS V = LPS W" "LPR V = LPR W" "congwin_size V = congwin_size W"
    "ssthresh V = ssthresh W" by (simp_all add: V_def)
  note lpa = ack_numbers [OF c(3) bb(1), of] and lps = ack_numbers(2) [OF c(3), of "LPS W"]
  have unfold: "upon_receive_ACK ack W =
      (if LPS V < ?c
       then let W1 = recount (V\<lparr>LPA := ?c, LPS := ?c, congwin_size := fl_add (congwin_size V) 1\<rparr>)
            in Inr (fl_trunc (congwin_size W1), W1)
       else if 0 < ?c - LPA V
       then let W1 = recount (V\<lparr>LPA := ?c, congwin_size := grown V (?c - LPA V)\<rparr>)
            in Inr (fl_trunc (congwin_size W1), W1)
       else if ?c - LPA V = 0
       then ebind (if ACKed_num ?p > 3 then slow_start V else Inr V) (\<lambda>W1.
            let W2 = recount W1 in Inr (fl_trunc (congwin_size W2), W2))
       else Inr (fl_trunc (congwin_size V), V))"
    using c p lpa lps bb
    by (simp add: upon_receive_ACK_def Let_def slot_simps grown_def V_def)
  consider "LPS W < ?c" | "?c \<le> LPS W" "LPA W < ?c" | "?c = LPA W" | "?c < LPA W" by linarith
  then show ?thesis
  proof cases
    case 1
    have g: "1 \<le> fl_add (congwin_size V) 1" "fl_add (congwin_size V) 1 \<le> of_int (LPA W + 1 + 1)"
      "is_f32 (fl_add (congwin_size V) 1)"
      using grow_bounds [of "congwin_size V" "LPA W + 1" 1 1] Vb bb V by (auto simp: win_base_def)
    have "of_int (LPA W + 1 + 1) \<le> (of_int (?c + 1) :: rat)"
      using 1 bb by (subst of_int_le_iff) simp
    with g(2) have "fl_add (congwin_size V) 1 \<le> of_int (?c + 1)" by (rule order_trans)
    then have "win_base (V\<lparr>LPA := ?c, LPS := ?c, congwin_size := fl_add (congwin_size V) 1\<rparr>)"
      using 1 bb c g by (intro win_base_ack [OF Vb]) (auto simp: V)
    from recount_inv [OF this] 1 bb V show ?thesis by (simp add: unfold Let_def max_def)
  next
    case 2
    have "win_base (V\<lparr>LPA := ?c, LPS := LPS V, congwin_size := grown V (?c - LPA V)\<rparr>)"
      using 2 bb c grown_bounds [OF Vb, of "?c - LPA V"] by (intro win_base_ack [OF Vb]) (auto simp: V)
    moreover have "V\<lparr>LPA := ?c, LPS := LPS V, congwin_size := g\<rparr> = V\<lparr>LPA := ?c, congwin_size := g\<rparr>" for g
      by (cases V) simp
    ultimately have "win_base (V\<lparr>LPA := ?c, congwin_size := grown V (?c - LPA V)\<rparr>)" by simp
    from recount_inv [OF this] 2 bb V show ?thesis by (simp add: unfold Let_def max_def)
  next
    case 3
    have "\<exists>W1. (if ACKed_num ?p > 3 then slow_start V else Inr V) = Inr W1 \<and> win_base W1 \<and>
        LPA W1 = LPA W \<and> LPR W1 = LPR W"
    proof (cases "ACKed_num ?p > 3")
      case True
      obtain W1 where "slow_start V = Inr W1" "win_inv W1" "LPA W1 = LPA V" "LPR W1 = LPR V"
        using slow_start_inv [OF Vb] 3 c(1) V by metis
      with True V show ?thesis by (auto simp: win_inv_def)
    next
      case False
      with Vb V show ?thesis by auto
    qed
    then obtain W1 where "(if ACKed_num ?p > 3 then slow_start V else Inr V) = Inr W1" "win_base W1"
        "LPA W1 = LPA W" "LPR W1 = LPR W" by blast
    with 3 bb V recount_inv [of W1] show ?thesis by (simp add: unfold Let_def)
  next
    case 4
    have "win_inv V" using i Vb V by (simp add: win_inv_def V_def)
    with 4 bb V show ?thesis by (simp add: unfold Let_def max_def)
  qed
qed

section \<open>Properties\<close>

text \<open>A window of \<open>n\<close> packets of one byte each, as \<open>create_SW\<close> and \<open>p2p_sender\<close> leave it.\<close>

definition sample_data :: "int \<Rightarrow> packet" where
  "sample_data i = zero_packet\<lparr>Magic_Num := 15441, Version_Num := 1, Packet_Type := 3, Hd_len := 16,
     Pack_len := 17, Seq_Num := of_int i, payload := Some [0]\<rparr>"

definition sample_window :: "int \<Rightarrow> int \<Rightarrow> int \<Rightarrow> rat \<Rightarrow> Window" where
  "sample_window a s r cw = recount \<lparr>win_hash = replicate 20 0,
     dst = \<lparr>sin_family = AF_INET, sin_port = 9, sin_addr = 8\<rparr>, flowid = 1, ssthresh = 64, LPA = a, LPS = s,
     LPR = r, sendable = 0, congwin_size = cw,
     sender_buf = (\<lambda>i. if 1 \<le> i \<and> i < r then Some (sample_data i) else None)\<rparr>"

lemma sample_data_packet: "data_packet i (sample_data i)"
  by (simp add: data_packet_def sample_data_def wf_packet_def overhead_def body_def zero_packet_def)

lemma sample_window_base:
  assumes "0 \<le> a" "a \<le> s" "s < r" "r < 514" "1 \<le> k" "k \<le> a + 1"
  shows "win_base (sample_window a s r (of_int k))"
proof -
  have "is_f32 (of_int k)" using rnd32_int [of k] assms by (simp add: is_f32_def)
  moreover have "(of_int k :: rat) \<le> of_int (a + 1)" "(of_int 1 :: rat) \<le> of_int k"
    using assms(5,6) by (simp_all only: of_int_le_iff)
  ultimately show ?thesis
    using assms(1-4) sample_data_packet by (auto simp: win_base_def sample_window_def)
qed

lemma sample_window_inv:
  assumes "0 \<le> a" "a \<le> s" "s < r" "r < 514" "1 \<le> k" "k \<le> a + 1"
  shows "win_inv (sample_window a s r (of_int k))"
proof -
  have "sample_window a s r (of_int k) = recount (sample_window a s r (of_int k))"
    by (simp add: sample_window_def recount_def)
  with recount_inv [OF sample_window_base [OF assms]] show ?thesis by simp
qed

lemma sample_window_simps [simp]:
  "LPA (sample_window a s r cw) = a" "LPS (sample_window a s r cw) = s" "LPR (sample_window a s r cw) = r"
  "congwin_size (sample_window a s r cw) = cw" "ssthresh (sample_window a s r cw) = 64"
  "sender_buf (sample_window a s r cw) = (\<lambda>i. if 1 \<le> i \<and> i < r then Some (sample_data i) else None)"
  by (simp_all add: sample_window_def)

text \<open>
  An acknowledgement that names a packet of the window never faults and keeps the
  window invariant: the acknowledged pointer moves forward to it or stays, the packets ready
  to send stay, and the truncated congestion window is returned. Congestion window and send
  credit stay within their bounds whatever the order, duplication or staleness of ACKs.
\<close>

theorem ack_keeps_window:
  assumes "win_inv W" and "uint (ACK_Num ack) < LPR W"
  shows "\<exists>r W'. upon_receive_ACK ack W = Inr (r, W') \<and> win_inv W' \<and> LPR W' = LPR W \<and>
    LPA W' = max (LPA W) (uint (ACK_Num ack)) \<and> r = \<lfloor>congwin_size W'\<rfloor>"
  using upon_receive_ACK_inv [OF assms(1), of ack] assms(2) win_base_bounds(5)
  by (fastforce simp: ack_ok_def fl_trunc_def win_inv_def)

theorem ack_keeps_window_witness:
  "\<exists>r W'. upon_receive_ACK (form_ACK_pack 3) (sample_window 1 4 9 2) = Inr (r, W') \<and> win_inv W' \<and> LPA W' = 3"
  using ack_keeps_window [OF sample_window_inv [of 1 4 9 2], of "form_ACK_pack 3"]
  by (auto simp: form_ACK_pack_def)

text \<open>
  C38. The ACK number comes from the network and only its being below 1 is checked: a number
  past the packets of the window dereferences a null slot, one past the array reads out of
  bounds, so one datagram stops the sending peer.
\<close>

theorem ack_out_of_window_faults:
  assumes "win_base W" and "LPR W \<le> uint (ACK_Num ack)"
    and "\<And>i. LPR W \<le> i \<Longrightarrow> sender_buf W i = None"
  shows "upon_receive_ACK ack W =
    Inl (if uint (ACK_Num ack) < SENDER_BUF_SIZE then NullDeref else OutOfBounds)"
proof -
  have "1 \<le> uint (ACK_Num ack)" using assms(2) win_base_bounds [OF assms(1)] by linarith
  then have "\<not> ACK_Num ack < 1" by (simp add: word_less_def)
  with assms show ?thesis
    by (simp add: upon_receive_ACK_def Let_def slot_deref_def slot_get_def guard_def)
qed

theorem ack_out_of_window_faults_witness:
  "upon_receive_ACK (form_ACK_pack 20) (sample_window 1 4 9 2) = Inl NullDeref \<and>
   upon_receive_ACK (form_ACK_pack 600) (sample_window 1 4 9 2) = Inl OutOfBounds"
  using ack_out_of_window_faults [OF sample_window_base [of 1 4 9 2], of "form_ACK_pack 20"]
    ack_out_of_window_faults [OF sample_window_base [of 1 4 9 2], of "form_ACK_pack 600"]
  by (simp add: form_ACK_pack_def)

text \<open>
  \<open>window_sender\<close> sends exactly the next \<open>min (count, packets left)\<close> packets, in
  sequence order, each once and unchanged, reports how many, and never has more packets in
  flight than the congestion window allows; the credit is used up afterwards.
\<close>

theorem window_sender_bursts:
  assumes "win_inv W"
  defines "k \<equiv> min (nat (sendable W)) (nat (LPR W - 1 - LPS W))"
  shows "\<exists>W' w'. window_sender w W = Inr (int k, W', w') \<and> win_inv W' \<and> LPS W' = LPS W + int k \<and>
    LPA W' = LPA W \<and> sendable W' = 0 \<and> (k = 0 \<or> LPS W' - LPA W' \<le> \<lfloor>congwin_size W'\<rfloor>) \<and>
    sent w' = sent w @ concat (map (\<lambda>j. emitted (router w) (dst W) (slot_bytes W (LPS W + 1 + int j))) [0..<k])"
proof -
  from window_sender_sends [OF assms(1), of w] obtain W' w' where s:
    "window_sender w W = Inr (int k, W', w')" "same_but_sent W W'" "sendable W' = 0" "LPS W' = LPS W + int k"
    "sent w' = sent w @ burst (router w) W (LPS W) k" unfolding k_def by blast
  moreover have "win_inv W'" using window_sender_inv [OF assms(1), of w] s(1) by auto
  moreover have "k = 0 \<or> LPS W' - LPA W' \<le> \<lfloor>congwin_size W'\<rfloor>"
    using assms(1) s(2,4) by (auto simp: k_def win_inv_def same_but_sent_def)
  ultimately show ?thesis by (auto simp: same_but_sent_def burst_def)
qed

theorem window_sender_bursts_witness:
  "\<exists>W' w'. window_sender quiet_world (sample_window 2 2 9 3) = Inr (3, W', w') \<and> LPS W' = 5"
proof -
  have "sendable (sample_window 2 2 9 3) = 3"
    using recount_fits [OF sample_window_base [of 2 2 9 3]] by (simp add: sample_window_def recount_def)
  with window_sender_bursts [OF sample_window_inv [of 2 2 9 3], of quiet_world] show ?thesis by auto
qed

text \<open>
  A timeout of the oldest packet in flight restarts slow start: threshold half the
  window but at least two, window one, everything in flight to be sent again, one packet
  of credit. Otherwise the window is left exactly as it was; nothing is sent either way.
\<close>

theorem timeout_restarts_slow_start:
  fixes w :: world
  assumes "win_inv W" and "LPA W + 1 < LPR W" and "sender_buf W (LPA W + 1) = Some p"
  defines "late \<equiv> 0 < timestamp p \<and> LPA W + 1 \<le> LPS W \<and> 1 \<le> LPA W \<and> fst (time_now w) - timestamp p > TIMEOUT_SEC"
  shows "\<exists>W'. check_datapack_timeout w W = Inr (if late then 1 else 0, W', snd (time_now w)) \<and> win_inv W' \<and>
    (if late then ssthresh W' = max 2 (fl_trunc (fl_div (congwin_size W) 2)) \<and> congwin_size W' = 1 \<and>
                  LPS W' = LPA W \<and> LPA W' = LPA W \<and> sendable W' = 1
     else W' = W)"
proof -
  have b: "win_base W" using assms(1) by (simp add: win_inv_def)
  note bb = win_base_bounds [OF b]
  show ?thesis
  proof (cases late)
    case True
    then obtain W' where "slow_start W = Inr W'" "win_inv W'" "LPA W' = LPA W" "LPS W' = LPA W"
      "LPR W' = LPR W" "congwin_size W' = 1" "ssthresh W' = halved_threshold W" "sendable W' = 1"
      using slow_start_inv [OF b] unfolding late_def by metis
    moreover have "halved_threshold W = max 2 (fl_trunc (fl_div (congwin_size W) 2))"
      by (simp add: halved_threshold_def Let_def max_def)
    ultimately show ?thesis using True assms(2,3) bb
      by (auto simp: late_def check_datapack_timeout_def slot_simps Let_def time_now_def)
  next
    case False
    with assms bb show ?thesis
      by (auto simp: late_def check_datapack_timeout_def slot_simps Let_def time_now_def)
  qed
qed

theorem timeout_restarts_slow_start_witness:
  "\<exists>W'. check_datapack_timeout quiet_world
      ((sample_window 2 4 9 3)\<lparr>sender_buf := (sender_buf (sample_window 2 4 9 3))(3 := Some ((sample_data 3)\<lparr>timestamp := 90\<rparr>))\<rparr>)
    = Inr (1, W', snd (time_now quiet_world)) \<and> LPS W' = 2 \<and> congwin_size W' = 1"
proof -
  let ?W = "(sample_window 2 4 9 3)\<lparr>sender_buf := (sender_buf (sample_window 2 4 9 3))(3 := Some ((sample_data 3)\<lparr>timestamp := 90\<rparr>))\<rparr>"
  have "win_base (sample_window 2 4 9 3)" using sample_window_base [of 2 4 9 3] by simp
  then have "win_base ?W"
    by (rule slot_update_data [where p = "sample_data 3"]) (simp_all add: sample_data_packet)
  moreover have "?W = recount ?W" by (simp add: sample_window_def recount_def)
  ultimately have "win_inv ?W" using recount_inv by metis
  from timeout_restarts_slow_start [OF this, of "(sample_data 3)\<lparr>timestamp := 90\<rparr>" quiet_world] show ?thesis
    by (auto simp: time_now_def quiet_world_def TIMEOUT_SEC_def)
qed

text \<open>
  The first packet of a window is never retransmitted: while nothing is acknowledged, a
  timeout check changes nothing whatever the time and however often it is made.
\<close>

theorem first_packet_never_times_out:
  assumes "win_base W" and "LPA W = 0" and "1 < LPR W"
  shows "check_datapack_timeout w W = Inr (0, W, snd (time_now w))"
  by (rule check_datapack_timeout_first [OF assms])

theorem first_packet_never_times_out_witness:
  "\<exists>w'. check_datapack_timeout quiet_world (sample_window 0 1 9 1) = Inr (0, sample_window 0 1 9 1, w')"
  using first_packet_never_times_out [OF sample_window_base [of 0 1 9 1], of quiet_world] by simp

text \<open>
  C37. Growth of the congestion window for \<open>n\<close> newly acknowledged packets: in slow start
  by \<open>n\<close>, above the threshold by \<open>n / cw\<close> and capped at 128 (each operation rounded to
  \<open>float\<close>); it never exceeds one more than the packets acknowledged in all.
\<close>

theorem congestion_growth:
  assumes "win_base W" and "LPA W < uint (ACK_Num ack)" and "uint (ACK_Num ack) \<le> LPS W"
  defines "n \<equiv> uint (ACK_Num ack) - LPA W" and "cw \<equiv> congwin_size W"
  shows "\<exists>r W'. upon_receive_ACK ack W = Inr (r, W') \<and>
    congwin_size W' = (if cw \<le> of_int (ssthresh W) then fl_add cw (of_int n)
                       else min 128 (fl_add cw (fl_mul (fl_div 1 cw) (of_int n)))) \<and>
    1 \<le> congwin_size W' \<and> congwin_size W' \<le> of_int (LPA W' + 1)"
proof -
  note bb = win_base_bounds [OF assms(1)]
  let ?c = "uint (ACK_Num ack)"
  have c: "1 \<le> ?c" "?c < LPR W" "?c < 514" using assms(2,3) bb by linarith+
  obtain p where p: "sender_buf W ?c = Some p" using win_base_slot [OF assms(1) c(1,2)] by blast
  note num = ack_numbers [OF c(3) bb(1)] and lps = ack_numbers(2) [OF c(3), of "LPS W"]
  have "0 \<le> n" "n < 2 ^ 24" "0 \<le> ssthresh W" "ssthresh W < 2 ^ 24"
    using assms(1,2) c bb by (auto simp: n_def win_base_def)
  then have e: "fl_of_int n = of_int n" "fl_of_int (ssthresh W) = of_int (ssthresh W)"
    by (simp_all only: fl_of_int_exact)
  have g: "grown W n = (if cw \<le> of_int (ssthresh W) then fl_add cw (of_int n)
      else min 128 (fl_add cw (fl_mul (fl_div 1 cw) (of_int n))))"
    by (auto simp: grown_def Let_def e cw_def TCP_MAXWIN_def min_def)
  have "\<exists>W'. upon_receive_ACK ack W = Inr (fl_trunc (congwin_size W'), W') \<and> congwin_size W' = grown W n \<and> LPA W' = ?c"
    using c p num lps bb assms(2,3)
    by (simp add: upon_receive_ACK_def Let_def slot_simps grown_def n_def)
  moreover have "1 \<le> grown W n" "grown W n \<le> of_int (LPA W + n + 1)"
    using grown_bounds [OF assms(1), of n] assms(2) c by (auto simp: n_def)
  ultimately show ?thesis unfolding g by (auto simp: n_def)
qed

theorem congestion_growth_witness:
  "\<exists>r W'. upon_receive_ACK (form_ACK_pack 5) (sample_window 3 6 9 4) = Inr (r, W') \<and> congwin_size W' = 6"
  using congestion_growth [OF sample_window_base [of 3 6 9 4], of "form_ACK_pack 5"] rnd32_int [of 6]
  by (auto simp: form_ACK_pack_def fl_add_def)

end
