(* ===== verification/WindowFill.thy ===== *)
theory WindowFill
  imports Window
begin

text \<open>
  Filling a fresh window with one chunk (\<^verbatim>\<open>p2p_sender\<close>, \<^verbatim>\<open>send_onechunk\<close>): a chunk of
  512 KB becomes exactly 512 DATA packets in the slots 1 to 512, in order, and the window
  that results satisfies the window invariant. The second half drives a window by
  arbitrary sequences of sends, timeouts and acknowledgements.
\<close>

section \<open>Fragmentation\<close>

text \<open>The part of the data that travels in the packet with sequence number \<open>i\<close>.\<close>

definition fragment :: "byte list \<Rightarrow> int \<Rightarrow> byte list" where
  "fragment data i = take 1024 (drop (1024 * nat (i - 1)) data)"

definition carries :: "byte list \<Rightarrow> int \<Rightarrow> packet option \<Rightarrow> bool" where
  "carries data i s \<longleftrightarrow> (\<exists>p. s = Some p \<and> data_packet i p \<and> payload p = Some (fragment data i)
     \<and> timestamp p = 0 \<and> ACKed_num p = 0)"

lemma pload_len_1024 [simp]: "pload_len = 1024"
  by (simp add: pload_len_def MAX_PACKET_SIZE_def HEADER_LEN_def)

lemma form_DATA_pack_result:
  assumes "1 \<le> length bs" and "length bs \<le> 1024"
  shows "\<exists>p. form_DATA_pack bs (int (length bs)) i = Inr p \<and> data_packet i p \<and> payload p = Some bs \<and>
    timestamp p = 0 \<and> ACKed_num p = 0"
  using assms
  by (auto simp: form_DATA_pack_def mem_read_def data_packet_def wf_packet_def overhead_def body_def
      zero_packet_def HEADER_LEN_def unat_of_nat unat_word_ariths)

lemma put_packet_carries:
  assumes "1 \<le> n" "n \<le> 1024" and "off = 1024 * (LPR SW - 1)" and "1 \<le> LPR SW" "LPR SW \<le> 513"
    and "off + n \<le> int (length data)" and "n = 1024 \<or> off + n = int (length data)"
  shows "\<exists>s. put_packet (data @ r) SW off n =
      Inr (SW\<lparr>sender_buf := (sender_buf SW)(LPR SW := s), LPR := LPR SW + 1\<rparr>) \<and> carries data (LPR SW) s"
proof -
  let ?f = "fragment data (LPR SW)"
  have o: "nat off = 1024 * nat (LPR SW - 1)" using assms(3,4) by (simp add: nat_mult_distrib)
  have n: "length ?f = nat n" "1 \<le> length ?f" "length ?f \<le> 1024"
    using assms by (auto simp: fragment_def o [symmetric])
  have "take (nat n) (drop (nat off) data) = ?f"
    using assms by (auto simp: fragment_def o [symmetric])
  then have rd: "mem_read (data @ r) off n = Inr ?f"
    using assms by (simp add: mem_read_def)
  obtain p where "form_DATA_pack ?f n (LPR SW) = Inr p" "data_packet (LPR SW) p"
    "payload p = Some ?f" "timestamp p = 0" "ACKed_num p = 0"
    using form_DATA_pack_result [OF n(2,3), of "LPR SW"] n(1) assms(1) by auto
  with rd assms(4,5) show ?thesis
    by (auto simp: put_packet_def slot_set_in carries_def)
qed

text \<open>
  What a call of \<open>p2p_sender\<close> has done when the slots below \<open>1 + m\<close> are filled.
\<close>

definition filled :: "byte list \<Rightarrow> Window \<Rightarrow> int \<Rightarrow> Window \<Rightarrow> bool" where
  "filled data SW m W \<longleftrightarrow>
     (\<exists>b. W = SW\<lparr>sender_buf := b, LPR := m + 1\<rparr> \<and> (\<forall>i. 1 \<le> i \<and> i \<le> m \<longrightarrow> carries data i (b i)))"

lemma filled_put:
  assumes "filled data SW m W" and "0 \<le> m" and "carries data (m + 1) s"
  shows "filled data SW (m + 1) (W\<lparr>sender_buf := (sender_buf W)(LPR W := s), LPR := LPR W + 1\<rparr>)"
proof -
  obtain b where b: "W = SW\<lparr>sender_buf := b, LPR := m + 1\<rparr>" "\<And>i. 1 \<le> i \<Longrightarrow> i \<le> m \<Longrightarrow> carries data i (b i)"
    using assms(1) by (auto simp: filled_def)
  have "carries data i ((b(m + 1 := s)) i)" if "1 \<le> i" "i \<le> m + 1" for i
    using that b(2) assms(3) by (cases "i = m + 1") auto
  with b(1) show ?thesis
    unfolding filled_def by (intro exI [of _ "b(m + 1 := s)"]) (cases SW, simp)
qed

lemma p2p_loop_fills:
  assumes "filled data SW m W" and "0 \<le> m" and "len = int (length data)" and "len \<le> 524288"
    and "1024 * m < len"
  shows "\<exists>W' m'. p2p_loop (data @ r) W len (1024 * m) = Inr (W', 1024 * m', False) \<and> filled data SW m' W' \<and>
    m' = (len - 1) div 1024"
  using assms
proof (induction "nat (len - 1024 * m)" arbitrary: W m rule: less_induct)
  case less
  have lpr: "LPR W = m + 1" using less.prems(1) by (auto simp: filled_def)
  show ?case
  proof (cases "len - 1024 * m > 1024")
    case False
    then have "m = (len - 1) div 1024" using less.prems by linarith
    with False less.prems show ?thesis by (subst p2p_loop.simps) auto
  next
    case True
    obtain s where s: "put_packet (data @ r) W (1024 * m) 1024 =
        Inr (W\<lparr>sender_buf := (sender_buf W)(LPR W := s), LPR := LPR W + 1\<rparr>)" "carries data (LPR W) s"
      using put_packet_carries [of 1024 "1024 * m" W data r] lpr True less.prems by auto
    let ?W = "W\<lparr>sender_buf := (sender_buf W)(LPR W := s), LPR := LPR W + 1\<rparr>"
    have f: "filled data SW (m + 1) ?W"
      using filled_put [OF less.prems(1,2)] s(2) lpr by simp
    have "p2p_loop (data @ r) W len (1024 * m) = p2p_loop (data @ r) ?W len (1024 * (m + 1))"
      using True s(1) lpr less.prems by (subst p2p_loop.simps) (simp add: algebra_simps)
    moreover have "\<exists>W' m'. p2p_loop (data @ r) ?W len (1024 * (m + 1)) = Inr (W', 1024 * m', False) \<and>
        filled data SW m' W' \<and> m' = (len - 1) div 1024"
      using True less.prems by (intro less.hyps f) auto
    ultimately show ?thesis by simp
  qed
qed

lemma p2p_sender_fills:
  assumes "LPR SW = 1" and "1 \<le> length data" "length data \<le> 524288"
  defines "m \<equiv> (int (length data) - 1) div 1024 + 1"
  shows "\<exists>W. p2p_sender (data @ r) SW (int (length data)) = Inr (int (length data), W) \<and> filled data SW m W"
proof -
  let ?len = "int (length data)"
  have f0: "filled data SW 0 SW" using assms(1) by (cases SW) (auto simp: filled_def)
  have "0 < ?len" "?len \<le> 524288" using assms(2,3) by linarith+
  then obtain W where W: "p2p_loop (data @ r) SW ?len 0 = Inr (W, 1024 * (m - 1), False)" "filled data SW (m - 1) W"
    using p2p_loop_fills [OF f0 _ refl] by (auto simp: m_def simp del: of_nat_0_less_iff length_greater_0_conv)
  have lpr: "LPR W = m" using W(2) by (auto simp: filled_def)
  have m: "1 \<le> m" "m \<le> 512" "1024 * (m - 1) < ?len" "?len \<le> 1024 * m"
    using assms(2,3) by (auto simp: m_def)
  obtain s where s: "put_packet (data @ r) W (1024 * (m - 1)) (?len - 1024 * (m - 1)) =
      Inr (W\<lparr>sender_buf := (sender_buf W)(LPR W := s), LPR := LPR W + 1\<rparr>)" "carries data (LPR W) s"
    using put_packet_carries [of "?len - 1024 * (m - 1)" "1024 * (m - 1)" W data r] lpr m by auto
  have "filled data SW m (W\<lparr>sender_buf := (sender_buf W)(LPR W := s), LPR := LPR W + 1\<rparr>)"
    using filled_put [OF W(2)] s(2) lpr m by simp
  with W s m lpr show ?thesis by (simp add: p2p_sender_def)
qed

text \<open>A freshly created window filled with data satisfies the window invariant.\<close>

lemma filled_inv:
  assumes "filled data SW m W" and "1 \<le> m" "m \<le> 512"
    and "LPA SW = 0" "LPS SW = 0" "sendable SW = 1" "congwin_size SW = 1" "ssthresh SW = 64"
  shows "win_inv W"
proof -
  obtain b where b: "W = SW\<lparr>sender_buf := b, LPR := m + 1\<rparr>" "\<And>i. 1 \<le> i \<Longrightarrow> i \<le> m \<Longrightarrow> carries data i (b i)"
    using assms(1) by (auto simp: filled_def)
  have "\<exists>p. b i = Some p \<and> data_packet i p" if "1 \<le> i" "i < m + 1" for i
    using b(2) [of i] that by (auto simp: carries_def)
  with assms(2-) is_f32_1 show ?thesis by (simp add: b(1) win_inv_def win_base_def)
qed

lemma create_SW_result:
  assumes "20 \<le> length hash"
  shows "\<exists>fid. create_SW w hash to = Inr (\<lparr>win_hash = take 20 hash, dst = to, flowid = fid, ssthresh = 64,
    LPA = 0, LPS = 0, LPR = 1, sendable = 1, congwin_size = 1, sender_buf = \<lambda>_. None\<rparr>, w\<lparr>ticks := Suc (ticks w)\<rparr>)"
  using assms
  by (auto simp: create_SW_def mem_read_def get_id_bytime_def INITIAL_CONGESTION_THRESHOLD_def
      split: prod.split)

section \<open>Sending a chunk of the data file\<close>

text \<open>
  The buffer that \<open>send_onechunk\<close> hands over is the chunk with the given identifier,
  padded with zeros when the data file ends inside it.
\<close>

definition chunk_image :: "byte list \<Rightarrow> int \<Rightarrow> byte list" where
  "chunk_image datafile k =
     (let c = take 524288 (drop (524288 * nat k) datafile) in c @ replicate (524288 - length c) 0)"

lemma length_chunk_image [simp]: "length (chunk_image f k) = 524288"
  by (simp add: chunk_image_def Let_def)

lemma pread_chunk_image:
  assumes "0 \<le> k"
  shows "pread_chunk f (k * CHUNK_SIZE) = chunk_image f k @ [0]"
proof -
  have n: "nat (k * 524288) = 524288 * nat k" using assms by (simp add: nat_mult_distrib)
  show ?thesis
    using assms
    by (simp add: pread_chunk_def chunk_image_def CHUNK_SIZE_def Let_def n Suc_diff_le replicate_append_same
        flip: replicate_Suc)
qed

text \<open>
  The whole of \<open>init_upload\<close>'s preparation: a fresh window for a chunk identifier whose
  file offset fits into an \<open>int\<close> is filled with the 512 packets of that chunk.
\<close>

lemma send_onechunk_fills:
  assumes "fs loc = Some master" and "read_master_line master = Inr name" and "fs name = Some datafile"
    and "0 \<le> k" "k < 4096" and "LPR SW = 1"
  shows "\<exists>W. send_onechunk fs SW k loc = Inr (1, W) \<and> filled (chunk_image datafile k) SW 512 W"
proof -
  have "int_mult k CHUNK_SIZE = Inr (k * CHUNK_SIZE)"
    using assms(4,5) by (simp add: int_mult_def CHUNK_SIZE_def)
  moreover obtain W where "p2p_sender (chunk_image datafile k @ [0]) SW CHUNK_SIZE = Inr (CHUNK_SIZE, W)"
    "filled (chunk_image datafile k) SW 512 W"
    using p2p_sender_fills [OF assms(6), of "chunk_image datafile k"] by (auto simp: CHUNK_SIZE_def)
  ultimately show ?thesis
    using assms(1-3) by (simp add: send_onechunk_def pread_chunk_image [OF assms(4)])
qed

lemma send_onechunk_overflow:
  assumes "fs loc = Some master" and "read_master_line master = Inr name" and "fs name = Some datafile"
    and "4096 \<le> k"
  shows "send_onechunk fs SW k loc = Inl SignedOverflow"
  using assms by (simp add: send_onechunk_def int_mult_def CHUNK_SIZE_def)

section \<open>The window as a machine\<close>

text \<open>
  What the peer does with a window: it sends, it checks the oldest packet in flight for a
  timeout, and it handles acknowledgements. The main loop takes the window out of the list
  when everything is acknowledged, so a timeout check meets a window with a packet left.
\<close>

datatype window_event = SendBurst | TimeoutCheck | Ack packet

type_synonym window_state = "Window \<times> world"

fun window_step :: "window_state \<Rightarrow> window_event \<Rightarrow> window_state res" where
  "window_step (W, w) SendBurst = ebind (window_sender w W) (\<lambda>(_, W', w'). Inr (W', w'))"
| "window_step (W, w) TimeoutCheck = ebind (check_datapack_timeout w W) (\<lambda>(_, W', w'). Inr (W', w'))"
| "window_step (W, w) (Ack a) = ebind (upon_receive_ACK a W) (\<lambda>(_, W'). Inr (W', w))"

fun window_adm :: "window_state \<Rightarrow> window_event \<Rightarrow> bool" where
  "window_adm (W, w) SendBurst = True"
| "window_adm (W, w) TimeoutCheck = (LPA W + 1 < LPR W)"
| "window_adm (W, w) (Ack a) = ack_ok W a"

definition window_ok :: "Window \<Rightarrow> window_state \<Rightarrow> bool" where
  "window_ok W0 s \<longleftrightarrow> (case s of (W, w) \<Rightarrow> win_inv W \<and> LPR W = LPR W0 \<and> LPA W0 \<le> LPA W)"

interpretation win: safe_machine window_step window_adm "window_ok W0" for W0
proof unfold_locales
  fix s e assume ok: "window_ok W0 s" and adm: "window_adm s e"
  obtain W w where s: "s = (W, w)" by (cases s)
  have i: "win_inv W" "LPR W = LPR W0" "LPA W0 \<le> LPA W" using ok by (auto simp: window_ok_def s)
  have "\<exists>W' w'. window_step (W, w) e = Inr (W', w') \<and> win_inv W' \<and> LPR W' = LPR W \<and> LPA W \<le> LPA W'"
  proof (cases e)
    case SendBurst
    obtain r W' w' where "window_sender w W = Inr (r, W', w')" "win_inv W'"
      using window_sender_inv [OF i(1)] by blast
    moreover have "LPR W' = LPR W" "LPA W' = LPA W"
      using window_sender_sends [OF i(1), of w] calculation(1) by (auto simp: same_but_sent_def)
    ultimately show ?thesis using SendBurst by simp
  next
    case TimeoutCheck
    with adm have "LPA W + 1 < LPR W" by (simp add: s)
    from check_datapack_timeout_inv [OF i(1) this, of w] show ?thesis
      unfolding TimeoutCheck by fastforce
  next
    case (Ack a)
    with adm have "ack_ok W a" by (simp add: s)
    from upon_receive_ACK_inv [OF i(1) this] show ?thesis
      unfolding Ack by (fastforce simp: max_def)
  qed
  with i show "\<exists>s'. window_step s e = Inr s' \<and> window_ok W0 s'"
    by (fastforce simp: s window_ok_def)
qed

section \<open>A lossless transfer\<close>

text \<open>An acknowledgement changes no packet on the wire and no destination.\<close>

lemma slot_bytes_ACKed:
  "sender_buf W i = Some p \<Longrightarrow>
   slot_bytes (W\<lparr>sender_buf := (sender_buf W)(i := Some (p\<lparr>ACKed_num := n\<rparr>))\<rparr>) = slot_bytes W"
  by (rule ext) (simp add: slot_bytes_def wire_bytes_def wire_header_def body_def)

lemma slot_bytes_cong: "sender_buf W' = sender_buf W \<Longrightarrow> slot_bytes W' = slot_bytes W"
  by (rule ext) (simp add: slot_bytes_def)

lemma upon_receive_ACK_last:
  assumes i: "win_inv W" and c: "LPA W < LPS W"
  shows "\<exists>r W'. upon_receive_ACK (form_ACK_pack (LPS W)) W = Inr (r, W') \<and> win_inv W' \<and>
    LPA W' = LPS W \<and> LPS W' = LPS W \<and> LPR W' = LPR W \<and> dst W' = dst W \<and> slot_bytes W' = slot_bytes W"
proof -
  let ?a = "form_ACK_pack (LPS W)"
  have b: "win_base W" using i by (simp add: win_inv_def)
  note bb = win_base_bounds [OF b]
  have u: "uint (ACK_Num ?a) = LPS W"
    using bb by (simp add: form_ACK_pack_def unsigned_of_int take_bit_int_eq_self)
  have "ack_ok W ?a" using u bb by (simp add: ack_ok_def)
  from upon_receive_ACK_inv [OF i this] obtain r W' where W':
    "upon_receive_ACK ?a W = Inr (r, W')" "win_inv W'" "LPR W' = LPR W" "LPA W' = LPS W"
    using u c by auto
  obtain p where p: "sender_buf W (LPS W) = Some p"
    using win_base_slot [OF b, of "LPS W"] bb c by auto
  have lt: "uint (ACK_Num ?a) < 514" using u bb by simp
  note n = ack_numbers [OF lt bb(1), unfolded u] and n2 = ack_numbers(2) [OF lt, of "LPS W", unfolded u]
  obtain V where V: "upon_receive_ACK ?a W = Inr (fl_trunc (congwin_size V), V)"
    and eq: "\<exists>g. V = recount (W\<lparr>sender_buf := (sender_buf W)(LPS W := Some (p\<lparr>ACKed_num := ACKed_num p + 1\<rparr>)),
        LPA := LPS W, congwin_size := g\<rparr>)"
    using n n2 p bb c
    by (auto simp: upon_receive_ACK_def Let_def slot_simps u)
  have "W' = V" using V W'(1) by simp
  moreover have "LPS V = LPS W \<and> dst V = dst W" using eq by auto
  moreover have "slot_bytes V = slot_bytes W"
    using eq slot_bytes_ACKed [OF p] by (fastforce simp: recount_def slot_bytes_def fun_eq_iff)
  ultimately show ?thesis using W' by auto
qed

text \<open>
  One round of a transfer without loss: everything allowed is sent, and the receiver
  acknowledges the last packet sent.
\<close>

definition lossless_round :: "window_state \<Rightarrow> window_state res" where
  "lossless_round s = ebind (window_step s SendBurst) (\<lambda>(W, w).
     window_step (W, w) (Ack (form_ACK_pack (LPS W))))"

fun lossless :: "nat \<Rightarrow> window_state \<Rightarrow> window_state res" where
  "lossless 0 s = Inr s"
| "lossless (Suc n) s =
     (if LPA (fst s) = LPR (fst s) - 1 then Inr s else ebind (lossless_round s) (lossless n))"

lemma burst_append: "burst g W i (m + n) = burst g W i m @ burst g W (i + int m) n"
proof (induction m arbitrary: i)
  case (Suc m)
  have "burst g W i (Suc m + n) = emitted g (dst W) (slot_bytes W (i + 1)) @ burst g W (i + 1) (m + n)"
    by (simp add: burst_Suc)
  then show ?case by (simp add: Suc.IH burst_Suc ac_simps)
qed (simp add: burst_def)

lemma burst_cong: "dst W' = dst W \<Longrightarrow> slot_bytes W' = slot_bytes W \<Longrightarrow> burst g W' i n = burst g W i n"
  by (simp add: burst_def)

lemma lossless_round_advances:
  assumes i: "win_inv W" and e: "LPS W = LPA W" and l: "LPA W < LPR W - 1"
  shows "\<exists>W' w' k. lossless_round (W, w) = Inr (W', w') \<and> win_inv W' \<and> LPS W' = LPA W' \<and>
    LPA W' = LPA W + int k \<and> 0 < k \<and> LPR W' = LPR W \<and> dst W' = dst W \<and> slot_bytes W' = slot_bytes W \<and>
    router w' = router w \<and> sent w' = sent w @ burst (router w) W (LPA W) k"
proof -
  define k where "k = min (nat (sendable W)) (nat (LPR W - 1 - LPS W))"
  obtain W1 w1 where s: "window_sender w W = Inr (int k, W1, w1)"
    "same_but_sent W W1" "LPS W1 = LPS W + int k" "router w1 = router w"
    "sent w1 = sent w @ burst (router w) W (LPS W) k"
    using window_sender_sends [OF i, of w] by (auto simp: k_def)
  have i1: "win_inv W1" using window_sender_inv [OF i, of w] s(1) by auto
  have "0 < k" using i e l by (auto simp: k_def win_inv_def)
  with s e have "LPA W1 < LPS W1" by (simp add: same_but_sent_def)
  from upon_receive_ACK_last [OF i1 this] obtain r W' where
    "upon_receive_ACK (form_ACK_pack (LPS W1)) W1 = Inr (r, W')" "win_inv W'" "LPA W' = LPS W1"
    "LPS W' = LPS W1" "LPR W' = LPR W1" "dst W' = dst W1" "slot_bytes W' = slot_bytes W1" by blast
  with s e \<open>0 < k\<close> show ?thesis
    by (intro exI [of _ W'] exI [of _ w1] exI [of _ k]) (simp add: lossless_round_def same_but_sent_def)
qed

lemma lossless_completes:
  assumes "win_inv W" and "LPS W = LPA W" and "nat (LPR W - 1 - LPA W) \<le> n"
  shows "\<exists>W' w'. lossless n (W, w) = Inr (W', w') \<and> win_inv W' \<and> LPA W' = LPR W' - 1 \<and> LPR W' = LPR W \<and>
    sent w' = sent w @ burst (router w) W (LPA W) (nat (LPR W - 1 - LPA W))"
  using assms
proof (induction n arbitrary: W w)
  case 0
  then have "LPA W = LPR W - 1" using win_base_bounds(2,3) [of W] by (auto simp: win_inv_def)
  with 0 show ?case by (simp add: burst_def)
next
  case (Suc n)
  have b: "LPS W < LPR W" using Suc.prems(1) by (simp add: win_inv_def win_base_def)
  show ?case
  proof (cases "LPA W = LPR W - 1")
    case True
    with Suc.prems show ?thesis by (simp add: burst_def)
  next
    case False
    then have l: "LPA W < LPR W - 1" using b Suc.prems(2) by simp
    from lossless_round_advances [OF Suc.prems(1,2) l, of w] obtain V v k where r:
      "lossless_round (W, w) = Inr (V, v)" "win_inv V" "LPS V = LPA V" "LPA V = LPA W + int k" "0 < k"
      "LPR V = LPR W" "dst V = dst W" "slot_bytes V = slot_bytes W" "router v = router w"
      "sent v = sent w @ burst (router w) W (LPA W) k" by blast
    have "LPS V < LPR V" using r(2) by (simp add: win_inv_def win_base_def)
    then have m: "nat (LPR W - 1 - LPA W) = k + nat (LPR V - 1 - LPA V)"
      using r by simp
    have "nat (LPR V - 1 - LPA V) \<le> n" using Suc.prems(3) m r(5) by simp
    from Suc.IH [OF r(2,3) this, of v] obtain W' w' where
      "lossless n (V, v) = Inr (W', w')" "win_inv W'" "LPA W' = LPR W' - 1" "LPR W' = LPR V"
      "sent w' = sent v @ burst (router v) V (LPA V) (nat (LPR V - 1 - LPA V))" by blast
    with r False show ?thesis
      by (simp add: m burst_append burst_cong [OF r(7,8)])
  qed
qed

section \<open>Properties\<close>

text \<open>
  C32. A new window filled from the data file holds exactly the 512 DATA packets of the
  chunk: packet \<open>i\<close> carries the \<open>i\<close>-th KiB of the chunk (zeros past the end of the file)
  with sequence number \<open>i\<close>, and the window satisfies its invariant, for every chunk
  identifier from 0 to 4095.
\<close>

theorem upload_window_filled:
  assumes "20 \<le> length hash" and "fs loc = Some master" and "read_master_line master = Inr name"
    and "fs name = Some datafile" and "0 \<le> k" "k < 4096"
  shows "\<exists>W0 w' W. create_SW w hash to = Inr (W0, w') \<and> send_onechunk fs W0 k loc = Inr (1, W) \<and> win_inv W \<and>
    LPR W = 513 \<and> dst W = to \<and> (\<forall>i. 1 \<le> i \<and> i \<le> 512 \<longrightarrow> (\<exists>p. sender_buf W i = Some p \<and> data_packet i p \<and>
      payload p = Some (fragment (chunk_image datafile k) i)))"
proof -
  obtain W0 w' where c: "create_SW w hash to = Inr (W0, w')" "LPR W0 = 1" "LPA W0 = 0" "LPS W0 = 0"
    "sendable W0 = 1" "congwin_size W0 = 1" "ssthresh W0 = 64" "dst W0 = to"
    using create_SW_result [OF assms(1), of w to] by auto
  obtain W where W: "send_onechunk fs W0 k loc = Inr (1, W)" "filled (chunk_image datafile k) W0 512 W"
    using send_onechunk_fills [OF assms(2-6) c(2)] by blast
  have "win_inv W" using filled_inv [OF W(2)] c by simp
  with c W show ?thesis by (fastforce simp: filled_def carries_def)
qed

text \<open>A master chunk file (\<^verbatim>\<open>F: d\<close>) and the data file that it names.\<close>

definition sample_fs :: "byte list \<Rightarrow> byte list option" where
  "sample_fs = [[109] \<mapsto> [70, 58, 32, 100, 10], [100] \<mapsto> [1, 2, 3]]"

lemma sample_fs_simps: "sample_fs [109] = Some [70, 58, 32, 100, 10]" "sample_fs [100] = Some [1, 2, 3]"
  "read_master_line [70, 58, 32, 100, 10] = Inr [100]"
  by (simp_all add: sample_fs_def read_master_line_def fgets_def cstr_def scan_word_def skip_space_def
      is_space_def Let_def BT_FILENAME_LEN_def)

theorem upload_window_filled_witness:
  "\<exists>W0 w' W. create_SW quiet_world (replicate 20 0) \<lparr>sin_family = AF_INET, sin_port = 9, sin_addr = 8\<rparr> = Inr (W0, w') \<and>
    send_onechunk sample_fs W0 1 [109] = Inr (1, W) \<and> LPR W = 513"
  using upload_window_filled [of "replicate 20 0" sample_fs "[109]" "[70, 58, 32, 100, 10]" "[100]" "[1, 2, 3]" 1
      quiet_world "\<lparr>sin_family = AF_INET, sin_port = 9, sin_addr = 8\<rparr>"] sample_fs_simps
  by fastforce

text \<open>
  The byte offset of a chunk is computed in \<open>int\<close>: from chunk identifier 4096 on, two
  gigabytes into the file, the multiplication overflows.
\<close>

theorem chunk_offset_overflows:
  assumes "fs loc = Some master" and "read_master_line master = Inr name" and "fs name = Some datafile"
    and "4096 \<le> k"
  shows "send_onechunk fs SW k loc = Inl SignedOverflow"
  by (rule send_onechunk_overflow [OF assms])

theorem chunk_offset_overflows_witness:
  "send_onechunk sample_fs (sample_window 0 0 1 1) 4096 [109] = Inl SignedOverflow"
  using chunk_offset_overflows [OF sample_fs_simps(1,3,2), of 4096] by simp





end
