(* ===== verification/Receiver.thy ===== *)
theory Receiver
  imports WindowFill
begin

text \<open>
  The receiving half of \<^verbatim>\<open>sock_io.c\<close>: the reassembly buffer of one download, the
  acknowledgements it sends, the hash check of a complete chunk and its copy into the
  output file.
\<close>

section \<open>Data and operations\<close>

record Recv_State =
  recv_hash :: "byte list"
  recv_buf :: slots
  NPE :: int
  recv_bytesnum :: int

definition create_Recver :: "byte list \<Rightarrow> Recv_State res" where
  "create_Recver hash = ebind (mem_read hash 0 20) (\<lambda>h.
     Inr \<lparr>recv_hash = h, recv_buf = \<lambda>_. None, NPE = 1, recv_bytesnum = 0\<rparr>)"

definition data_bytes :: "packet \<Rightarrow> int" where
  "data_bytes p = int (unat (Pack_len p)) - int (unat (Hd_len p))"

text \<open>
  The loop of an in-order packet: every slot up to the first gap is acknowledged and
  counted. The first argument is the number of turns left before \<open>i\<close> reaches the last slot.
\<close>

fun ack_run :: "nat \<Rightarrow> int \<Rightarrow> sockaddr_in \<Rightarrow> Recv_State \<Rightarrow> world \<Rightarrow> (int \<times> Recv_State \<times> world) res" where
  "ack_run 0 i addr rs w = Inr (i, rs, w)"
| "ack_run (Suc n) i addr rs w =
     ebind (slot_get (recv_buf rs) i) (\<lambda>s. case s of None \<Rightarrow> Inr (i, rs, w)
       | Some p \<Rightarrow> ebind (send_pack w (form_ACK_pack i) addr) (\<lambda>(_, w').
           ack_run n (i + 1) addr (rs\<lparr>recv_bytesnum := recv_bytesnum rs + data_bytes p\<rparr>) w'))"

definition upon_receiving_datapack ::
  "world \<Rightarrow> packet \<Rightarrow> Recv_State \<Rightarrow> sockaddr_in \<Rightarrow> (Recv_State \<times> world) res" where
  "upon_receiving_datapack w pack rs addr =
     (let seq = sint (Seq_Num pack);
          last_ok = (if NPE rs + 30 > 512 then 512 else NPE rs + 30)
      in if seq < 1 \<or> seq > last_ok then Inr (rs, w)
         else ebind (slot_set (recv_buf rs) seq (Some pack)) (\<lambda>b1.
              ebind (slot_set b1 (SENDER_BUF_SIZE - 1) None) (\<lambda>b2.
              let rs1 = rs\<lparr>recv_buf := b2\<rparr>
              in if seq = NPE rs1
                 then ebind (ack_run (nat (SENDER_BUF_SIZE - 1 - seq)) seq addr rs1 w) (\<lambda>(i, rs2, w').
                      Inr (rs2\<lparr>NPE := i\<rparr>, w'))
                 else if seq > NPE rs1
                 then if NPE rs1 > 0
                      then ebind (send_pack w (form_ACK_pack (NPE rs1 - 1)) addr) (\<lambda>(_, w'). Inr (rs1, w'))
                      else Inr (rs1, w)
                 else ebind (send_pack w (form_ACK_pack seq) addr) (\<lambda>(_, w'). Inr (rs1, w')))))"

text \<open>The hex copy of the digest that \<open>check_onechunk_hash\<close> prints goes to a 41-byte array.\<close>

definition check_onechunk_hash :: "byte list \<Rightarrow> byte list \<Rightarrow> bool res" where
  "check_onechunk_hash data pattern =
     ebind (shahash data CHUNK_SIZE) (\<lambda>hash.
     ebind (binary2hex hash 20 (replicate 41 0)) (\<lambda>_.
     ebind (mem_read pattern 0 20) (\<lambda>pt. Inr (hash = pt))))"

text \<open>The loop of \<open>reap\<close> that merges the payloads of the slots \<open>i, \<dots>, i + n - 1\<close>.\<close>

fun merge_loop :: "nat \<Rightarrow> int \<Rightarrow> slots \<Rightarrow> byte list \<Rightarrow> int \<Rightarrow> (byte list \<times> int) res" where
  "merge_loop 0 i b reap_buf buflen = Inr (reap_buf, buflen)"
| "merge_loop (Suc n) i b reap_buf buflen =
     ebind (slot_deref b i) (\<lambda>p.
     ebind (payload_read p 0 (data_bytes p)) (\<lambda>bs.
     ebind (mem_write reap_buf buflen bs) (\<lambda>reap_buf'.
     merge_loop n (i + 1) b reap_buf' (buflen + data_bytes p))))"

section \<open>The output file\<close>

definition os_lseek :: "world \<Rightarrow> int \<Rightarrow> int \<Rightarrow> world" where
  "os_lseek w fd pos =
     (case open_fds w fd of None \<Rightarrow> w
      | Some (name, p) \<Rightarrow> if pos < 0 then w else w\<lparr>open_fds := (open_fds w)(fd \<mapsto> (name, pos))\<rparr>)"

text \<open>Bytes overwritten at a position, with a hole before it filled with zeros.\<close>

definition overwrite :: "byte list \<Rightarrow> nat \<Rightarrow> byte list \<Rightarrow> byte list" where
  "overwrite f pos bs =
     (if bs = [] then f
      else take pos (f @ replicate (pos - length f) 0) @ bs @ drop (pos + length bs) f)"

definition os_write :: "world \<Rightarrow> int \<Rightarrow> byte list \<Rightarrow> int \<times> world" where
  "os_write w fd bs =
     (let r = write_result w (writes w) (length bs); w1 = w\<lparr>writes := Suc (writes w)\<rparr>
      in case open_fds w fd of None \<Rightarrow> (-1, w1)
         | Some (name, pos) \<Rightarrow>
             if r \<le> 0 then (r, w1)
             else (r, w1\<lparr>files := (files w)(name \<mapsto> overwrite (case files w name of None \<Rightarrow> [] | Some f \<Rightarrow> f)
                                                   (nat pos) (take (nat r) bs)),
                         open_fds := (open_fds w)(fd \<mapsto> (name, pos + r))\<rparr>))"

text \<open>
  The write loop of \<open>reap\<close>. \<open>written\<close> is unsigned, so a result of \<open>-1\<close> is added to \<open>ret\<close>
  like a count of one byte less; the loop ends only when \<open>ret\<close> is exactly \<open>CHUNK_SIZE\<close>.
  The fuel bounds the calls of \<open>write\<close>; \<open>Hang\<close> says that it was not enough.
\<close>

fun write_loop :: "nat \<Rightarrow> byte list \<Rightarrow> int \<Rightarrow> int \<Rightarrow> int \<Rightarrow> int \<Rightarrow> world \<Rightarrow> (int \<times> world) res" where
  "write_loop fuel reap_buf offset outfd ret written w =
     (if ret = CHUNK_SIZE then Inr (written, w)
      else case fuel of 0 \<Rightarrow> Inl Hang
      | Suc fuel' \<Rightarrow>
          ebind (int_mult offset CHUNK_SIZE) (\<lambda>off.
          guard (off + ret < 2 ^ 31) SignedOverflow (
          let w1 = os_lseek w outfd (off + ret)
          in ebind (mem_read reap_buf ret (CHUNK_SIZE - ret)) (\<lambda>bs.
             let (r, w2) = os_write w1 outfd bs
             in write_loop fuel' reap_buf offset outfd (if r \<noteq> 0 then ret + r else ret) r w2))))"

declare write_loop.simps [simp del]

definition reap :: "nat \<Rightarrow> Recv_State \<Rightarrow> int \<Rightarrow> int \<Rightarrow> world \<Rightarrow> (int \<times> world) res" where
  "reap fuel recv offset outfd w =
     ebind (merge_loop (nat (NPE recv - 1)) 1 (recv_buf recv) (replicate (nat CHUNK_SIZE + 1) 0) 0)
       (\<lambda>(reap_buf, buflen).
        if buflen = CHUNK_SIZE
        then ebind (check_onechunk_hash reap_buf (recv_hash recv)) (\<lambda>same.
             if same then write_loop fuel reap_buf offset outfd 0 0 w else Inr (-1, w))
        else Inr (0, w))"

section \<open>The receiver invariant\<close>

text \<open>
  Every packet below \<open>NPE\<close> is there, the slot of the next packet expected is empty, and the
  byte count is bounded by what the slots counted so far can add.
\<close>

definition recv_inv :: "Recv_State \<Rightarrow> bool" where
  "recv_inv rs \<longleftrightarrow> 1 \<le> NPE rs \<and> NPE rs \<le> 513 \<and>
     (\<forall>i. 1 \<le> i \<and> i < NPE rs \<longrightarrow> recv_buf rs i \<noteq> None) \<and> recv_buf rs (NPE rs) = None \<and>
     \<bar>recv_bytesnum rs\<bar> \<le> 65535 * (NPE rs - 1)"

definition recv_window :: "Recv_State \<Rightarrow> int \<Rightarrow> bool" where
  "recv_window rs seq \<longleftrightarrow> 1 \<le> seq \<and> seq \<le> 512 \<and> seq \<le> NPE rs + 30"

definition acks :: "spiffy_globals \<Rightarrow> sockaddr_in \<Rightarrow> int \<Rightarrow> nat \<Rightarrow> datagram list" where
  "acks g addr i k = concat (map (\<lambda>j. emitted g addr (wire_bytes (form_ACK_pack (i + int j)))) [0..<k])"

lemma acks_Suc: "acks g addr i (Suc k) = emitted g addr (wire_bytes (form_ACK_pack i)) @ acks g addr (i + 1) k"
proof -
  have "[0..<Suc k] = 0 # map Suc [0..<k]" by (simp add: map_Suc_upt upt_conv_Cons del: upt_Suc)
  then show ?thesis by (simp add: acks_def comp_def ac_simps del: upt_Suc)
qed

lemma acks_0 [simp]: "acks g addr i 0 = []"
  by (simp add: acks_def)

lemma send_ack:
  "\<exists>ret. send_pack w (form_ACK_pack i) addr = Inr (ret, record_sent w (acks (router w) addr i 1))"
  using send_pack_wf [OF form_ACK_pack_wf, of w i addr] by (simp add: acks_Suc)

lemma data_bytes_bound: "\<bar>data_bytes p\<bar> \<le> 65535"
proof -
  have "unat w < 65536" for w :: u16 using unsigned_less [of w, where ?'a = nat] by simp
  from this [of "Pack_len p"] this [of "Hd_len p"] show ?thesis unfolding data_bytes_def by linarith
qed

text \<open>The loop stops at the first gap, having acknowledged every slot before it, in order.\<close>

lemma ack_run_result:
  assumes "1 \<le> i" and "i + int n = 513"
  shows "\<exists>k\<le>n. ack_run n i addr rs w =
      Inr (i + int k, rs\<lparr>recv_bytesnum := recv_bytesnum rs + (\<Sum>j<k. data_bytes (the (recv_buf rs (i + int j))))\<rparr>,
           record_sent w (acks (router w) addr i k)) \<and>
    (\<forall>j. i \<le> j \<and> j < i + int k \<longrightarrow> recv_buf rs j \<noteq> None) \<and> (k = n \<or> recv_buf rs (i + int k) = None)"
  using assms
proof (induction n arbitrary: i rs w)
  case 0
  then show ?case by auto
next
  case (Suc n)
  have s: "slot_get (recv_buf rs) i = Inr (recv_buf rs i)" using Suc.prems by (intro slot_get_in) auto
  show ?case
  proof (cases "recv_buf rs i")
    case None
    with s show ?thesis by (intro exI [of _ 0]) auto
  next
    case (Some p)
    obtain ret where ret: "send_pack w (form_ACK_pack i) addr = Inr (ret, record_sent w (acks (router w) addr i 1))"
      using send_ack by blast
    let ?rs = "rs\<lparr>recv_bytesnum := recv_bytesnum rs + data_bytes p\<rparr>"
    let ?w = "record_sent w (acks (router w) addr i 1)"
    obtain k where k: "k \<le> n" "ack_run n (i + 1) addr ?rs ?w =
      Inr (i + 1 + int k, ?rs\<lparr>recv_bytesnum := recv_bytesnum ?rs + (\<Sum>j<k. data_bytes (the (recv_buf ?rs (i + 1 + int j))))\<rparr>,
           record_sent ?w (acks (router ?w) addr (i + 1) k))"
      "\<And>j. i + 1 \<le> j \<Longrightarrow> j < i + 1 + int k \<Longrightarrow> recv_buf ?rs j \<noteq> None" "k = n \<or> recv_buf ?rs (i + 1 + int k) = None"
      using Suc.IH [of "i + 1" ?rs ?w] Suc.prems by auto
    have sum: "(\<Sum>j<Suc k. data_bytes (the (recv_buf rs (i + int j)))) =
        data_bytes p + (\<Sum>j<k. data_bytes (the (recv_buf rs (i + 1 + int j))))"
      using Some by (simp only: sum.lessThan_Suc_shift) (simp add: ac_simps)
    have "recv_buf rs j \<noteq> None" if "i \<le> j" "j < i + int (Suc k)" for j
      using that k(3) [of j] Some by (cases "j = i") auto
    with k s Some ret sum show ?thesis
      by (intro exI [of _ "Suc k"]) (simp add: acks_Suc ac_simps)
  qed
qed

lemma sum_data_bytes_bound: "\<bar>\<Sum>j<k. data_bytes (f j)\<bar> \<le> 65535 * int k"
proof (induction k)
  case (Suc k)
  then show ?case using data_bytes_bound [of "f k"] by (simp add: abs_le_iff)
qed simp

section \<open>What one DATA packet does\<close>

lemma receive_ignored:
  "\<not> recv_window rs (sint (Seq_Num p)) \<Longrightarrow> recv_inv rs \<Longrightarrow>
   upon_receiving_datapack w p rs addr = Inr (rs, w)"
  by (auto simp: upon_receiving_datapack_def recv_window_def recv_inv_def Let_def)

definition stored :: "packet \<Rightarrow> Recv_State \<Rightarrow> Recv_State" where
  "stored p rs = rs\<lparr>recv_buf := (recv_buf rs)(sint (Seq_Num p) := Some p, 513 := None)\<rparr>"

lemma stored_simps [simp]:
  "NPE (stored p rs) = NPE rs" "recv_bytesnum (stored p rs) = recv_bytesnum rs"
  "recv_hash (stored p rs) = recv_hash rs" "recv_buf (stored p rs) 513 = None"
  by (simp_all add: stored_def)

lemma stored_slot: "sint (Seq_Num p) < 513 \<Longrightarrow> recv_buf (stored p rs) (sint (Seq_Num p)) = Some p"
  by (simp add: stored_def)

lemma stored_other: "j \<noteq> sint (Seq_Num p) \<Longrightarrow> j < 513 \<Longrightarrow> recv_buf (stored p rs) j = recv_buf rs j"
  by (simp add: stored_def)

lemma receive_unfold:
  assumes "recv_inv rs" and "recv_window rs seq" and seq: "sint (Seq_Num p) = seq"
  shows "upon_receiving_datapack w p rs addr =
     (if seq = NPE rs
      then ebind (ack_run (nat (513 - seq)) seq addr (stored p rs) w) (\<lambda>(i, rs2, w'). Inr (rs2\<lparr>NPE := i\<rparr>, w'))
      else ebind (send_pack w (form_ACK_pack (if seq > NPE rs then NPE rs - 1 else seq)) addr)
             (\<lambda>(_, w'). Inr (stored p rs, w')))"
  using assms
  by (auto simp: upon_receiving_datapack_def recv_window_def recv_inv_def Let_def slot_simps stored_def)

lemma receive_out_of_order:
  assumes "recv_inv rs" and "recv_window rs seq" and "sint (Seq_Num p) = seq" and "seq \<noteq> NPE rs"
  shows "upon_receiving_datapack w p rs addr = Inr (stored p rs,
    record_sent w (acks (router w) addr (if seq > NPE rs then NPE rs - 1 else seq) 1))"
  using send_ack [of w "if seq > NPE rs then NPE rs - 1 else seq" addr] assms(4)
  by (auto simp: receive_unfold [OF assms(1-3)])

lemma receive_in_order:
  assumes i: "recv_inv rs" and l: "NPE rs \<le> 512" and seq: "sint (Seq_Num p) = NPE rs"
  shows "\<exists>k. 0 < k \<and> NPE rs + int k \<le> 513 \<and>
    upon_receiving_datapack w p rs addr =
      Inr ((stored p rs)\<lparr>recv_bytesnum := recv_bytesnum rs +
              (\<Sum>j<k. data_bytes (the (recv_buf (stored p rs) (NPE rs + int j)))), NPE := NPE rs + int k\<rparr>,
           record_sent w (acks (router w) addr (NPE rs) k)) \<and>
    (\<forall>j. NPE rs \<le> j \<and> j < NPE rs + int k \<longrightarrow> recv_buf (stored p rs) j \<noteq> None) \<and>
    recv_buf (stored p rs) (NPE rs + int k) = None"
proof -
  let ?s = "stored p rs"
  have w: "recv_window rs (NPE rs)" using i l by (auto simp: recv_window_def recv_inv_def)
  have n: "1 \<le> NPE rs" "NPE rs + int (nat (513 - NPE rs)) = 513" using i l by (auto simp: recv_inv_def)
  obtain k where k: "k \<le> nat (513 - NPE rs)" "ack_run (nat (513 - NPE rs)) (NPE rs) addr ?s w =
      Inr (NPE rs + int k, ?s\<lparr>recv_bytesnum := recv_bytesnum ?s + (\<Sum>j<k. data_bytes (the (recv_buf ?s (NPE rs + int j))))\<rparr>,
           record_sent w (acks (router w) addr (NPE rs) k))"
    "\<forall>j. NPE rs \<le> j \<and> j < NPE rs + int k \<longrightarrow> recv_buf ?s j \<noteq> None"
    "k = nat (513 - NPE rs) \<or> recv_buf ?s (NPE rs + int k) = None"
    using ack_run_result [OF n] by blast
  have head: "recv_buf ?s (NPE rs) = Some p" using stored_slot [of p rs] seq l by simp
  have gap: "recv_buf ?s (NPE rs + int k) = None" using k(4) n(2) by auto
  then have "0 < k" using head by (cases k) auto
  then show ?thesis
    using k gap n l by (intro exI [of _ k]) (auto simp: receive_unfold [OF i w seq])
qed

lemma receive_inv:
  assumes i: "recv_inv rs"
  shows "\<exists>rs' w'. upon_receiving_datapack w p rs addr = Inr (rs', w') \<and> recv_inv rs' \<and>
    NPE rs \<le> NPE rs' \<and> recv_hash rs' = recv_hash rs"
proof -
  let ?seq = "sint (Seq_Num p)"
  consider "\<not> recv_window rs ?seq" | "recv_window rs ?seq" "?seq \<noteq> NPE rs" | "recv_window rs ?seq" "?seq = NPE rs"
    by blast
  then show ?thesis
  proof cases
    case 1
    with receive_ignored [OF 1 i] i show ?thesis by simp
  next
    case 2
    have "recv_inv (stored p rs)"
      using i 2 by (auto simp: recv_inv_def stored_def recv_window_def)
    with receive_out_of_order [OF i 2(1) refl 2(2)] show ?thesis by (simp add: stored_def)
  next
    case 3
    then have l: "NPE rs \<le> 512" by (simp add: recv_window_def)
    let ?s = "stored p rs"
    from receive_in_order [OF i l 3(2), of w addr] obtain k where k: "NPE rs + int k \<le> 513"
      "upon_receiving_datapack w p rs addr =
      Inr (?s\<lparr>recv_bytesnum := recv_bytesnum rs +
              (\<Sum>j<k. data_bytes (the (recv_buf ?s (NPE rs + int j)))), NPE := NPE rs + int k\<rparr>,
           record_sent w (acks (router w) addr (NPE rs) k))"
      "\<And>j. NPE rs \<le> j \<Longrightarrow> j < NPE rs + int k \<Longrightarrow> recv_buf ?s j \<noteq> None"
      "recv_buf ?s (NPE rs + int k) = None" by blast
    let ?S = "\<Sum>j<k. data_bytes (the (recv_buf ?s (NPE rs + int j)))"
    have "recv_buf ?s j \<noteq> None" if "1 \<le> j" "j < NPE rs + int k" for j
      using k(3) [of j] that i l 3(2) stored_other [of j p rs] by (cases "j < NPE rs") (auto simp: recv_inv_def)
    moreover have "\<bar>recv_bytesnum rs + ?S\<bar> \<le> 65535 * (NPE rs + int k - 1)"
    proof -
      have "\<bar>?S\<bar> \<le> 65535 * int k" by (rule sum_data_bytes_bound)
      moreover have "\<bar>recv_bytesnum rs\<bar> \<le> 65535 * (NPE rs - 1)" using i by (simp add: recv_inv_def)
      ultimately show ?thesis using abs_triangle_ineq [of "recv_bytesnum rs" ?S] by (simp add: algebra_simps)
    qed
    ultimately show ?thesis
      using k i by (simp add: recv_inv_def)
  qed
qed

lemma create_Recver_inv:
  assumes "20 \<le> length hash"
  shows "\<exists>rs. create_Recver hash = Inr rs \<and> recv_inv rs \<and> NPE rs = 1 \<and> recv_bytesnum rs = 0 \<and>
    recv_hash rs = take 20 hash \<and> recv_buf rs = (\<lambda>_. None)"
  using assms by (simp add: create_Recver_def mem_read_def recv_inv_def)

section \<open>The receiver as a machine\<close>

definition recv_step :: "Recv_State \<times> world \<Rightarrow> packet \<times> sockaddr_in \<Rightarrow> (Recv_State \<times> world) res" where
  "recv_step s e = upon_receiving_datapack (snd s) (fst e) (fst s) (snd e)"

definition recv_ok :: "Recv_State \<Rightarrow> Recv_State \<times> world \<Rightarrow> bool" where
  "recv_ok rs0 s \<longleftrightarrow> recv_inv (fst s) \<and> NPE rs0 \<le> NPE (fst s) \<and> recv_hash (fst s) = recv_hash rs0"

interpretation recv: safe_machine recv_step "\<lambda>_ _. True" "recv_ok rs0" for rs0
proof unfold_locales
  fix s e assume "recv_ok rs0 s"
  with receive_inv [of "fst s" "snd s" "fst e" "snd e"] show "\<exists>s'. recv_step s e = Inr s' \<and> recv_ok rs0 s'"
    by (fastforce simp: recv_ok_def recv_step_def)
qed

section \<open>Properties\<close>

lemma recv_accepts: "accepts recv_step (\<lambda>_ _. True) s es"
  by (induction es arbitrary: s) (auto split: sum.split)

lemma fresh_recv: "\<exists>rs. create_Recver (replicate 20 0) = Inr rs \<and> recv_inv rs \<and> NPE rs = 1 \<and> recv_buf rs = (\<lambda>_. None)"
  using create_Recver_inv [of "replicate 20 0"] by auto

text \<open>
  Safety of the receiver: no sequence of DATA packets with any sequence numbers, lengths
  and contents, from any addresses, makes it fault; the next packet expected never goes back
  and stays in 1..513, everything below it is stored, and the byte counter cannot overflow.
\<close>

theorem receiver_runs_safely:
  assumes "recv_inv rs"
  shows "\<exists>rs' w'. run_steps recv_step (rs, w) es = Inr (rs', w') \<and> recv_inv rs' \<and> NPE rs \<le> NPE rs' \<and>
    \<bar>recv_bytesnum rs'\<bar> < 2 ^ 31"
proof -
  have "recv_ok rs (rs, w)" using assms by (simp add: recv_ok_def)
  from recv.run_safe [OF this recv_accepts, of es] show ?thesis
    by (fastforce simp: recv_ok_def recv_inv_def)
qed

theorem receiver_runs_safely_witness:
  "\<exists>rs rs' w'. create_Recver (replicate 20 0) = Inr rs \<and>
    run_steps recv_step (rs, quiet_world) [(sample_data 2, \<lparr>sin_family = AF_INET, sin_port = 9, sin_addr = 8\<rparr>)] = Inr (rs', w')"
  using fresh_recv receiver_runs_safely by blast

text \<open>
  The packet that is expected next is stored and, with everything contiguous behind it,
  acknowledged one ACK per packet in order; \<open>NPE\<close> moves to the first gap and the byte count
  grows by exactly the payload lengths of the packets passed.
\<close>

theorem in_order_packet_advances:
  assumes "recv_inv rs" and "NPE rs \<le> 512" and "sint (Seq_Num p) = NPE rs"
  shows "\<exists>k rs' w'. 0 < k \<and> upon_receiving_datapack w p rs addr = Inr (rs', w') \<and> NPE rs' = NPE rs + int k \<and>
    recv_buf rs' (NPE rs) = Some p \<and> (\<forall>j. NPE rs \<le> j \<and> j < NPE rs' \<longrightarrow> recv_buf rs' j \<noteq> None) \<and>
    recv_buf rs' (NPE rs') = None \<and>
    recv_bytesnum rs' = recv_bytesnum rs + (\<Sum>j<k. data_bytes (the (recv_buf rs' (NPE rs + int j)))) \<and>
    sent w' = sent w @ concat (map (\<lambda>j. emitted (router w) addr (wire_bytes (form_ACK_pack (NPE rs + int j)))) [0..<k])"
proof -
  have head: "recv_buf (stored p rs) (NPE rs) = Some p" using stored_slot [of p rs] assms(2,3) by simp
  from receive_in_order [OF assms, of w addr] obtain k where k: "0 < k"
    "upon_receiving_datapack w p rs addr =
      Inr ((stored p rs)\<lparr>recv_bytesnum := recv_bytesnum rs +
              (\<Sum>j<k. data_bytes (the (recv_buf (stored p rs) (NPE rs + int j)))), NPE := NPE rs + int k\<rparr>,
           record_sent w (acks (router w) addr (NPE rs) k))"
    "\<forall>j. NPE rs \<le> j \<and> j < NPE rs + int k \<longrightarrow> recv_buf (stored p rs) j \<noteq> None"
    "recv_buf (stored p rs) (NPE rs + int k) = None" by blast
  with head show ?thesis by (auto simp: acks_def intro!: exI [of _ k])
qed

theorem in_order_packet_advances_witness:
  "\<exists>rs rs' w'. create_Recver (replicate 20 0) = Inr rs \<and>
    upon_receiving_datapack quiet_world (sample_data 1) rs \<lparr>sin_family = AF_INET, sin_port = 9, sin_addr = 8\<rparr> = Inr (rs', w') \<and>
    recv_buf rs' 1 = Some (sample_data 1)"
proof -
  obtain rs where rs: "create_Recver (replicate 20 0) = Inr rs" "recv_inv rs" "NPE rs = 1" using fresh_recv by blast
  have "sint (Seq_Num (sample_data 1)) = NPE rs" by (simp add: sample_data_def rs)
  with in_order_packet_advances [OF rs(2) _ this, of quiet_world "\<lparr>sin_family = AF_INET, sin_port = 9, sin_addr = 8\<rparr>"] rs
  show ?thesis by fastforce
qed

text \<open>
  Any other packet of the receive window is stored without moving \<open>NPE\<close>; ahead of the
  gap it is answered by a repeated ACK of the last packet in order, behind it by its own
  ACK. A packet outside the window changes nothing and is not answered.
\<close>

theorem out_of_order_packet_answer:
  assumes "recv_inv rs" and "sint (Seq_Num p) \<noteq> NPE rs"
  shows "\<exists>rs' w'. upon_receiving_datapack w p rs addr = Inr (rs', w') \<and> NPE rs' = NPE rs \<and>
    recv_bytesnum rs' = recv_bytesnum rs \<and>
    (let seq = sint (Seq_Num p) in
     if 1 \<le> seq \<and> seq \<le> min 512 (NPE rs + 30)
     then recv_buf rs' seq = Some p \<and> sent w' = sent w @ emitted (router w) addr
            (wire_bytes (form_ACK_pack (if seq > NPE rs then NPE rs - 1 else seq)))
     else rs' = rs \<and> w' = w)"
proof (cases "recv_window rs (sint (Seq_Num p))")
  case True
  then have "sint (Seq_Num p) < 513" by (simp add: recv_window_def)
  with True receive_out_of_order [OF assms(1) True refl assms(2), of w addr] stored_slot [of p rs] show ?thesis
    by (auto simp: recv_window_def Let_def acks_Suc)
next
  case False
  with receive_ignored [OF False assms(1), of w addr] show ?thesis
    by (auto simp: recv_window_def Let_def)
qed

theorem out_of_order_packet_answer_witness:
  "\<exists>rs rs' w'. create_Recver (replicate 20 0) = Inr rs \<and>
    upon_receiving_datapack quiet_world (sample_data 40) rs \<lparr>sin_family = AF_INET, sin_port = 9, sin_addr = 8\<rparr> = Inr (rs', w') \<and>
    rs' = rs \<and> w' = quiet_world"
proof -
  obtain rs where rs: "create_Recver (replicate 20 0) = Inr rs" "recv_inv rs" "NPE rs = 1" using fresh_recv by blast
  have s: "sint (Seq_Num (sample_data 40)) = 40" by (simp add: sample_data_def)
  then have "sint (Seq_Num (sample_data 40)) \<noteq> NPE rs" by (simp add: rs)
  from out_of_order_packet_answer [OF rs(2) this, of quiet_world "\<lparr>sin_family = AF_INET, sin_port = 9, sin_addr = 8\<rparr>"] rs
  show ?thesis by (auto simp: s)
qed

text \<open>
  A packet that arrives before the first one is answered with ACK 0, which the sender
  rejects as illegal and the comment in the code rules out.
\<close>

theorem early_packet_gets_ack_zero:
  assumes "recv_inv rs" and "NPE rs = 1" and "1 < sint (Seq_Num p)" and "sint (Seq_Num p) \<le> 31"
  shows "\<exists>rs' w'. upon_receiving_datapack w p rs addr = Inr (rs', w') \<and>
    sent w' = sent w @ emitted (router w) addr (wire_bytes (form_ACK_pack 0)) \<and>
    upon_receive_ACK (form_ACK_pack 0) W = Inr (fl_trunc (congwin_size W), W)"
proof -
  have "recv_window rs (sint (Seq_Num p))" using assms by (simp add: recv_window_def)
  from receive_out_of_order [OF assms(1) this refl, of w addr] assms(2,3) show ?thesis
    by (simp add: acks_Suc upon_receive_ACK_def form_ACK_pack_def)
qed

theorem early_packet_gets_ack_zero_witness:
  "\<exists>rs rs' w'. create_Recver (replicate 20 0) = Inr rs \<and>
    upon_receiving_datapack quiet_world (sample_data 2) rs \<lparr>sin_family = AF_INET, sin_port = 9, sin_addr = 8\<rparr> = Inr (rs', w') \<and>
    sent w' = [(\<lparr>sin_family = AF_INET, sin_port = 9, sin_addr = 8\<rparr>, wire_bytes (form_ACK_pack 0))]"
proof -
  obtain rs where rs: "create_Recver (replicate 20 0) = Inr rs" "recv_inv rs" "NPE rs = 1" using fresh_recv by blast
  have s: "sint (Seq_Num (sample_data 2)) = 2" by (simp add: sample_data_def)
  from early_packet_gets_ack_zero [OF rs(2,3), of "sample_data 2" quiet_world
      "\<lparr>sin_family = AF_INET, sin_port = 9, sin_addr = 8\<rparr>" "sample_window 0 0 1 1"] rs(1)
  show ?thesis by (auto simp: s quiet_world_simps)
qed

end
