(* ===== verification/Reassembly.thy ===== *)
theory Reassembly
  imports Receiver
begin

text \<open>
  What the two halves of the transfer promise together: a receiver that is given the
  packets of one chunk, in any order and any number of times, ends with that chunk in its
  buffer, and \<open>reap\<close> copies it to its place in the output file.
\<close>

section \<open>Receiving the packets of one chunk\<close>

definition genuine_at :: "byte list \<Rightarrow> int \<Rightarrow> packet \<Rightarrow> bool" where
  "genuine_at data i p \<longleftrightarrow> payload p = Some (fragment data i) \<and> data_bytes p = 1024"

definition genuine :: "byte list \<Rightarrow> packet \<Rightarrow> bool" where
  "genuine data p \<longleftrightarrow>
     (let i = sint (Seq_Num p) in 1 \<le> i \<and> i \<le> 512 \<longrightarrow> genuine_at data i p)"

definition assembling :: "byte list \<Rightarrow> Recv_State \<Rightarrow> bool" where
  "assembling data rs \<longleftrightarrow> recv_inv rs \<and> recv_bytesnum rs = 1024 * (NPE rs - 1) \<and>
     (\<forall>i p. 1 \<le> i \<and> i \<le> 512 \<and> recv_buf rs i = Some p \<longrightarrow> genuine_at data i p)"

lemma data_bytes_counted:
  assumes "\<And>j. j < k \<Longrightarrow> data_bytes (f j) = 1024"
  shows "(\<Sum>j<k. data_bytes (f j)) = 1024 * int k"
  using assms by simp

lemma assembling_step:
  assumes a: "assembling data rs" and g: "genuine data p"
  shows "\<exists>rs' w'. upon_receiving_datapack w p rs addr = Inr (rs', w') \<and> assembling data rs' \<and>
    recv_hash rs' = recv_hash rs \<and> NPE rs \<le> NPE rs'"
proof -
  let ?seq = "sint (Seq_Num p)" and ?s = "stored p rs"
  have i: "recv_inv rs" using a by (simp add: assembling_def)
  obtain rs' w' where r: "upon_receiving_datapack w p rs addr = Inr (rs', w')" "recv_inv rs'"
    "NPE rs \<le> NPE rs'" "recv_hash rs' = recv_hash rs"
    using receive_inv [OF i] by blast
  show ?thesis
  proof (cases "recv_window rs ?seq")
    case False
    with receive_ignored [OF False i] a show ?thesis by simp
  next
    case w: True
    have gs: "genuine_at data j q" if "1 \<le> j" "j \<le> 512" "recv_buf ?s j = Some q" for j q
      using that a g w stored_slot [of p rs] stored_other [of j p rs]
      by (cases "j = ?seq") (auto simp: assembling_def genuine_def Let_def)
    show ?thesis
    proof (cases "?seq = NPE rs")
      case False
      with receive_out_of_order [OF i w refl False] r a gs show ?thesis
        by (auto simp: assembling_def)
    next
      case True
      then have l: "NPE rs \<le> 512" using w by (simp add: recv_window_def)
      have p1: "1 \<le> NPE rs" using i by (simp add: recv_inv_def)
      from receive_in_order [OF i l True, of w addr] obtain k where k: "NPE rs + int k \<le> 513"
        "upon_receiving_datapack w p rs addr =
        Inr (?s\<lparr>recv_bytesnum := recv_bytesnum rs +
              (\<Sum>j<k. data_bytes (the (recv_buf ?s (NPE rs + int j)))), NPE := NPE rs + int k\<rparr>,
           record_sent w (acks (router w) addr (NPE rs) k))"
        "\<And>j. NPE rs \<le> j \<Longrightarrow> j < NPE rs + int k \<Longrightarrow> recv_buf ?s j \<noteq> None" by blast
      have "data_bytes (the (recv_buf ?s (NPE rs + int j))) = 1024" if jk: "j < k" for j
      proof -
        obtain q where q: "recv_buf ?s (NPE rs + int j) = Some q" using k(3) [of "NPE rs + int j"] jk by auto
        moreover have "genuine_at data (NPE rs + int j) q" using q jk p1 k(1) by (intro gs) auto
        ultimately show ?thesis by (simp add: genuine_at_def)
      qed
      then have "(\<Sum>j<k. data_bytes (the (recv_buf ?s (NPE rs + int j)))) = 1024 * int k"
        by (rule data_bytes_counted)
      with k r a gs show ?thesis by (auto simp: assembling_def)
    qed
  qed
qed

definition asm_ok :: "byte list \<Rightarrow> Recv_State \<Rightarrow> Recv_State \<times> world \<Rightarrow> bool" where
  "asm_ok data rs0 s \<longleftrightarrow> assembling data (fst s) \<and> recv_hash (fst s) = recv_hash rs0"

interpretation asm: safe_machine recv_step "\<lambda>_ e. genuine data (fst e)" "asm_ok data rs0" for data rs0
proof unfold_locales
  fix s and e :: "packet \<times> sockaddr_in" assume "asm_ok data rs0 s" "genuine data (fst e)"
  with assembling_step [of data "fst s" "fst e" "snd s" "snd e"]
  show "\<exists>s'. recv_step s e = Inr s' \<and> asm_ok data rs0 s'"
    by (fastforce simp: asm_ok_def recv_step_def)
qed

section \<open>Merging\<close>

lemma fragment_take:
  assumes "0 \<le> m"
  shows "take (1024 * nat (m + 1)) data = take (1024 * nat m) data @ fragment data (m + 1)"
  using assms take_add [of "1024 * nat m" 1024 data]
  by (simp add: fragment_def nat_add_distrib algebra_simps)

lemma length_fragment:
  "length data = 524288 \<Longrightarrow> 1 \<le> i \<Longrightarrow> i \<le> 512 \<Longrightarrow> length (fragment data i) = 1024"
  by (simp add: fragment_def)

definition merged :: "byte list \<Rightarrow> int \<Rightarrow> byte list" where
  "merged data m = take (1024 * nat m) data @ replicate (524289 - 1024 * nat m) 0"

lemma merged_write:
  assumes "length data = 524288" and "0 \<le> m" "m < 512"
  shows "mem_write (merged data m) (1024 * m) (fragment data (m + 1)) = Inr (merged data (m + 1))"
proof -
  let ?a = "take (1024 * nat m) data" and ?f = "fragment data (m + 1)"
  have n: "nat (m + 1) = Suc (nat m)" "nat m < 512" using assms by auto
  have "replicate (524289 - 1024 * nat m) (0::byte) = replicate 1024 0 @ replicate (524289 - 1024 * nat (m + 1)) 0"
    using n by (intro replicate_split) simp
  then have "merged data m = ?a @ replicate 1024 0 @ replicate (524289 - 1024 * nat (m + 1)) 0"
    by (simp add: merged_def)
  moreover have "1024 * m = int (length ?a)" using assms n by simp
  moreover have "length ?f = 1024" using assms by (intro length_fragment) auto
  ultimately have "mem_write (merged data m) (1024 * m) ?f =
      Inr (?a @ ?f @ replicate (524289 - 1024 * nat (m + 1)) 0)"
    by (metis mem_write_middle length_replicate)
  also have "?a @ ?f @ replicate (524289 - 1024 * nat (m + 1)) 0 = merged data (m + 1)"
    by (simp add: merged_def fragment_take [OF assms(2)])
  finally show ?thesis .
qed

lemma merge_loop_result:
  assumes "length data = 524288" and "0 \<le> m" and "m + int n \<le> 512"
    and "\<And>i. m < i \<Longrightarrow> i \<le> m + int n \<Longrightarrow> \<exists>p. b i = Some p \<and> genuine_at data i p"
  shows "merge_loop n (m + 1) b (merged data m) (1024 * m) =
    Inr (merged data (m + int n), 1024 * (m + int n))"
  using assms(2-)
proof (induction n arbitrary: m)
  case 0
  then show ?case by simp
next
  case (Suc n)
  obtain p where p: "b (m + 1) = Some p" "payload p = Some (fragment data (m + 1))" "data_bytes p = 1024"
    using Suc.prems(3) [of "m + 1"] by (auto simp: genuine_at_def)
  have "length (fragment data (m + 1)) = 1024"
    using Suc.prems by (intro length_fragment [OF assms(1)]) auto
  then have "payload_read p 0 1024 = Inr (fragment data (m + 1))"
    using p(2) by (simp add: payload_read_def mem_read_def)
  moreover have "slot_deref b (m + 1) = Inr p" using p(1) Suc.prems by (intro slot_deref_in) auto
  moreover have "mem_write (merged data m) (1024 * m) (fragment data (m + 1)) = Inr (merged data (m + 1))"
    using Suc.prems by (intro merged_write [OF assms(1)]) auto
  moreover have "merge_loop n (m + 1 + 1) b (merged data (m + 1)) (1024 * (m + 1)) =
      Inr (merged data (m + 1 + int n), 1024 * (m + 1 + int n))"
    using Suc.prems by (intro Suc.IH) auto
  ultimately show ?case using p(3) by (simp add: algebra_simps)
qed

lemma merge_assembled:
  assumes a: "assembling data rs" and l: "length data = 524288"
  shows "merge_loop (nat (NPE rs - 1)) 1 (recv_buf rs) (merged data 0) 0 =
    Inr (merged data (NPE rs - 1), 1024 * (NPE rs - 1))"
proof -
  have n: "1 \<le> NPE rs" "NPE rs \<le> 513" using a by (auto simp: assembling_def recv_inv_def)
  have "\<exists>p. recv_buf rs i = Some p \<and> genuine_at data i p" if i: "0 < i" "i \<le> 0 + int (nat (NPE rs - 1))" for i
  proof -
    have "1 \<le> i" "i < NPE rs" "i \<le> 512" using i n by auto
    with a obtain p where "recv_buf rs i = Some p" unfolding assembling_def recv_inv_def by blast
    with a \<open>1 \<le> i\<close> \<open>i \<le> 512\<close> show ?thesis unfolding assembling_def by blast
  qed
  then have "merge_loop (nat (NPE rs - 1)) (0 + 1) (recv_buf rs) (merged data 0) (1024 * 0) =
      Inr (merged data (0 + int (nat (NPE rs - 1))), 1024 * (0 + int (nat (NPE rs - 1))))"
    using n by (intro merge_loop_result [OF l]) auto
  moreover have "int (nat (NPE rs - 1)) = NPE rs - 1" using n by simp
  ultimately show ?thesis by (simp only: add_0 mult_zero_right)
qed

lemma check_onechunk_hash_result:
  assumes "length data = 524288" and "length h = 20"
  shows "check_onechunk_hash (data @ r) h = Inr (fips_sha1 data = h)"
proof -
  have "shahash (data @ r) CHUNK_SIZE = Inr (fips_sha1 data)"
    using shahash_prefix [of "length data" "data @ r"] assms(1) by (simp add: CHUNK_SIZE_def)
  moreover have "\<exists>hex. binary2hex (fips_sha1 data) 20 (replicate 41 0) = Inr hex"
  proof -
    have "2 * length (fips_sha1 data) < length (replicate 41 (0::byte))"
      by (simp only: length_fips_sha1 length_replicate)
    from binary2hex_result [OF this, of "[]"] show ?thesis by (simp only: append_Nil2 length_fips_sha1) blast
  qed
  ultimately show ?thesis using assms(2) by (auto simp: check_onechunk_hash_def mem_read_def)
qed

lemma merged_0: "replicate (nat CHUNK_SIZE + 1) 0 = merged data 0"
  by (simp add: merged_def CHUNK_SIZE_def)

lemma merged_full: "length data = 524288 \<Longrightarrow> merged data 512 = data @ [0]"
  by (simp add: merged_def)

section \<open>Writing the chunk\<close>

lemma overwrite_append:
  assumes "a \<noteq> []"
  shows "overwrite (overwrite f off a) (off + length a) b = overwrite f off (a @ b)"
proof (cases "b = []")
  case True
  then show ?thesis by (simp add: overwrite_def)
next
  case False
  let ?p = "take off (f @ replicate (off - length f) 0)"
  have l: "length ?p = off" by simp
  have o: "overwrite f off a = ?p @ a @ drop (off + length a) f" using assms by (simp add: overwrite_def)
  have 1: "take (off + length a) (overwrite f off a @ r) = ?p @ a" for r
    unfolding o by (simp add: l del: take_append length_take length_append) (simp add: l)
  have 2: "drop (off + length a + length b) (overwrite f off a) = drop (off + length (a @ b)) f"
  proof -
    have "drop (length (?p @ a)) (?p @ a @ drop (off + length a) f) = drop (off + length a) f" by simp
    then have "drop (off + length a) (overwrite f off a) = drop (off + length a) f"
      unfolding o length_append l .
    then have "drop (length b) (drop (off + length a) (overwrite f off a)) = drop (length b) (drop (off + length a) f)"
      by (rule arg_cong)
    then show ?thesis by (simp add: ac_simps)
  qed
  show ?thesis
    using False assms unfolding overwrite_def [of "overwrite f off a"] 1 2 by (simp add: overwrite_def)
qed

text \<open>
  Documented behaviour of \<open>write\<close> on a regular file with room: it takes at least one and
  at most all of the bytes it is given.
\<close>

definition progressing_writes :: "world \<Rightarrow> bool" where
  "progressing_writes w \<longleftrightarrow>
     (\<forall>k n. 0 < n \<longrightarrow> 0 < write_result w k n \<and> write_result w k n \<le> int n)"

definition content :: "world \<Rightarrow> byte list \<Rightarrow> byte list" where
  "content w name = (case files w name of None \<Rightarrow> [] | Some f \<Rightarrow> f)"

lemma write_loop_result:
  assumes "length data = 524288" and "0 \<le> k" "k < 4096" and "progressing_writes w"
    and "open_fds w fd = Some (name, pos)" and "0 \<le> ret" "ret \<le> 524288"
    and "content w name = overwrite f (nat (k * 524288)) (take (nat ret) data)"
    and "nat (524288 - ret) \<le> fuel"
  shows "\<exists>r w'. write_loop fuel (data @ [0]) k fd ret written w = Inr (r, w') \<and>
    content w' name = overwrite f (nat (k * 524288)) data \<and> (written > 0 \<or> ret < 524288 \<longrightarrow> r > 0) \<and>
    (\<forall>n. n \<noteq> name \<longrightarrow> files w' n = files w n) \<and> sent w' = sent w"
  using assms(4-)
proof (induction fuel arbitrary: ret written w pos)
  case 0
  then have "ret = 524288" by simp
  with 0 assms(1) show ?case by (subst write_loop.simps) (simp add: CHUNK_SIZE_def)
next
  case (Suc fuel)
  show ?case
  proof (cases "ret = 524288")
    case True
    with Suc.prems assms(1) show ?thesis by (subst write_loop.simps) (simp add: CHUNK_SIZE_def)
  next
    case False
    then have lt: "ret < 524288" using Suc.prems by simp
    let ?p = "k * 524288 + ret" and ?bs = "drop (nat ret) data"
    let ?v = "write_result w (writes w) (length ?bs)"
    have lb: "int (length ?bs) = 524288 - ret" "0 < length ?bs" using lt Suc.prems assms(1) by auto
    have v: "0 < ?v" "?v \<le> int (length ?bs)"
      using Suc.prems(1) lb(2) unfolding progressing_writes_def by blast+
    let ?w1 = "w\<lparr>open_fds := (open_fds w)(fd \<mapsto> (name, ?p))\<rparr>"
    let ?w2 = "?w1\<lparr>writes := Suc (writes w),
        files := (files w)(name \<mapsto> overwrite (content w name) (nat ?p) (take (nat ?v) ?bs)),
        open_fds := (open_fds ?w1)(fd \<mapsto> (name, ?p + ?v))\<rparr>"
    have p0: "0 \<le> ?p" using assms(2) Suc.prems by simp
    have off: "int_mult k CHUNK_SIZE = Inr (k * 524288)"
      using assms(2,3) by (simp add: int_mult_def CHUNK_SIZE_def)
    have fit: "?p < 2 ^ 31" using assms(3) lt by simp
    have rd: "mem_read (data @ [0]) ret (CHUNK_SIZE - ret) = Inr ?bs"
      using lt Suc.prems assms(1) by (simp add: mem_read_def CHUNK_SIZE_def nat_diff_distrib)
    have ls: "os_lseek w fd ?p = ?w1" using Suc.prems(2) p0 by (simp add: os_lseek_def)
    have wr: "os_write ?w1 fd ?bs = (?v, ?w2)"
      using v by (simp add: os_write_def Let_def content_def)
    have step: "write_loop (Suc fuel) (data @ [0]) k fd ret written w =
        write_loop fuel (data @ [0]) k fd (ret + ?v) ?v ?w2"
      using False off fit rd ls wr v by (subst write_loop.simps) (simp add: CHUNK_SIZE_def)
    have take: "take (nat (ret + ?v)) data = take (nat ret) data @ take (nat ?v) ?bs"
      using Suc.prems v by (simp add: nat_add_distrib take_add)
    have cont: "content ?w2 name = overwrite f (nat (k * 524288)) (take (nat (ret + ?v)) data)"
    proof (cases "ret = 0")
      case True
      then have "content w name = f" using Suc.prems(5) by (simp add: overwrite_def)
      with True show ?thesis by (simp add: content_def)
    next
      case nz: False
      let ?a = "take (nat ret) data"
      have len: "length ?a = nat ret" using lt assms(1) by simp
      have "?a \<noteq> []" using len nz Suc.prems(3) by auto
      moreover have "nat ?p = nat (k * 524288) + length ?a"
        using len assms(2) Suc.prems(3) by (simp add: nat_add_distrib)
      ultimately show ?thesis
        using overwrite_append [of ?a f "nat (k * 524288)" "take (nat ?v) ?bs"] Suc.prems(5)
        by (simp only: take) (simp add: content_def)
    qed
    have "\<exists>r w'. write_loop fuel (data @ [0]) k fd (ret + ?v) ?v ?w2 = Inr (r, w') \<and>
      content w' name = overwrite f (nat (k * 524288)) data \<and> (?v > 0 \<or> ret + ?v < 524288 \<longrightarrow> r > 0) \<and>
      (\<forall>n. n \<noteq> name \<longrightarrow> files w' n = files ?w2 n) \<and> sent w' = sent ?w2"
    proof (rule Suc.IH)
      show "progressing_writes ?w2" using Suc.prems(1) by (simp add: progressing_writes_def)
      show "open_fds ?w2 fd = Some (name, ?p + ?v)" by simp
      show "0 \<le> ret + ?v" "ret + ?v \<le> 524288" using v lb Suc.prems by auto
      show "content ?w2 name = overwrite f (nat (k * 524288)) (take (nat (ret + ?v)) data)" by (rule cont)
      show "nat (524288 - (ret + ?v)) \<le> fuel" using v Suc.prems by linarith
    qed
    with step v show ?thesis by auto
  qed
qed

text \<open>A complete chunk with the right digest lands in its place in the output file.\<close>

lemma reap_writes_chunk:
  assumes a: "assembling data rs" and l: "length data = 524288" and full: "recv_bytesnum rs = CHUNK_SIZE"
    and hash: "recv_hash rs = fips_sha1 data" and k: "0 \<le> k" "k < 4096"
    and w: "progressing_writes w" "open_fds w fd = Some (name, pos)" and fuel: "524288 \<le> fuel"
  shows "\<exists>r w'. reap fuel rs k fd w = Inr (r, w') \<and> 0 < r \<and>
    content w' name = overwrite (content w name) (nat (k * CHUNK_SIZE)) data \<and>
    (\<forall>n. n \<noteq> name \<longrightarrow> files w' n = files w n)"
proof -
  have n: "NPE rs = 513" using a full by (simp add: assembling_def CHUNK_SIZE_def)
  have m: "merge_loop (nat (NPE rs - 1)) 1 (recv_buf rs) (replicate (nat CHUNK_SIZE + 1) 0) 0 =
      Inr (data @ [0], CHUNK_SIZE)"
    using merge_assembled [OF a l] unfolding merged_0 [of data] n
    by (simp add: merged_full [OF l] CHUNK_SIZE_def)
  have c: "check_onechunk_hash (data @ [0]) (recv_hash rs) = Inr True"
    using check_onechunk_hash_result [OF l, of "recv_hash rs"] by (simp add: hash)
  have "content w name = overwrite (content w name) (nat (k * 524288)) (take (nat 0) data)"
    by (simp add: overwrite_def)
  from write_loop_result [OF l k w _ _ this, of fuel 0] fuel
  have "\<exists>r w'. write_loop fuel (data @ [0]) k fd 0 0 w = Inr (r, w') \<and> 0 < r \<and>
    content w' name = overwrite (content w name) (nat (k * 524288)) data \<and>
    (\<forall>n. n \<noteq> name \<longrightarrow> files w' n = files w n)" by auto
  moreover
  have "reap fuel rs k fd w = write_loop fuel (data @ [0]) k fd 0 0 w"
    by (simp only: reap_def m) (simp add: c)
  ultimately show ?thesis by (auto simp: CHUNK_SIZE_def)
qed

section \<open>From the sender's window to the output file\<close>

text \<open>The packet that the receiving host decodes from the bytes of slot \<open>i\<close>.\<close>

definition arrives :: "Window \<Rightarrow> int \<Rightarrow> packet" where
  "arrives W i =
     (case binary2packet (slot_bytes W i @ [0]) zero_packet of Inl _ \<Rightarrow> zero_packet | Inr p \<Rightarrow> p)"

lemma arrives_genuine:
  assumes f: "filled data SW 512 W" and l: "length data = 524288" and i: "1 \<le> i" "i \<le> 512"
  shows "sint (Seq_Num (arrives W i)) = i" "genuine data (arrives W i)"
proof -
  obtain b where b: "W = SW\<lparr>sender_buf := b, LPR := 512 + 1\<rparr>" "\<And>i. 1 \<le> i \<Longrightarrow> i \<le> 512 \<Longrightarrow> carries data i (b i)"
    using f unfolding filled_def by blast
  obtain p where p: "b i = Some p" "data_packet i p" "payload p = Some (fragment data i)"
    "timestamp p = 0" "ACKed_num p = 0"
    using b(2) [OF i] by (auto simp: carries_def)
  have wf: "wf_packet p" using p(2) by (simp add: data_packet_def)
  have id: "p\<lparr>timestamp := 0, ACKed_num := 0\<rparr> = p" using p(4,5) by (cases p) simp
  have "slot_bytes W i = wire_bytes p" using p(1) b(1) by (simp add: slot_bytes_def)
  then have arr: "arrives W i = p"
    using binary2packet_wire [OF wf, of "[0]"] by (simp add: arrives_def id)
  have sq: "sint (Seq_Num p) = i"
    using p(2) i by (simp add: data_packet_def signed_of_int signed_take_bit_int_eq_self)
  then show "sint (Seq_Num (arrives W i)) = i" by (simp add: arr)
  have "unat (Pack_len p) = 16 + 1024" "Hd_len p = 16"
    using p(2,3) length_fragment [OF l i] by (auto simp: data_packet_def wf_packet_def overhead_def body_def)
  then have "data_bytes p = 1024" by (simp add: data_bytes_def)
  then show "genuine data (arrives W i)" using p(3) by (simp add: genuine_def arr sq genuine_at_def)
qed

text \<open>Packets that arrive in order are taken one by one.\<close>

definition nothing_ahead :: "Recv_State \<Rightarrow> bool" where
  "nothing_ahead rs \<longleftrightarrow> (\<forall>i. NPE rs \<le> i \<longrightarrow> recv_buf rs i = None)"

lemma receive_next:
  assumes i: "recv_inv rs" and n: "nothing_ahead rs" and l: "NPE rs \<le> 512" and s: "sint (Seq_Num p) = NPE rs"
  shows "\<exists>rs' w'. upon_receiving_datapack w p rs addr = Inr (rs', w') \<and> NPE rs' = NPE rs + 1 \<and>
    nothing_ahead rs' \<and> sent w' = sent w @ acks (router w) addr (NPE rs) 1 \<and> router w' = router w"
proof -
  let ?s = "stored p rs"
  from receive_in_order [OF i l s, of w addr] obtain k where k: "0 < k" "NPE rs + int k \<le> 513"
    "upon_receiving_datapack w p rs addr =
    Inr (?s\<lparr>recv_bytesnum := recv_bytesnum rs +
          (\<Sum>j<k. data_bytes (the (recv_buf ?s (NPE rs + int j)))), NPE := NPE rs + int k\<rparr>,
       record_sent w (acks (router w) addr (NPE rs) k))"
    "\<And>j. NPE rs \<le> j \<Longrightarrow> j < NPE rs + int k \<Longrightarrow> recv_buf ?s j \<noteq> None" by blast
  have "recv_buf ?s j = None" if "NPE rs < j" for j
    using n that s by (simp add: stored_def nothing_ahead_def)
  with k(4) [of "NPE rs + 1"] k(1) have "k = 1" by fastforce
  with k n s show ?thesis by (auto simp: nothing_ahead_def stored_def)
qed

lemma receive_all_in_order:
  assumes "recv_inv rs" and "nothing_ahead rs" and "NPE rs + int n \<le> 513"
    and "\<And>i. NPE rs \<le> i \<Longrightarrow> i < NPE rs + int n \<Longrightarrow> sint (Seq_Num (pk i)) = i"
  shows "\<exists>rs' w'. run_steps recv_step (rs, w) (map (\<lambda>j. (pk (NPE rs + int j), addr)) [0..<n]) = Inr (rs', w') \<and>
    recv_inv rs' \<and> NPE rs' = NPE rs + int n \<and> sent w' = sent w @ acks (router w) addr (NPE rs) n"
  using assms
proof (induction n arbitrary: rs w)
  case 0
  then show ?case by simp
next
  case (Suc n)
  have s: "sint (Seq_Num (pk (NPE rs))) = NPE rs" using Suc.prems(4) by simp
  have l: "NPE rs \<le> 512" using Suc.prems(3) by simp
  obtain rs1 w1 where r: "upon_receiving_datapack w (pk (NPE rs)) rs addr = Inr (rs1, w1)" "NPE rs1 = NPE rs + 1"
    "nothing_ahead rs1" "sent w1 = sent w @ acks (router w) addr (NPE rs) 1" "router w1 = router w"
    using receive_next [OF Suc.prems(1,2) l s] by blast
  have i1: "recv_inv rs1" using receive_inv [OF Suc.prems(1), of w "pk (NPE rs)" addr] r(1) by auto
  have "\<exists>rs' w'. run_steps recv_step (rs1, w1) (map (\<lambda>j. (pk (NPE rs1 + int j), addr)) [0..<n]) = Inr (rs', w') \<and>
    recv_inv rs' \<and> NPE rs' = NPE rs1 + int n \<and> sent w' = sent w1 @ acks (router w1) addr (NPE rs1) n"
    using Suc.prems(3,4) r by (intro Suc.IH i1) auto
  then obtain rs' w' where r2: "run_steps recv_step (rs1, w1) (map (\<lambda>j. (pk (NPE rs1 + int j), addr)) [0..<n]) = Inr (rs', w')"
    "recv_inv rs'" "NPE rs' = NPE rs1 + int n" "sent w' = sent w1 @ acks (router w1) addr (NPE rs1) n" by blast
  have es: "map (\<lambda>j. (pk (NPE rs + int j), addr)) [0..<Suc n] =
      (pk (NPE rs), addr) # map (\<lambda>j. (pk (NPE rs1 + int j), addr)) [0..<n]"
    by (simp only: upt_conv_Cons map_Suc_upt [symmetric] list.map map_map zero_less_Suc)
       (simp add: r(2) comp_def ac_simps)
  have "recv_step (rs, w) (pk (NPE rs), addr) = Inr (rs1, w1)"
    using r(1) by (simp add: recv_step_def)
  then have "run_steps recv_step (rs, w) (map (\<lambda>j. (pk (NPE rs + int j), addr)) [0..<Suc n]) = Inr (rs', w')"
    by (simp only: es run_steps.simps ebind_Inr r2(1))
  moreover have "sent w' = sent w @ acks (router w) addr (NPE rs) (Suc n)"
    using r r2 by (simp add: acks_Suc)
  ultimately show ?case using r(2) r2(2,3) by auto
qed

lemma transfer_in_order:
  assumes f: "filled data SW 512 W" and l: "length data = 524288"
    and r: "create_Recver (fips_sha1 data) = Inr rs"
  shows "\<exists>rs' w'. run_steps recv_step (rs, w) (map (\<lambda>j. (arrives W (1 + int j), addr)) [0..<512]) = Inr (rs', w') \<and>
    assembling data rs' \<and> recv_bytesnum rs' = CHUNK_SIZE \<and> recv_hash rs' = fips_sha1 data \<and>
    sent w' = sent w @ acks (router w) addr 1 512"
proof -
  have "20 \<le> length (fips_sha1 data)" by simp
  from create_Recver_inv [OF this] r have rs: "recv_inv rs" "NPE rs = 1" "recv_bytesnum rs = 0"
    "recv_hash rs = fips_sha1 data" "recv_buf rs = (\<lambda>_. None)" by auto
  let ?es = "map (\<lambda>j. (arrives W (1 + int j), addr)) [0..<512]"
  have na: "nothing_ahead rs" by (simp add: nothing_ahead_def rs)
  have sq: "sint (Seq_Num (arrives W i)) = i" if "NPE rs \<le> i" "i < NPE rs + int 512" for i
    using arrives_genuine(1) [OF f l] that rs(2) by simp
  obtain rs' w' where run: "run_steps recv_step (rs, w) ?es = Inr (rs', w')"
    "NPE rs' = 513" "sent w' = sent w @ acks (router w) addr 1 512"
    using receive_all_in_order [OF rs(1) na _ sq, of 512 w addr] rs(2) by auto
  have "asm_ok data rs (rs, w)" using rs by (simp add: asm_ok_def assembling_def)
  moreover have "accepts recv_step (\<lambda>_ e. genuine data (fst e)) s es"
    if "\<forall>e\<in>set es. genuine data (fst e)" for s es
    using that by (induction es arbitrary: s) (auto split: sum.split)
  then have "accepts recv_step (\<lambda>_ e. genuine data (fst e)) (rs, w) ?es"
    using arrives_genuine(2) [OF f l] by simp
  ultimately have "asm_ok data rs (rs', w')"
    using asm.run_safe [of data rs "(rs, w)" ?es] run(1) by auto
  with run rs(4) show ?thesis by (auto simp: asm_ok_def assembling_def CHUNK_SIZE_def)
qed

section \<open>When merging or writing goes wrong\<close>

lemma merge_loop_add:
  "merge_loop (m + n) i b buf len = ebind (merge_loop m i b buf len) (\<lambda>(buf', len'). merge_loop n (i + int m) b buf' len')"
proof (induction m arbitrary: i buf len)
  case (Suc m)
  then show ?case by (simp add: ebind_assoc ac_simps)
qed simp

lemma reap_without_write:
  assumes a: "assembling data rs" and l: "length data = 524288"
  shows "NPE rs < 513 \<Longrightarrow> reap fuel rs k fd w = Inr (0, w)"
    and "NPE rs = 513 \<Longrightarrow> length (recv_hash rs) = 20 \<Longrightarrow> recv_hash rs \<noteq> fips_sha1 data \<Longrightarrow>
      reap fuel rs k fd w = Inr (-1, w)"
proof -
  have m: "merge_loop (nat (NPE rs - 1)) 1 (recv_buf rs) (replicate (nat CHUNK_SIZE + 1) 0) 0 =
      Inr (merged data (NPE rs - 1), 1024 * (NPE rs - 1))"
    unfolding merged_0 [of data] by (rule merge_assembled [OF a l])
  show "NPE rs < 513 \<Longrightarrow> reap fuel rs k fd w = Inr (0, w)"
    by (simp only: reap_def m) (simp add: CHUNK_SIZE_def)
  assume n: "NPE rs = 513" and h: "length (recv_hash rs) = 20" and ne: "recv_hash rs \<noteq> fips_sha1 data"
  have c: "check_onechunk_hash (data @ [0]) (recv_hash rs) = Inr False"
    using check_onechunk_hash_result [OF l h, of "[0]"] ne by simp
  show "reap fuel rs k fd w = Inr (-1, w)"
    using c by (simp only: reap_def m) (simp add: n CHUNK_SIZE_def merged_full [OF l])
qed

lemma os_lseek_writes [simp]: "writes (os_lseek w fd pos) = writes w" "write_result (os_lseek w fd pos) = write_result w"
  by (auto simp: os_lseek_def split: option.split)

lemma write_loop_error:
  assumes l: "length data = 524288" and k: "0 \<le> k" "k < 4096"
    and e: "write_result w (writes w) 524288 = -1"
  shows "write_loop (Suc (Suc fuel)) (data @ [0]) k fd 0 0 w = Inl OutOfBounds"
proof -
  have off: "int_mult k CHUNK_SIZE = Inr (k * 524288)"
    using k by (simp add: int_mult_def CHUNK_SIZE_def)
  have fit: "k * 524288 < 2 ^ 31" using k by simp
  have rd: "mem_read (data @ [0]) 0 (CHUNK_SIZE - 0) = Inr data"
    using l by (simp add: mem_read_def CHUNK_SIZE_def)
  have wr: "fst (os_write (os_lseek w fd (k * 524288)) fd data) = -1"
    using e l by (auto simp: os_write_def Let_def split: option.split)
  have step: "\<exists>w'. write_loop (Suc (Suc fuel)) (data @ [0]) k fd 0 0 w = write_loop (Suc fuel) (data @ [0]) k fd (-1) (-1) w'"
    using off fit rd wr
    by (subst write_loop.simps)
       (auto simp: CHUNK_SIZE_def Let_def split: prod.split)
  have "write_loop (Suc fuel) (data @ [0]) k fd (-1) (-1) w' = Inl OutOfBounds" for w'
    using off fit by (subst write_loop.simps) (simp add: CHUNK_SIZE_def mem_read_def Let_def)
  with step show ?thesis by auto
qed

lemma reap_overflow:
  assumes a: "assembling data rs" and l: "length data = 524288" and n: "NPE rs = 513"
    and q: "sint (Seq_Num q) = 512" "payload q = Some bs" "data_bytes q = int (length bs)" "1025 < length bs"
  shows "reap fuel (stored q rs) k fd w = Inl OutOfBounds"
proof -
  let ?b = "recv_buf (stored q rs)"
  have g: "\<exists>p. ?b i = Some p \<and> genuine_at data i p" if "0 < i" "i \<le> 0 + int 511" for i
  proof -
    have "1 \<le> i" "i < NPE rs" "i \<le> 512" "i \<noteq> 512" using that n by auto
    moreover obtain p where "recv_buf rs i = Some p"
      using a calculation(1,2) unfolding assembling_def recv_inv_def by blast
    ultimately show ?thesis using a stored_other [of i q rs] q(1) unfolding assembling_def by auto
  qed
  have "merge_loop 511 (0 + 1) ?b (merged data 0) (1024 * 0) = Inr (merged data (0 + int 511), 1024 * (0 + int 511))"
    using g by (intro merge_loop_result [OF l]) auto
  then have m: "merge_loop 511 1 ?b (merged data 0) 0 = Inr (merged data 511, 523264)" by simp
  have d: "slot_deref ?b 512 = Inr q" using stored_slot [of q rs] q(1) by (intro slot_deref_in) auto
  have len: "length (merged data 511) = 524289" using l by (simp add: merged_def)
  have w: "mem_write (merged data 511) 523264 bs = Inl OutOfBounds"
    using q(4) len by (auto simp: mem_write_def)
  have r: "payload_read q 0 (data_bytes q) = Inr bs"
    using q(2,3,4) by (auto simp: payload_read_def mem_read_def)
  have "merge_loop (511 + 1) 1 ?b (merged data 0) 0 = Inl OutOfBounds"
    unfolding merge_loop_add m using d r w by simp
  moreover have "nat (NPE (stored q rs) - 1) = 511 + 1" by (simp add: n)
  ultimately show ?thesis unfolding reap_def merged_0 [of data] by simp
qed

section \<open>Properties\<close>

definition sample_addr :: sockaddr_in where
  "sample_addr = \<lparr>sin_family = AF_INET, sin_port = 9, sin_addr = 8\<rparr>"

definition sample_chunk :: "byte list" where
  "sample_chunk = chunk_image [1, 2, 3] 0"

lemma sample_chunk_length: "length sample_chunk = 524288"
  by (simp add: sample_chunk_def)

lemma sample_filled: "\<exists>SW W. LPR SW = 1 \<and> filled sample_chunk SW 512 W"
proof -
  let ?SW = "sample_window 0 0 1 1"
  have l: "LPR ?SW = 1" by simp
  obtain W where "filled (chunk_image [1, 2, 3] 0) ?SW 512 W"
    using send_onechunk_fills [OF sample_fs_simps(1,3,2) order_refl _ l] by auto
  with l show ?thesis unfolding sample_chunk_def by blast
qed

lemma sample_transfer:
  assumes "create_Recver (fips_sha1 sample_chunk) = Inr rs"
  obtains es rs' w' where "run_steps recv_step (rs, quiet_world) es = Inr (rs', w')"
    and "\<forall>e\<in>set es. genuine sample_chunk (fst e)" and "assembling sample_chunk rs'"
    and "recv_bytesnum rs' = CHUNK_SIZE" and "recv_hash rs' = fips_sha1 sample_chunk"
proof -
  obtain SW W where W: "filled sample_chunk SW 512 W" using sample_filled by blast
  let ?es = "map (\<lambda>j. (arrives W (1 + int j), sample_addr)) [0..<512]"
  have "\<forall>e\<in>set ?es. genuine sample_chunk (fst e)"
    using arrives_genuine(2) [OF W sample_chunk_length] by simp
  with transfer_in_order [OF W sample_chunk_length assms, of quiet_world sample_addr] that show ?thesis by blast
qed

lemma sample_recver: "\<exists>rs. create_Recver (fips_sha1 sample_chunk) = Inr rs"
  using create_Recver_inv [of "fips_sha1 sample_chunk"] by auto

definition sample_disk :: world where
  "sample_disk = quiet_world\<lparr>open_fds := [7 \<mapsto> ([111], 0)]\<rparr>"

lemma sample_disk_simps: "progressing_writes sample_disk" "open_fds sample_disk 7 = Some ([111], 0)"
  "content sample_disk [111] = []"
  by (simp_all add: sample_disk_def progressing_writes_def quiet_world_def content_def)

lemma run_genuine:
  assumes c: "create_Recver (fips_sha1 data) = Inr rs" and es: "\<forall>e\<in>set es. genuine data (fst e)"
    and r: "run_steps recv_step (rs, w) es = Inr (rs', w')"
  shows "assembling data rs'" "recv_hash rs' = fips_sha1 data"
proof -
  have "20 \<le> length (fips_sha1 data)" by simp
  from create_Recver_inv [OF this] c have "asm_ok data rs (rs, w)" "recv_hash rs = fips_sha1 data"
    by (auto simp: asm_ok_def assembling_def)
  moreover have "accepts recv_step (\<lambda>_ e. genuine data (fst e)) s es" for s
    using es by (induction es arbitrary: s) (auto split: sum.split)
  ultimately show "assembling data rs'" "recv_hash rs' = fips_sha1 data"
    using asm.run_safe [of data rs "(rs, w)" es] r by (auto simp: asm_ok_def)
qed

text \<open>
  C10. Reassembly: let the packets of one chunk arrive in any order, with losses and
  repetitions and mixed with packets outside the window. Once the receiver has counted a
  whole chunk, \<open>reap\<close> checks the digest and puts exactly the chunk at its place in the
  output file, leaving the rest of that file and all other files alone, as long as every
  \<open>write\<close> makes progress; at most one call of \<open>write\<close> per byte is needed.
\<close>

theorem chunk_reassembled:
  assumes "create_Recver (fips_sha1 data) = Inr rs" and "length data = 524288"
    and "\<forall>e\<in>set es. genuine data (fst e)" and "run_steps recv_step (rs, w) es = Inr (rs', w')"
    and "recv_bytesnum rs' = CHUNK_SIZE" and "0 \<le> k" "k < 4096"
    and "progressing_writes d" and "open_fds d fd = Some (name, pos)"
  shows "\<exists>r d'. reap 524288 rs' k fd d = Inr (r, d') \<and> 0 < r \<and>
    content d' name = overwrite (content d name) (nat (k * CHUNK_SIZE)) data \<and>
    (\<forall>n. n \<noteq> name \<longrightarrow> files d' n = files d n)"
  using reap_writes_chunk [OF run_genuine(1) [OF assms(1,3,4)] assms(2,5) run_genuine(2) [OF assms(1,3,4)] assms(6-9)]
  by blast

theorem chunk_reassembled_witness:
  "\<exists>rs' r d'. reap 524288 rs' 0 7 sample_disk = Inr (r, d') \<and> content d' [111] = sample_chunk"
proof -
  obtain rs where rs: "create_Recver (fips_sha1 sample_chunk) = Inr rs" using sample_recver by blast
  then obtain es rs' w' where r: "run_steps recv_step (rs, quiet_world) es = Inr (rs', w')"
    "\<forall>e\<in>set es. genuine sample_chunk (fst e)" "recv_bytesnum rs' = CHUNK_SIZE"
    using sample_transfer by metis
  from chunk_reassembled [OF rs sample_chunk_length r(2,1,3), of 0, OF _ _ sample_disk_simps(1,2)]
  obtain x d' where "reap 524288 rs' 0 7 sample_disk = Inr (x, d')"
    "content d' [111] = overwrite (content sample_disk [111]) (nat (0 * CHUNK_SIZE)) sample_chunk" by auto
  moreover have "sample_chunk \<noteq> []" using sample_chunk_length by auto
  ultimately show ?thesis by (auto simp: sample_disk_simps overwrite_def)
qed

text \<open>
  C9. End to end: a chunk of the uploader's data file, cut into packets by \<open>send_onechunk\<close>,
  serialised, parsed by the receiving host and delivered in order, is acknowledged packet by
  packet and ends byte for byte in the downloader's output file at the same offset.
\<close>

theorem chunk_transferred:
  assumes "fs loc = Some master" and "read_master_line master = Inr name" and "fs name = Some datafile"
    and "0 \<le> k" "k < 4096" and "LPR SW = 1"
    and "create_Recver (fips_sha1 (chunk_image datafile k)) = Inr rs"
    and "progressing_writes d" and "open_fds d fd = Some (out, pos)"
  shows "\<exists>W rs' w' r d'. send_onechunk fs SW k loc = Inr (1, W) \<and>
    run_steps recv_step (rs, w) (map (\<lambda>j. (arrives W (1 + int j), addr)) [0..<512]) = Inr (rs', w') \<and>
    sent w' = sent w @ concat (map (\<lambda>j. emitted (router w) addr (wire_bytes (form_ACK_pack (1 + int j)))) [0..<512]) \<and>
    reap 524288 rs' k fd d = Inr (r, d') \<and>
    content d' out = overwrite (content d out) (nat (k * CHUNK_SIZE)) (chunk_image datafile k)"
proof -
  obtain W where W: "send_onechunk fs SW k loc = Inr (1, W)" "filled (chunk_image datafile k) SW 512 W"
    using send_onechunk_fills [OF assms(1-6)] by blast
  from transfer_in_order [OF W(2) length_chunk_image assms(7), of w addr] obtain rs' w' where t:
    "run_steps recv_step (rs, w) (map (\<lambda>j. (arrives W (1 + int j), addr)) [0..<512]) = Inr (rs', w')"
    "assembling (chunk_image datafile k) rs'" "recv_bytesnum rs' = CHUNK_SIZE"
    "recv_hash rs' = fips_sha1 (chunk_image datafile k)" "sent w' = sent w @ acks (router w) addr 1 512" by blast
  from reap_writes_chunk [OF t(2) length_chunk_image t(3,4) assms(4,5,8,9), of 524288] W t show ?thesis
    unfolding acks_def by blast
qed

theorem chunk_transferred_witness:
  "\<exists>rs' r d'. reap 524288 rs' 0 7 sample_disk = Inr (r, d') \<and> content d' [111] = sample_chunk"
proof -
  obtain rs where rs: "create_Recver (fips_sha1 (chunk_image [1, 2, 3] 0)) = Inr rs"
    using sample_recver unfolding sample_chunk_def by blast
  have lpr: "LPR (sample_window 0 0 1 1) = 1" by simp
  from chunk_transferred [OF sample_fs_simps(1,3,2), of 0, OF _ _ lpr rs sample_disk_simps(1,2), of quiet_world sample_addr]
  have "\<exists>rs' x d'. reap 524288 rs' 0 7 sample_disk = Inr (x, d') \<and>
    content d' [111] = overwrite (content sample_disk [111]) (nat (0 * CHUNK_SIZE)) sample_chunk"
    unfolding sample_chunk_def by simp blast
  then obtain rs' x d' where "reap 524288 rs' 0 7 sample_disk = Inr (x, d')"
    "content d' [111] = overwrite (content sample_disk [111]) (nat (0 * CHUNK_SIZE)) sample_chunk" by blast
  moreover have "sample_chunk \<noteq> []" using sample_chunk_length by auto
  ultimately show ?thesis by (auto simp: sample_disk_simps overwrite_def)
qed

text \<open>
  \<open>reap\<close> writes nothing unless the chunk is complete and has the requested digest: it
  returns 0 for an incomplete chunk and -1 for a wrong digest.
\<close>

theorem reap_rejects:
  assumes "assembling data rs" and "length data = 524288" and "length (recv_hash rs) = 20"
    and "NPE rs < 513 \<or> recv_hash rs \<noteq> fips_sha1 data"
  shows "reap fuel rs k fd w = Inr (if NPE rs < 513 then 0 else -1, w)"
proof (cases "NPE rs < 513")
  case True
  then show ?thesis using reap_without_write(1) [OF assms(1,2)] by simp
next
  case False
  moreover have "NPE rs \<le> 513" using assms(1) by (simp add: assembling_def recv_inv_def)
  ultimately show ?thesis using reap_without_write(2) [OF assms(1,2)] assms(3,4) by simp
qed

theorem reap_rejects_witness:
  "\<exists>rs. reap 5 rs 0 7 sample_disk = Inr (0, sample_disk) \<and> reap 5 (rs\<lparr>recv_hash := replicate 20 9\<rparr>) 0 7 sample_disk = Inr (0, sample_disk)"
proof -
  obtain rs where rs: "create_Recver (fips_sha1 sample_chunk) = Inr rs" using sample_recver by blast
  have "20 \<le> length (fips_sha1 sample_chunk)" by simp
  from create_Recver_inv [OF this] rs have i: "assembling sample_chunk rs" "NPE rs < 513" "length (recv_hash rs) = 20"
    by (auto simp: assembling_def)
  then have j: "assembling sample_chunk (rs\<lparr>recv_hash := replicate 20 9\<rparr>)" by (simp add: assembling_def recv_inv_def)
  have "reap 5 rs 0 7 sample_disk = Inr (0, sample_disk)"
    "reap 5 (rs\<lparr>recv_hash := replicate 20 9\<rparr>) 0 7 sample_disk = Inr (0, sample_disk)"
    using reap_rejects [OF i(1) sample_chunk_length i(3)] reap_rejects [OF j sample_chunk_length] i(2) by simp_all
  then show ?thesis by blast
qed

text \<open>
  A \<open>write\<close> that fails is added to the position as if it had written one byte less than
  none: the next turn of the loop reads from in front of the buffer.
\<close>

theorem reap_write_error_faults:
  assumes "assembling data rs" and "length data = 524288" and "recv_bytesnum rs = CHUNK_SIZE"
    and "recv_hash rs = fips_sha1 data" and "0 \<le> k" "k < 4096"
    and "write_result w (writes w) 524288 = -1" and "2 \<le> fuel"
  shows "reap fuel rs k fd w = Inl OutOfBounds"
proof -
  have n: "NPE rs = 513" using assms(1,3) by (simp add: assembling_def CHUNK_SIZE_def)
  have m: "merge_loop (nat (NPE rs - 1)) 1 (recv_buf rs) (replicate (nat CHUNK_SIZE + 1) 0) 0 =
      Inr (data @ [0], CHUNK_SIZE)"
    using merge_assembled [OF assms(1,2)] unfolding merged_0 [of data] n
    by (simp add: merged_full [OF assms(2)] CHUNK_SIZE_def)
  have c: "check_onechunk_hash (data @ [0]) (recv_hash rs) = Inr True"
    using check_onechunk_hash_result [OF assms(2), of "recv_hash rs"] by (simp add: assms(4))
  obtain f where "fuel = Suc (Suc f)" using assms(8) by (metis le_add_diff_inverse add_2_eq_Suc)
  with write_loop_error [OF assms(2,5,6,7), of f fd] show ?thesis
    by (simp only: reap_def m) (simp add: c)
qed

theorem reap_write_error_faults_witness:
  "\<exists>rs. reap 9 rs 0 7 (sample_disk\<lparr>write_result := \<lambda>_ _. -1\<rparr>) = Inl OutOfBounds"
proof -
  obtain rs where "create_Recver (fips_sha1 sample_chunk) = Inr rs" using sample_recver by blast
  then obtain rs' where r: "assembling sample_chunk rs'" "recv_bytesnum rs' = CHUNK_SIZE"
    "recv_hash rs' = fips_sha1 sample_chunk" using sample_transfer by metis
  from reap_write_error_faults [OF r(1) sample_chunk_length r(2,3), of 0 "sample_disk\<lparr>write_result := \<lambda>_ _. -1\<rparr>" 9 7]
  show ?thesis by auto
qed

text \<open>
  C40. The byte count that decides that a chunk is complete is not updated when a stored
  packet is replaced: after a complete transfer one more packet with the last sequence
  number and a payload of more than 1025 bytes leaves the count as it is and makes \<open>reap\<close>
  write past the end of its stack buffer.
\<close>

theorem replaced_packet_overflows_reap:
  assumes "assembling data rs" and "length data = 524288" and "recv_bytesnum rs = CHUNK_SIZE"
    and "sint (Seq_Num q) = 512" and "payload q = Some bs" and "data_bytes q = int (length bs)" and "1025 < length bs"
  shows "\<exists>rs' w'. upon_receiving_datapack w q rs addr = Inr (rs', w') \<and> recv_bytesnum rs' = CHUNK_SIZE \<and>
    reap fuel rs' k fd d = Inl OutOfBounds"
proof -
  have n: "NPE rs = 513" using assms(1,3) by (simp add: assembling_def CHUNK_SIZE_def)
  have i: "recv_inv rs" using assms(1) by (simp add: assembling_def)
  have "recv_window rs 512" by (simp add: recv_window_def n)
  from receive_out_of_order [OF i this assms(4), of w addr] reap_overflow [OF assms(1,2) n assms(4-7)] n assms(3)
  show ?thesis by simp
qed

theorem replaced_packet_overflows_reap_witness:
  "\<exists>rs q rs' w'. upon_receiving_datapack quiet_world q rs sample_addr = Inr (rs', w') \<and> wf_packet q \<and>
    reap 9 rs' 0 7 sample_disk = Inl OutOfBounds"
proof -
  obtain rs where "create_Recver (fips_sha1 sample_chunk) = Inr rs" using sample_recver by blast
  then obtain rs' where r: "assembling sample_chunk rs'" "recv_bytesnum rs' = CHUNK_SIZE"
    using sample_transfer by metis
  define bs :: "byte list" where "bs = replicate 1484 0"
  have len: "length bs = 1484" by (simp add: bs_def)
  let ?q = "zero_packet\<lparr>Packet_Type := 3, Hd_len := 16, Pack_len := 1500, Seq_Num := 512, payload := Some bs\<rparr>"
  have "wf_packet ?q" using len by (auto simp: wf_packet_def overhead_def body_def zero_packet_def)
  moreover have "sint (Seq_Num ?q) = 512" "payload ?q = Some bs" "data_bytes ?q = int (length bs)" "1025 < length bs"
    by (simp_all add: data_bytes_def len)
  from replaced_packet_overflows_reap [OF r(1) sample_chunk_length r(2) this, of quiet_world sample_addr 9 0 7 sample_disk]
  have "\<exists>a b. upon_receiving_datapack quiet_world ?q rs' sample_addr = Inr (a, b) \<and> reap 9 a 0 7 sample_disk = Inl OutOfBounds"
    by blast
  ultimately show ?thesis by blast
qed

end
