(* ===== verification/BtParse.thy ===== *)
theory BtParse
  imports Spiffy
begin

text \<open>
  \<^verbatim>\<open>debug.c\<close> and \<^verbatim>\<open>bt_parse.c\<close>: the configuration record, the command line and the peer
  list. The sequence of options that \<open>getopt\<close> finds and the resolver behind
  \<open>gethostbyname\<close> are parameters. File name arrays are represented by the C string they
  hold; copying a longer string into one is out of bounds.
\<close>

section \<open>Debug levels\<close>

text \<open>The result and the new value of the global \<open>debug\<close>; a null argument is \<open>None\<close>.\<close>

definition set_debug :: "byte list option \<Rightarrow> u32 \<Rightarrow> int \<times> u32" where
  "set_debug arg debug =
     (case arg of None \<Rightarrow> (-1, debug)
      | Some a0 \<Rightarrow>
          (let a = cstr a0
           in if a = [] then (-1, debug)
              else if hd a = 63 \<or> a = ascii ''list'' then (-1, debug)
              else if is_digit (hd a) then (0, debug OR word_of_int (atoi a))
              else (0, debug)))"

section \<open>Configuration\<close>

record bt_config =
  chunk_file :: "byte list"
  has_chunk_file :: "byte list"
  output_file :: "byte list"
  peer_list_file :: "byte list"
  max_conn :: int
  identity :: int
  myport :: u16
  peers :: "bt_peer list"

definition bt_init :: bt_config where
  "bt_init = \<lparr>chunk_file = [], has_chunk_file = [], output_file = ascii ''output.dat'',
     peer_list_file = ascii ''nodes.map'', max_conn = 0, identity = 0, myport = 0, peers = []\<rparr>"

text \<open>The defaults that \<open>main\<close> sets when it is compiled with \<open>TESTING\<close>, as the Makefile does.\<close>

definition testing_defaults :: "bt_config \<Rightarrow> bt_config" where
  "testing_defaults c = c\<lparr>identity := 1, chunk_file := ascii ''chunkfile'', has_chunk_file := ascii ''haschunks''\<rparr>"

definition copy_name :: "byte list \<Rightarrow> (byte list \<Rightarrow> 'a res) \<Rightarrow> 'a res" where
  "copy_name s k = guard (length (cstr s) < BT_FILENAME_LEN) OutOfBounds (k (cstr s))"

definition short :: "int \<Rightarrow> int" where
  "short i = sint (word_of_int i :: u16)"

fun bt_peer_info :: "bt_peer list \<Rightarrow> int \<Rightarrow> bt_peer option" where
  "bt_peer_info [] pid = None"
| "bt_peer_info (p # ps) pid = (if peer_id p = pid then Some p else bt_peer_info ps pid)"

section \<open>The peer list\<close>

text \<open>
  \<open>sscanf(line, "%d %s %d", \<dots>)\<close>: the number of conversions, \<open>-1\<close> at the end of the input,
  and the values converted. Variables without a value keep the one of an earlier line.
\<close>

type_synonym peer_vars = "int option \<times> byte list option \<times> int option"

definition scan_peer :: "byte list \<Rightarrow> peer_vars \<Rightarrow> int \<times> peer_vars" where
  "scan_peer line v =
     (case v of (v1, v2, v3) \<Rightarrow>
       if skip_space line = [] then (-1, v)
       else case scan_int line of None \<Rightarrow> (0, v)
       | Some (i, r1) \<Rightarrow>
          (case scan_word None r1 of None \<Rightarrow> (1, (Some i, v2, v3))
           | Some (host, r2) \<Rightarrow>
              (case scan_int r2 of None \<Rightarrow> (2, (Some i, Some host, v3))
               | Some (port, _) \<Rightarrow> (3, (Some i, Some host, Some port)))))"

definition peer_of_vars :: "(byte list \<Rightarrow> u32 option) \<Rightarrow> peer_vars \<Rightarrow> bt_peer res" where
  "peer_of_vars gethostbyname v =
     (case v of (Some nodeid, Some hostname, Some port) \<Rightarrow>
        (case gethostbyname hostname of None \<Rightarrow> Inl AssertFail
         | Some ip \<Rightarrow> Inr \<lparr>peer_id = short nodeid,
              peer_addr = \<lparr>sin_family = AF_INET, sin_port = htons (word_of_int port), sin_addr = ip\<rparr>\<rparr>)
      | _ \<Rightarrow> Inl Uninitialised)"

function peer_list_loop ::
  "(byte list \<Rightarrow> u32 option) \<Rightarrow> byte list \<Rightarrow> peer_vars \<Rightarrow> bt_peer list \<Rightarrow> bt_peer list res" where
  "peer_list_loop gethostbyname f v ps =
     (case fgets BT_FILENAME_LEN f of None \<Rightarrow> Inr ps
      | Some (line, rest) \<Rightarrow>
          if hd line = 35 then peer_list_loop gethostbyname rest v ps
          else case scan_peer (cstr line) v of (n, v') \<Rightarrow>
            guard (n \<noteq> 0) AssertFail
              (ebind (peer_of_vars gethostbyname v') (\<lambda>p.
               peer_list_loop gethostbyname rest v' (p # ps))))"
  by pat_completeness auto
termination
  by (relation "measure (\<lambda>(g, f, v, ps). length f)") (auto dest: fgets_shortens)

declare peer_list_loop.simps [simp del]

definition bt_parse_peer_list ::
  "(byte list \<Rightarrow> u32 option) \<Rightarrow> (byte list \<Rightarrow> byte list option) \<Rightarrow> bt_config \<Rightarrow> bt_config res" where
  "bt_parse_peer_list gethostbyname fs config =
     (case fs (peer_list_file config) of None \<Rightarrow> Inl AssertFail
      | Some f \<Rightarrow> ebind (peer_list_loop gethostbyname f (None, None, None) (peers config))
                    (\<lambda>ps. Inr (config\<lparr>peers := ps\<rparr>)))"

section \<open>The command line\<close>

definition apply_option ::
  "byte \<Rightarrow> byte list \<Rightarrow> bt_config \<times> u32 \<Rightarrow> (bt_config \<times> u32) res" where
  "apply_option c optarg s =
     (case s of (config, debug) \<Rightarrow>
       if c = 104 then Inl (ExitProgram 0)
       else if c = 100
       then (case set_debug (Some optarg) debug of (r, d) \<Rightarrow>
               if r = -1 then Inl (ExitProgram (-1)) else Inr (config, d))
       else if c = 112 then copy_name optarg (\<lambda>n. Inr (config\<lparr>peer_list_file := n\<rparr>, debug))
       else if c = 99 then copy_name optarg (\<lambda>n. Inr (config\<lparr>has_chunk_file := n\<rparr>, debug))
       else if c = 102 then copy_name optarg (\<lambda>n. Inr (config\<lparr>chunk_file := n\<rparr>, debug))
       else if c = 109 then Inr (config\<lparr>max_conn := atoi optarg\<rparr>, debug)
       else if c = 105 then Inr (config\<lparr>identity := short (atoi optarg)\<rparr>, debug)
       else Inl (ExitProgram (-1)))"

fun apply_options :: "(byte \<times> byte list) list \<Rightarrow> bt_config \<times> u32 \<Rightarrow> (bt_config \<times> u32) res" where
  "apply_options [] s = Inr s"
| "apply_options ((c, optarg) # opts) s = ebind (apply_option c optarg s) (apply_options opts)"

definition bt_parse_command_line ::
  "(byte list \<Rightarrow> u32 option) \<Rightarrow> (byte list \<Rightarrow> byte list option) \<Rightarrow> (byte \<times> byte list) list
   \<Rightarrow> bt_config \<times> u32 \<Rightarrow> (bt_config \<times> u32) res" where
  "bt_parse_command_line gethostbyname fs opts s =
     ebind (apply_options opts s) (\<lambda>(config, debug).
     ebind (bt_parse_peer_list gethostbyname fs config) (\<lambda>config.
     if identity config = 0 then Inl (ExitProgram (-1))
     else case bt_peer_info (peers config) (identity config) of None \<Rightarrow> Inl (ExitProgram (-1))
     | Some p \<Rightarrow>
         guard (chunk_file config \<noteq> []) AssertFail
           (guard (has_chunk_file config \<noteq> []) AssertFail
              (Inr (config\<lparr>myport := ntohs (sin_port (peer_addr p))\<rparr>, debug)))))"

section \<open>What the peer list parser accepts\<close>

text \<open>One entry of a peer list file, as a generator would print it.\<close>

record peer_entry =
  entry_id :: nat
  entry_host :: "byte list"
  entry_port :: nat

definition entry_line :: "peer_entry \<Rightarrow> byte list" where
  "entry_line e = show_nat (entry_id e) @ 32 # entry_host e @ 32 # show_nat (entry_port e) @ [10]"

definition wf_entry :: "(byte list \<Rightarrow> u32 option) \<Rightarrow> peer_entry \<Rightarrow> bool" where
  "wf_entry resolve e \<longleftrightarrow> entry_id e < 2 ^ 15 \<and> entry_port e < 2 ^ 16 \<and> entry_host e \<noteq> [] \<and>
     list_all (\<lambda>c. \<not> is_space c \<and> c \<noteq> 0) (entry_host e) \<and> length (entry_line e) \<le> 254 \<and>
     resolve (entry_host e) \<noteq> None"

definition entry_peer :: "(byte list \<Rightarrow> u32 option) \<Rightarrow> peer_entry \<Rightarrow> bt_peer" where
  "entry_peer resolve e = \<lparr>peer_id = int (entry_id e),
     peer_addr = \<lparr>sin_family = AF_INET, sin_port = htons (of_nat (entry_port e)),
                  sin_addr = the (resolve (entry_host e))\<rparr>\<rparr>"

lemma fgets_line:
  assumes "10 \<notin> set xs" and "length xs + 1 < n"
  shows "fgets n (xs @ 10 # r) = Some (xs @ [10], r)"
proof -
  have "takeWhile (\<lambda>c. c \<noteq> 10) (xs @ 10 # r) = xs"
    using assms(1) by (subst takeWhile_append2) auto
  with assms(2) show ?thesis by (simp add: fgets_def Let_def)
qed

lemma digit_bytes:
  "is_digit c \<Longrightarrow> c \<noteq> 10 \<and> c \<noteq> 0 \<and> c \<noteq> 35 \<and> c \<noteq> 32 \<and> \<not> is_space c"
  by (auto simp: is_digit_def is_space_def word_le_nat_alt)

lemma not_space_10: "\<not> is_space c \<Longrightarrow> c \<noteq> 10 \<and> c \<noteq> 32"
  by (auto simp: is_space_def word_le_nat_alt)

lemma show_nat_set: "c \<in> set (show_nat n) \<Longrightarrow> is_digit c"
  using show_nat_digits [of n] by (simp add: list_all_iff)

lemma scan_int_space: "scan_int (32 # s) = scan_int s"
  by (simp add: scan_int_def skip_space_def is_space_def)

lemma not_digit_blank: "\<not> is_digit 32" "\<not> is_digit 10"
  by (simp_all add: is_digit_def word_le_nat_alt)

lemma scan_word_space:
  assumes "xs \<noteq> []" and "list_all (\<lambda>c. \<not> is_space c) xs"
  shows "scan_word None (32 # xs @ 32 # r) = Some (xs, 32 # r)"
proof -
  have sp: "is_space 32" by (simp add: is_space_def)
  have sk: "skip_space (32 # xs @ 32 # r) = xs @ 32 # r"
    using assms by (cases xs) (auto simp: skip_space_def sp)
  have "takeWhile (\<lambda>c. \<not> is_space c) (xs @ 32 # r) = xs"
    using assms(2) sp by (subst takeWhile_append2) (auto simp: list_all_iff)
  with assms(1) show ?thesis by (simp add: scan_word_def Let_def sk)
qed

lemma scan_peer_entry:
  assumes "wf_entry resolve e"
  shows "scan_peer (entry_line e) v =
    (3, (Some (int (entry_id e)), Some (entry_host e), Some (int (entry_port e))))"
proof -
  have host: "list_all (\<lambda>c. \<not> is_space c) (entry_host e)" "entry_host e \<noteq> []"
    using assms by (auto simp: wf_entry_def list_all_iff)
  have b: "int (entry_id e) < 2 ^ 31" "int (entry_port e) < 2 ^ 31"
    using assms by (auto simp: wf_entry_def)
  obtain c cs where cs: "show_nat (entry_id e) = c # cs"
    using show_nat_digits [of "entry_id e"] by (cases "show_nat (entry_id e)") auto
  have "is_digit c" using show_nat_set [of c "entry_id e"] cs by simp
  then have "skip_space (entry_line e) \<noteq> []"
    using digit_bytes by (simp add: entry_line_def skip_space_def cs)
  moreover have "scan_int (entry_line e) = Some (int (entry_id e), 32 # entry_host e @ 32 # show_nat (entry_port e) @ [10])"
    unfolding entry_line_def using scan_int_show_nat [OF b(1)] not_digit_blank by simp
  moreover have "scan_int (32 # show_nat (entry_port e) @ [10]) = Some (int (entry_port e), [10])"
    using scan_int_show_nat [OF b(2), of "[10]"] not_digit_blank by (simp add: scan_int_space)
  ultimately show ?thesis
    by (simp add: scan_peer_def scan_word_space [OF host(2,1)] split: prod.split)
qed

lemma peer_of_entry:
  assumes "wf_entry resolve e"
  shows "peer_of_vars resolve (Some (int (entry_id e)), Some (entry_host e), Some (int (entry_port e)))
    = Inr (entry_peer resolve e)"
proof -
  have "short (int (entry_id e)) = int (entry_id e)"
    using assms by (simp add: short_def wf_entry_def signed_of_int signed_take_bit_int_eq_self del: of_int_of_nat_eq)
  with assms show ?thesis by (auto simp: peer_of_vars_def wf_entry_def entry_peer_def)
qed

lemma entry_line_bytes:
  assumes "wf_entry resolve e"
  shows "cstr (entry_line e) = entry_line e" "hd (entry_line e) \<noteq> 35"
    "fgets BT_FILENAME_LEN (entry_line e @ r) = Some (entry_line e, r)"
proof -
  let ?b = "show_nat (entry_id e) @ 32 # entry_host e @ 32 # show_nat (entry_port e)"
  have eq: "entry_line e = ?b @ [10]" by (simp add: entry_line_def)
  have host: "c \<in> set (entry_host e) \<Longrightarrow> \<not> is_space c \<and> c \<noteq> 0" for c
    using assms by (auto simp: wf_entry_def list_all_iff)
  have nb: "10 \<notin> set ?b" using host not_space_10 show_nat_set digit_bytes by fastforce
  have nz: "\<forall>c \<in> set (entry_line e). c \<noteq> 0"
    using host show_nat_set digit_bytes by (fastforce simp: entry_line_def)
  then show "cstr (entry_line e) = entry_line e" by (simp add: cstr_def takeWhile_eq_all_conv)
  show "fgets BT_FILENAME_LEN (entry_line e @ r) = Some (entry_line e, r)"
    using fgets_line [OF nb, of BT_FILENAME_LEN r] assms by (simp add: eq wf_entry_def BT_FILENAME_LEN_def)
  obtain c cs where cs: "show_nat (entry_id e) = c # cs"
    using show_nat_digits [of "entry_id e"] by (cases "show_nat (entry_id e)") auto
  then show "hd (entry_line e) \<noteq> 35"
    using show_nat_set [of c "entry_id e"] digit_bytes by (simp add: entry_line_def)
qed

lemma peer_list_loop_entries:
  assumes "list_all (wf_entry resolve) es"
  shows "peer_list_loop resolve (concat (map entry_line es)) v ps =
    Inr (rev (map (entry_peer resolve) es) @ ps)"
  using assms
proof (induction es arbitrary: v ps)
  case Nil
  then show ?case by (simp add: peer_list_loop.simps fgets_def)
next
  case (Cons e es)
  then have e: "wf_entry resolve e" by simp
  from Cons show ?case
    by (subst peer_list_loop.simps)
       (simp add: entry_line_bytes [OF e] scan_peer_entry [OF e] peer_of_entry [OF e])
qed

lemma bt_peer_info_find: "bt_peer_info ps pid = find (\<lambda>p. peer_id p = pid) ps"
  by (induction ps) auto

end
