(* ===== verification/InputBuffer.thy ===== *)
theory InputBuffer
  imports CText
begin

text \<open>
  \<^verbatim>\<open>input_buffer.c\<close>: the line buffer for terminal input. The handler of a complete line is
  a parameter, as it is in the code. The outcome of \<open>read\<close> is \<open>None\<close> for an error and
  otherwise the bytes it stored.
\<close>

section \<open>The buffer and its operations\<close>

definition USERBUF_SIZE :: nat where "USERBUF_SIZE = 8191"

record user_iobuf =
  ubuf :: "byte list"
  cur :: u32

definition create_userbuf :: user_iobuf where
  "create_userbuf = \<lparr>ubuf = replicate (USERBUF_SIZE + 1) 0, cur = 0\<rparr>"

text \<open>
  A line is cut off: the newline becomes a NUL, and everything behind it moves to the
  front. Searching a buffer without any NUL runs off its end.
\<close>

definition shift_line :: "nat \<Rightarrow> user_iobuf \<Rightarrow> user_iobuf res" where
  "shift_line off b =
     (let buf1 = (ubuf b)[off := 0]
      in ebind (mem_read buf1 (int off + 1) (int USERBUF_SIZE - int off)) (\<lambda>tl.
         ebind (mem_write buf1 0 tl) (\<lambda>buf2.
         Inr (b\<lparr>ubuf := buf2, cur := cur b - of_nat (off + 1)\<rparr>))))"

lemma strchr_bound: "strchr s c = Some off \<Longrightarrow> off < length (cstr s)"
  by (auto simp: strchr_def Let_def split: if_splits)

lemma takeWhile_drop: "k \<le> length (takeWhile P xs) \<Longrightarrow> takeWhile P (drop k xs) = drop k (takeWhile P xs)"
  by (induction xs arbitrary: k) (auto simp: drop_Cons' split: if_splits)

lemma cstr_take:
  assumes "length (cstr ys) < n"
  shows "cstr (take n ys @ r) = cstr ys \<or> length ys < n"
  using assms
proof (induction ys arbitrary: n)
  case (Cons y ys)
  then show ?case by (cases n) (auto simp: cstr_def split: if_splits)
qed simp

lemma cstr_shorter: "0 \<in> set bs \<Longrightarrow> length (cstr bs) < length bs"
  by (induction bs) (auto simp: cstr_def)

lemma shift_line_result:
  assumes l: "length (ubuf b) = USERBUF_SIZE + 1" and z: "0 \<in> set (ubuf b)" and o: "off < length (cstr (ubuf b))"
  shows "\<exists>b'. shift_line off b = Inr b' \<and> length (ubuf b') = USERBUF_SIZE + 1 \<and> 0 \<in> set (ubuf b') \<and>
    cstr (ubuf b') = drop (off + 1) (cstr (ubuf b)) \<and> cur b' = cur b - of_nat (off + 1) \<and>
    ubuf b' = drop (off + 1) (ubuf b) @ drop (USERBUF_SIZE - off) ((ubuf b)[off := 0])"
proof -
  let ?buf = "ubuf b" and ?n = "USERBUF_SIZE - off"
  have z1: "length (cstr ?buf) < USERBUF_SIZE + 1" using cstr_shorter [OF z] l by simp
  then have on: "off < USERBUF_SIZE" using o by simp
  let ?tl = "drop (off + 1) ?buf"
  have tl: "length ?tl = ?n" using l by simp
  have rd: "mem_read (?buf[off := 0]) (int off + 1) (int USERBUF_SIZE - int off) = Inr ?tl"
    using on l tl by (simp add: mem_read_def nat_diff_distrib Suc_nat_eq_nat_zadd1 [symmetric] add.commute)
  have wr: "mem_write (?buf[off := 0]) 0 ?tl = Inr (?tl @ drop ?n (?buf[off := 0]))"
    using on l by (auto simp: mem_write_def)
  have ct: "cstr ?tl = drop (off + 1) (cstr ?buf)"
    using o by (simp add: cstr_def takeWhile_drop)
  have lt: "length (cstr ?tl) < ?n" using ct z1 o by simp
  then have c: "cstr (?tl @ r) = cstr ?tl" for r
    using cstr_take [OF lt, of r] tl by simp
  have "0 \<in> set ?tl"
  proof (rule ccontr)
    assume "0 \<notin> set ?tl"
    then have "cstr ?tl = ?tl" by (auto simp: cstr_def takeWhile_eq_all_conv)
    with lt tl show False by simp
  qed
  with rd wr c ct tl on show ?thesis
    by (simp add: shift_line_def Let_def l)
qed

function input_loop :: "('a \<Rightarrow> byte list \<Rightarrow> 'a res) \<Rightarrow> user_iobuf \<Rightarrow> 'a \<Rightarrow> (user_iobuf \<times> 'a) res" where
  "input_loop handle_line b s =
     guard (length (ubuf b) = USERBUF_SIZE + 1 \<and> 0 \<in> set (ubuf b)) OutOfBounds
       (case strchr (ubuf b) 10 of None \<Rightarrow> Inr (b, s)
        | Some off \<Rightarrow>
            ebind (handle_line s (cstr ((ubuf b)[off := 0]))) (\<lambda>s'.
            ebind (shift_line off b) (\<lambda>b'. input_loop handle_line b' s')))"
  by pat_completeness auto
termination
proof (relation "measure (\<lambda>(h, b, s). length (cstr (ubuf b)))", simp)
  fix h :: "'a \<Rightarrow> byte list \<Rightarrow> 'a res" and b s off s' b'
  assume g: "length (ubuf b) = USERBUF_SIZE + 1 \<and> 0 \<in> set (ubuf b)" and f: "strchr (ubuf b) 10 = Some off"
    and r: "shift_line off b = Inr b'"
  have o: "off < length (cstr (ubuf b))" by (rule strchr_bound [OF f])
  with shift_line_result [OF _ _ o] g r have "cstr (ubuf b') = drop (off + 1) (cstr (ubuf b))" by auto
  with o show "((h, b', s'), (h, b, s)) \<in> measure (\<lambda>(h, b, s). length (cstr (ubuf b)))" by simp
qed

declare input_loop.simps [simp del]

definition process_user_input ::
  "('a \<Rightarrow> byte list \<Rightarrow> 'a res) \<Rightarrow> byte list option \<Rightarrow> user_iobuf \<Rightarrow> 'a \<Rightarrow> (user_iobuf \<times> 'a) res" where
  "process_user_input handle_line input b s =
     (if cur b \<ge> of_nat (USERBUF_SIZE - 1) then Inl (ExitProgram (-1))
      else case input of None \<Rightarrow> input_loop handle_line b s
      | Some bs \<Rightarrow>
          ebind (mem_write (ubuf b) (int (unat (cur b))) bs) (\<lambda>buf1.
          input_loop handle_line (b\<lparr>ubuf := buf1, cur := cur b + of_nat (length bs)\<rparr>) s))"

section \<open>Lines of a byte stream\<close>

text \<open>The complete lines of a byte sequence, without their newlines, and what follows the last one.\<close>

function lines_of :: "byte list \<Rightarrow> byte list list" where
  "lines_of s = (if 10 \<in> set s
     then takeWhile (\<lambda>c. c \<noteq> 10) s # lines_of (drop (length (takeWhile (\<lambda>c. c \<noteq> 10) s) + 1) s) else [])"
  by pat_completeness auto
termination
  by (relation "measure length") (auto simp: length_greater_0_conv [symmetric] simp del: length_greater_0_conv
      dest: length_pos_if_in_set)

declare lines_of.simps [simp del]

definition rest_of :: "byte list \<Rightarrow> byte list" where
  "rest_of s = rev (takeWhile (\<lambda>c. c \<noteq> 10) (rev s))"

fun feed :: "('a \<Rightarrow> byte list \<Rightarrow> 'a res) \<Rightarrow> 'a \<Rightarrow> byte list list \<Rightarrow> 'a res" where
  "feed h s [] = Inr s"
| "feed h s (l # ls) = ebind (h s l) (\<lambda>s'. feed h s' ls)"

lemma feed_append: "feed h s (xs @ ys) = ebind (feed h s xs) (\<lambda>s'. feed h s' ys)"
  by (induction xs arbitrary: s) (simp_all add: ebind_assoc)

lemma rest_of_no_newline: "10 \<notin> set s \<Longrightarrow> rest_of s = s"
  by (simp add: rest_of_def takeWhile_absent)

lemma rest_of_after: "rest_of (xs @ 10 # ys) = rest_of ys"
proof (cases "10 \<in> set ys")
  case True
  then show ?thesis by (simp add: rest_of_def takeWhile_append1)
next
  case False
  then show ?thesis using takeWhile_upto [of 10 "rev ys" "rev xs"]
    by (simp add: rest_of_no_newline) (simp add: rest_of_def)
qed

lemma newline_split:
  assumes "10 \<in> set s"
  obtains l r where "s = l @ 10 # r" and "10 \<notin> set l" and "takeWhile (\<lambda>c. c \<noteq> 10) s = l"
    and "lines_of s = l # lines_of r" and "rest_of s = rest_of r"
proof -
  obtain l r where s: "s = l @ 10 # r" "10 \<notin> set l" using split_list_first [OF assms] by blast
  have t: "takeWhile (\<lambda>c. c \<noteq> 10) s = l" unfolding s(1) by (rule takeWhile_upto [OF s(2)])
  have "lines_of s = l # lines_of r"
    using assms unfolding lines_of.simps [of s] t by (simp add: s(1))
  with s t show ?thesis using rest_of_after by (intro that) auto
qed

lemma lines_of_append: "lines_of (s @ t) = lines_of s @ lines_of (rest_of s @ t)"
proof (induction s rule: lines_of.induct)
  case (1 s)
  show ?case
  proof (cases "10 \<in> set s")
    case False
    then show ?thesis by (simp add: lines_of.simps [of s] rest_of_no_newline)
  next
    case True
    then obtain l r where r: "s = l @ 10 # r" "10 \<notin> set l" "takeWhile (\<lambda>c. c \<noteq> 10) s = l"
      "lines_of s = l # lines_of r" "rest_of s = rest_of r" by (rule newline_split)
    have "drop (length (takeWhile (\<lambda>c. c \<noteq> 10) s) + 1) s = r"
      unfolding r(3) by (subst r(1)) simp
    from "1.IH" [OF True, unfolded this]
    have ih: "lines_of (r @ t) = lines_of r @ lines_of (rest_of r @ t)" .
    have "takeWhile (\<lambda>c. c \<noteq> 10) (s @ t) = l"
      unfolding r(1) using takeWhile_upto [OF r(2), of "r @ t"] by simp
    moreover have "drop (length l + 1) (s @ t) = r @ t" by (simp add: r(1))
    ultimately have "lines_of (s @ t) = l # lines_of (r @ t)"
      using True by (subst lines_of.simps) simp
    with ih r show ?thesis by simp
  qed
qed

section \<open>What the handler sees\<close>

text \<open>A buffer that holds the text \<open>s\<close> and zeros behind it.\<close>

definition clean_buf :: "byte list \<Rightarrow> user_iobuf" where
  "clean_buf s = \<lparr>ubuf = s @ replicate (USERBUF_SIZE + 1 - length s) 0, cur = of_nat (length s)\<rparr>"

lemma clean_buf_props:
  assumes "length s \<le> USERBUF_SIZE" and "0 \<notin> set s"
  shows "length (ubuf (clean_buf s)) = USERBUF_SIZE + 1" "0 \<in> set (ubuf (clean_buf s))"
    "cstr (ubuf (clean_buf s)) = s"
proof -
  show "length (ubuf (clean_buf s)) = USERBUF_SIZE + 1" "0 \<in> set (ubuf (clean_buf s))"
    using assms(1) by (auto simp: clean_buf_def)
  have r: "replicate (USERBUF_SIZE + 1 - length s) (0::byte) = 0 # replicate (USERBUF_SIZE - length s) 0"
    using assms(1) by (simp add: Suc_diff_le)
  have "\<forall>c\<in>set s. c \<noteq> 0" using assms(2) by auto
  then show "cstr (ubuf (clean_buf s)) = s"
    unfolding clean_buf_def cstr_def by (simp add: r takeWhile_append2)
qed

lemma shift_line_clean:
  assumes s: "s = l @ 10 # r" and len: "length s \<le> 4096" and z: "0 \<notin> set s"
  shows "shift_line (length l) (clean_buf s) = Inr (clean_buf r)"
proof -
  let ?b = "clean_buf s"
  have U: "USERBUF_SIZE = 8191" by (simp add: USERBUF_SIZE_def)
  have le: "length s \<le> USERBUF_SIZE" using len U by simp
  note p = clean_buf_props [OF le z]
  have "length l < length (cstr (ubuf ?b))" unfolding p(3) by (simp add: s)
  from shift_line_result [OF p(1,2) this] obtain b' where b': "shift_line (length l) ?b = Inr b'"
    "cur b' = cur ?b - of_nat (length l + 1)"
    "ubuf b' = drop (length l + 1) (ubuf ?b) @ drop (USERBUF_SIZE - length l) ((ubuf ?b)[length l := 0])" by blast
  have n: "length l + length r < 4096" using len s by simp
  have 1: "drop (length l + 1) (ubuf ?b) = r @ replicate (USERBUF_SIZE + 1 - length s) 0"
    by (simp add: clean_buf_def s)
  have 2: "drop (USERBUF_SIZE - length l) ((ubuf ?b)[length l := 0]) = replicate (length l + 1) 0"
  proof -
    have "(ubuf ?b)[length l := 0] = (l @ 0 # r) @ replicate (USERBUF_SIZE + 1 - length s) 0"
      by (simp add: clean_buf_def s)
    moreover have "drop k (xs @ replicate m 0) = replicate (m - (k - length xs)) (0::byte)"
      if "length xs \<le> k" for k m and xs :: "byte list" using that by simp
    moreover have "USERBUF_SIZE + 1 - length s - (USERBUF_SIZE - length l - length (l @ 0 # r)) = length l + 1"
      using n by (simp add: s U)
    moreover have "length (l @ 0 # r) \<le> USERBUF_SIZE - length l" using n by (simp add: U)
    ultimately show ?thesis by metis
  qed
  have "replicate (USERBUF_SIZE + 1 - length s) (0::byte) @ replicate (length l + 1) 0
      = replicate (USERBUF_SIZE + 1 - length r) 0"
    unfolding replicate_add [symmetric]
    using n by (intro arg_cong [where f = "\<lambda>k. replicate k 0"]) (simp add: s U)
  moreover have "ubuf b' = r @ (replicate (USERBUF_SIZE + 1 - length s) 0 @ replicate (length l + 1) 0)"
    unfolding b'(3) 1 2 by (simp only: append_assoc)
  ultimately have "ubuf b' = ubuf (clean_buf r)" by (simp only: clean_buf_def user_iobuf.simps)
  moreover have "cur b' = cur (clean_buf r)" using b'(2) by (simp add: clean_buf_def s)
  ultimately show ?thesis using b'(1) by (metis user_iobuf.equality old.unit.exhaust)
qed

lemma strchr_newline:
  assumes "10 \<in> set s" and "cstr t = s"
  shows "strchr t 10 = Some (length (takeWhile (\<lambda>c. c \<noteq> 10) s))"
proof -
  obtain l r where "s = l @ 10 # r" "takeWhile (\<lambda>c. c \<noteq> 10) s = l"
    using assms(1) by (rule newline_split)
  moreover have "length l < length (l @ 10 # r)" by simp
  ultimately have "length (takeWhile (\<lambda>c. c \<noteq> 10) s) < length s" by metis
  then show ?thesis unfolding strchr_def Let_def assms(2) by (simp only: if_True)
qed

lemma input_loop_clean:
  assumes "length s \<le> 4096" and "0 \<notin> set s"
  shows "input_loop h (clean_buf s) st =
    ebind (feed h st (lines_of s)) (\<lambda>st'. Inr (clean_buf (rest_of s), st'))"
  using assms
proof (induction "length s" arbitrary: s st rule: less_induct)
  case less
  have le: "length s \<le> USERBUF_SIZE" using less.prems(1) by (simp add: USERBUF_SIZE_def)
  note p = clean_buf_props [OF le less.prems(2)]
  show ?case
  proof (cases "10 \<in> set s")
    case False
    then have t: "takeWhile (\<lambda>c. c \<noteq> 10) s = s" by (rule takeWhile_absent)
    have "strchr (ubuf (clean_buf s)) 10 = None"
      unfolding strchr_def Let_def p(3) t by simp
    with p False show ?thesis
      by (subst input_loop.simps) (simp add: lines_of.simps [of s] rest_of_no_newline)
  next
    case True
    then obtain l r where r: "s = l @ 10 # r" "10 \<notin> set l" "takeWhile (\<lambda>c. c \<noteq> 10) s = l"
      "lines_of s = l # lines_of r" "rest_of s = rest_of r" by (rule newline_split)
    have sc: "strchr (ubuf (clean_buf s)) 10 = Some (length l)"
      using strchr_newline [OF True p(3)] r(3) by simp
    have "(ubuf (clean_buf s))[length l := 0] = l @ 0 # r @ replicate (USERBUF_SIZE + 1 - length s) 0"
      by (simp add: clean_buf_def r(1))
    moreover have "\<forall>c\<in>set l. c \<noteq> 0" using less.prems(2) by (auto simp: r(1))
    ultimately have ln: "cstr ((ubuf (clean_buf s))[length l := 0]) = l"
      by (simp add: cstr_def takeWhile_append2)
    have sh: "shift_line (length l) (clean_buf s) = Inr (clean_buf r)"
      by (rule shift_line_clean [OF r(1) less.prems])
    have ih: "input_loop h (clean_buf r) st' =
        ebind (feed h st' (lines_of r)) (\<lambda>st'. Inr (clean_buf (rest_of r), st'))" for st'
      using less.prems by (intro less.hyps) (auto simp: r(1))
    have "input_loop h (clean_buf s) st = ebind (h st l) (\<lambda>st'. input_loop h (clean_buf r) st')"
      using p sc sh ln by (subst input_loop.simps) simp
    then show ?thesis unfolding ih r(4,5) by (simp add: ebind_assoc)
  qed
qed

lemma process_user_input_clean:
  assumes "length s + length bs \<le> 4096" and "0 \<notin> set (s @ bs)"
  shows "process_user_input h (Some bs) (clean_buf s) st =
    ebind (feed h st (lines_of (s @ bs))) (\<lambda>st'. Inr (clean_buf (rest_of (s @ bs)), st'))"
proof -
  have u: "unat (cur (clean_buf s)) = length s"
    using assms(1) by (simp add: clean_buf_def unat_of_nat)
  have c: "\<not> cur (clean_buf s) \<ge> of_nat (USERBUF_SIZE - 1)"
    using assms(1) by (simp add: word_le_nat_alt u USERBUF_SIZE_def)
  have "replicate (USERBUF_SIZE + 1 - length s) (0::byte)
      = replicate (length bs) 0 @ replicate (USERBUF_SIZE + 1 - length (s @ bs)) 0"
    using assms(1) by (intro replicate_split) (simp add: USERBUF_SIZE_def)
  then have "mem_write (ubuf (clean_buf s)) (int (length s)) bs = Inr (ubuf (clean_buf (s @ bs)))"
    using mem_write_middle [of "int (length s)" s bs "replicate (length bs) 0"] by (simp add: clean_buf_def)
  moreover have "(clean_buf s)\<lparr>ubuf := ubuf (clean_buf (s @ bs)), cur := cur (clean_buf s) + of_nat (length bs)\<rparr>
      = clean_buf (s @ bs)"
    by (simp add: clean_buf_def)
  ultimately show ?thesis
    using input_loop_clean [of "s @ bs" h st] assms c u by (simp add: process_user_input_def)
qed

text \<open>A sequence of reads.\<close>

fun process_reads ::
  "('a \<Rightarrow> byte list \<Rightarrow> 'a res) \<Rightarrow> byte list list \<Rightarrow> user_iobuf \<Rightarrow> 'a \<Rightarrow> (user_iobuf \<times> 'a) res" where
  "process_reads h [] b s = Inr (b, s)"
| "process_reads h (r # rs) b s = ebind (process_user_input h (Some r) b s) (\<lambda>(b', s'). process_reads h rs b' s')"

lemma rest_of_append: "rest_of (rest_of s @ t) = rest_of (s @ t)"
proof (cases "10 \<in> set s")
  case True
  then show ?thesis
  proof (induction s rule: lines_of.induct)
    case (1 s)
    from "1.prems" obtain l r where r: "s = l @ 10 # r" "takeWhile (\<lambda>c. c \<noteq> 10) s = l" "rest_of s = rest_of r"
      by (rule newline_split)
    have d: "drop (length (takeWhile (\<lambda>c. c \<noteq> 10) s) + 1) s = r" unfolding r(2) by (subst r(1)) simp
    show ?case
    proof (cases "10 \<in> set r")
      case True
      with "1.IH" [OF "1.prems"] d r show ?thesis by (simp add: rest_of_after)
    next
      case False
      with r show ?thesis by (simp add: rest_of_no_newline rest_of_after)
    qed
  qed
qed (simp add: rest_of_no_newline)

lemma process_reads_lines:
  assumes "\<And>i. i < length rs \<Longrightarrow> length (rest_of (s @ concat (take i rs))) + length (rs ! i) \<le> 4096"
    and "0 \<notin> set s" and "\<forall>r\<in>set rs. 0 \<notin> set r" and "rest_of s = s" and "lines_of s = []"
  shows "process_reads h rs (clean_buf s) st =
    ebind (feed h st (lines_of (s @ concat rs))) (\<lambda>st'. Inr (clean_buf (rest_of (s @ concat rs)), st'))"
  using assms
proof (induction rs arbitrary: s st)
  case Nil
  then show ?case by simp
next
  case (Cons r rs)
  let ?s = "rest_of (s @ r)"
  have sub: "set (rest_of x) \<subseteq> set x" for x
    unfolding rest_of_def by (auto dest: set_takeWhileD)
  have len: "length s + length r \<le> 4096" using Cons.prems(1) [of 0] Cons.prems(4) by simp
  have z: "0 \<notin> set (s @ r)" using Cons.prems by auto
  have nn: "10 \<notin> set ?s" unfolding rest_of_def by (auto dest: set_takeWhileD)
  have ih: "process_reads h rs (clean_buf ?s) st' =
      ebind (feed h st' (lines_of (?s @ concat rs))) (\<lambda>st'. Inr (clean_buf (rest_of (?s @ concat rs)), st'))" for st'
  proof (rule Cons.IH)
    show "length (rest_of (?s @ concat (take i rs))) + length (rs ! i) \<le> 4096" if "i < length rs" for i
      using Cons.prems(1) [of "Suc i"] that by (simp add: rest_of_append)
    show "0 \<notin> set ?s" using z sub by blast
    show "rest_of ?s = ?s" using nn by (rule rest_of_no_newline)
    show "lines_of ?s = []" using nn by (simp add: lines_of.simps)
  qed (use Cons.prems in auto)
  have "process_reads h (r # rs) (clean_buf s) st =
      ebind (feed h st (lines_of (s @ r))) (\<lambda>st'. process_reads h rs (clean_buf ?s) st')"
    using process_user_input_clean [OF len z, of h st] by (simp add: ebind_assoc)
  then show ?case
    unfolding ih using lines_of_append [of "s @ r" "concat rs"]
    by (simp add: feed_append ebind_assoc rest_of_append)
qed

section \<open>Handlers that keep an invariant\<close>

lemma feed_run_steps: "feed h s ls = run_steps h s ls"
  by (induction ls arbitrary: s) (simp_all cong: ebind_cong)

lemma rest_of_set: "set (rest_of s) \<subseteq> set s" "10 \<notin> set (rest_of s)"
  unfolding rest_of_def by (auto dest: set_takeWhileD)

text \<open>
  The client of the buffer gives a handler with an invariant; a read then keeps it, and leaves
  in the buffer what is left of the input.
\<close>

locale line_handler = safe_machine h adm inv
  for h :: "'s \<Rightarrow> byte list \<Rightarrow> 's res" and adm :: "'s \<Rightarrow> byte list \<Rightarrow> bool" and inv :: "'s \<Rightarrow> bool"
begin

lemma read_safe:
  assumes "inv s" and "length str + length bs \<le> 4096" and "0 \<notin> set (str @ bs)"
    and "accepts h adm s (lines_of (str @ bs))"
  shows "\<exists>s'. process_user_input h (Some bs) (clean_buf str) s = Inr (clean_buf (rest_of (str @ bs)), s') \<and> inv s' \<and>
    0 \<notin> set (rest_of (str @ bs)) \<and> 10 \<notin> set (rest_of (str @ bs))"
proof -
  from run_safe [OF assms(1,4)] obtain s1 where "run_steps h s (lines_of (str @ bs)) = Inr s1" "inv s1" by blast
  moreover have "0 \<notin> set (rest_of (str @ bs))" using rest_of_set(1) assms(3) by blast
  ultimately show ?thesis
    using process_user_input_clean [OF assms(2,3), of h s] rest_of_set(2) by (auto simp: feed_run_steps)
qed

end

lemma create_userbuf_clean: "create_userbuf = clean_buf []"
  by (simp add: create_userbuf_def clean_buf_def)



end
