(* ===== verification/Hashlist.thy ===== *)
theory Hashlist
  imports Receiver BtParse
begin

text \<open>
  \<^verbatim>\<open>hashlist.c\<close>: the singly linked lists of chunk nodes that hold all of the peer's state.
  Nodes live in a heap that maps addresses to nodes; a list is the address of its first
  node. A freed node leaves the heap, so a later access is the fault \<open>UseAfterFree\<close>.
  Windows and receivers belong to exactly one node and are stored in it.
\<close>

section \<open>The heap of nodes\<close>

type_synonym ptr = "nat option"

record hash_chunk =
  node_from :: sockaddr_in
  node_hash :: "byte list"
  chunkid :: int
  next_node :: ptr
  node_time :: int
  congWin :: "Window option"
  Recver :: "Recv_State option"

text \<open>\<open>fresh\<close> is the next address to be given out; every node ever allocated is below it.\<close>

record heap =
  nodes :: "nat \<Rightarrow> hash_chunk option"
  fresh :: nat

definition load :: "heap \<Rightarrow> ptr \<Rightarrow> hash_chunk res" where
  "load h p = (case p of None \<Rightarrow> Inl NullDeref
     | Some a \<Rightarrow> (case nodes h a of None \<Rightarrow> Inl UseAfterFree | Some n \<Rightarrow> Inr n))"

definition store :: "heap \<Rightarrow> ptr \<Rightarrow> (hash_chunk \<Rightarrow> hash_chunk) \<Rightarrow> heap res" where
  "store h p f = (case p of None \<Rightarrow> Inl NullDeref
     | Some a \<Rightarrow> (case nodes h a of None \<Rightarrow> Inl UseAfterFree
                  | Some n \<Rightarrow> Inr (h\<lparr>nodes := (nodes h)(a \<mapsto> f n)\<rparr>)))"

text \<open>Freeing a node releases its window and its receiver with it.\<close>

definition free_node :: "heap \<Rightarrow> ptr \<Rightarrow> heap res" where
  "free_node h p = ebind (load h p) (\<lambda>_. Inr (h\<lparr>nodes := (nodes h)(the p := None)\<rparr>))"

definition empty_heap :: heap where
  "empty_heap = \<lparr>nodes = \<lambda>_. None, fresh = 0\<rparr>"

section \<open>Traversals\<close>

text \<open>
  The search loops follow \<open>next\<close> until the condition holds. A traversal that has made more
  steps than there are nodes has visited one of them twice and never ends.
\<close>

fun find_loop :: "nat \<Rightarrow> heap \<Rightarrow> ptr \<Rightarrow> (hash_chunk \<Rightarrow> bool) \<Rightarrow> ptr res" where
  "find_loop fuel h None P = Inr None"
| "find_loop 0 h (Some a) P = Inl Hang"
| "find_loop (Suc fuel) h (Some a) P =
     ebind (load h (Some a)) (\<lambda>n. if P n then Inr (Some a) else find_loop fuel h (next_node n) P)"

definition search :: "heap \<Rightarrow> ptr \<Rightarrow> (hash_chunk \<Rightarrow> bool) \<Rightarrow> ptr res" where
  "search h p P = find_loop (Suc (fresh h)) h p P"

definition find_node :: "heap \<Rightarrow> ptr \<Rightarrow> byte list \<Rightarrow> ptr res" where
  "find_node h l hash = search h l (\<lambda>n. node_hash n = take 20 hash)"

text \<open>
  \<open>inet_ntoa\<close> writes its text into one static buffer and returns that buffer. The two
  calls that \<open>find_node_by_addr\<close> compares therefore return the same pointer, and \<open>strcmp\<close>
  compares whatever the later call left there with itself.
\<close>

definition inet_ntoa :: "u32 \<Rightarrow> byte list" where
  "inet_ntoa ip =
     (let bs = le32 ip
      in show_nat (unat (bs ! 0)) @ 46 # show_nat (unat (bs ! 1)) @ 46 # show_nat (unat (bs ! 2))
           @ 46 # show_nat (unat (bs ! 3)))"

definition strcmp_inet_ntoa :: "u32 \<Rightarrow> u32 \<Rightarrow> bool" where
  "strcmp_inet_ntoa ip1 ip2 =
     (let static_buf1 = inet_ntoa ip1; static_buf2 = inet_ntoa ip2; first = static_buf2; second = static_buf2
      in first = second)"

definition same_addr :: "sockaddr_in \<Rightarrow> sockaddr_in \<Rightarrow> bool" where
  "same_addr a b \<longleftrightarrow> strcmp_inet_ntoa (sin_addr a) (sin_addr b) \<and> ntohs (sin_port a) = ntohs (sin_port b)"

definition find_node_by_addr :: "heap \<Rightarrow> ptr \<Rightarrow> sockaddr_in \<Rightarrow> ptr res" where
  "find_node_by_addr h l addr = search h l (\<lambda>n. same_addr (node_from n) addr)"

definition find_prev_node :: "heap \<Rightarrow> ptr \<Rightarrow> ptr \<Rightarrow> ptr res" where
  "find_prev_node h l now = search h l (\<lambda>n. next_node n = now)"

fun count_loop :: "nat \<Rightarrow> heap \<Rightarrow> ptr \<Rightarrow> int \<Rightarrow> int res" where
  "count_loop fuel h None c = Inr c"
| "count_loop 0 h (Some a) c = Inl Hang"
| "count_loop (Suc fuel) h (Some a) c = ebind (load h (Some a)) (\<lambda>n. count_loop fuel h (next_node n) (c + 1))"

definition length_of_list :: "heap \<Rightarrow> ptr \<Rightarrow> int res" where
  "length_of_list h l = count_loop (Suc (fresh h)) h l 0"

section \<open>Updates\<close>

text \<open>The list variable is passed in and returned; both branches of the code link the node in front.\<close>

definition append_node :: "heap \<Rightarrow> ptr \<Rightarrow> ptr \<Rightarrow> (heap \<times> ptr) res" where
  "append_node h l node =
     (if node = None then Inr (h, l)
      else if l = None then ebind (store h node (\<lambda>n. n\<lparr>next_node := None\<rparr>)) (\<lambda>h'. Inr (h', node))
      else ebind (store h node (\<lambda>n. n\<lparr>next_node := l\<rparr>)) (\<lambda>h'. Inr (h', node)))"

text \<open>Taking a node out of a list: the common part of \<open>delete_node\<close> and \<open>move_node\<close>.\<close>

definition unlink :: "heap \<Rightarrow> ptr \<Rightarrow> ptr \<Rightarrow> (heap \<times> ptr) res" where
  "unlink h l node =
     (if l = node then ebind (load h node) (\<lambda>n. Inr (h, next_node n))
      else ebind (find_prev_node h l node) (\<lambda>prev.
           ebind (load h node) (\<lambda>n.
           ebind (store h prev (\<lambda>m. m\<lparr>next_node := next_node n\<rparr>)) (\<lambda>h'.
           Inr (h', l)))))"

definition delete_node :: "heap \<Rightarrow> ptr \<Rightarrow> ptr \<Rightarrow> (heap \<times> ptr) res" where
  "delete_node h l node =
     (if node = None then Inr (h, l)
      else if l = None then Inr (h, l)
      else ebind (unlink h l node) (\<lambda>(h1, l1).
           ebind (free_node h1 node) (\<lambda>h2. Inr (h2, l1))))"

definition delete_node_by_hash :: "heap \<Rightarrow> ptr \<Rightarrow> byte list \<Rightarrow> (heap \<times> ptr) res" where
  "delete_node_by_hash h l hash =
     ebind (find_node h l hash) (\<lambda>curr.
     ebind (unlink h l curr) (\<lambda>(h1, l1).
     ebind (free_node h1 curr) (\<lambda>h2.
     ebind (length_of_list h2 l1) (\<lambda>n.
     Inr (h2, if n = 0 then None else l1)))))"

text \<open>The result holds the heap, the list moved to and the list moved from.\<close>

definition move_node :: "heap \<Rightarrow> ptr \<Rightarrow> ptr \<Rightarrow> ptr \<Rightarrow> (heap \<times> ptr \<times> ptr) res" where
  "move_node h dest src node =
     (if node = None then Inr (h, dest, src)
      else if src = None then Inr (h, dest, src)
      else ebind (unlink h src node) (\<lambda>(h1, src1).
           ebind (append_node h1 dest node) (\<lambda>(h2, dest1). Inr (h2, dest1, src1))))"

definition create_node :: "heap \<Rightarrow> sockaddr_in \<Rightarrow> byte list \<Rightarrow> int \<Rightarrow> (heap \<times> ptr) res" where
  "create_node h addr hash chunk_id =
     ebind (mem_read hash 0 20) (\<lambda>hs.
     Inr (h\<lparr>nodes := (nodes h)(fresh h \<mapsto> \<lparr>node_from = addr, node_hash = hs, chunkid = chunk_id,
              next_node = None, node_time = 0, congWin = None, Recver = None\<rparr>),
            fresh := Suc (fresh h)\<rparr>, Some (fresh h)))"

fun clear_loop :: "nat \<Rightarrow> heap \<Rightarrow> ptr \<Rightarrow> ptr \<Rightarrow> int \<Rightarrow> (heap \<times> int) res" where
  "clear_loop fuel h l None c = Inr (h, c)"
| "clear_loop 0 h l (Some a) c = Inl Hang"
| "clear_loop (Suc fuel) h l (Some a) c =
     ebind (load h (Some a)) (\<lambda>n.
     ebind (delete_node h l (Some a)) (\<lambda>(h', l').
     clear_loop fuel h' l' (next_node n) (c + 1)))"

definition clear_hashchunk_list :: "heap \<Rightarrow> ptr \<Rightarrow> (heap \<times> ptr \<times> int) res" where
  "clear_hashchunk_list h l =
     ebind (clear_loop (Suc (fresh h)) h l l 0) (\<lambda>(h', c). Inr (h', None, c))"

section \<open>Lists as sequences of addresses\<close>

text \<open>\<open>lseg h p xs q\<close>: following \<open>next\<close> from \<open>p\<close> visits the addresses \<open>xs\<close> and arrives at \<open>q\<close>.\<close>

fun lseg :: "heap \<Rightarrow> ptr \<Rightarrow> nat list \<Rightarrow> ptr \<Rightarrow> bool" where
  "lseg h p [] q = (p = q)"
| "lseg h p (a # as) q = (p = Some a \<and> (\<exists>n. nodes h a = Some n \<and> lseg h (next_node n) as q))"

definition is_list :: "heap \<Rightarrow> ptr \<Rightarrow> nat list \<Rightarrow> bool" where
  "is_list h p xs \<longleftrightarrow> lseg h p xs None"

definition heap_ok :: "heap \<Rightarrow> bool" where
  "heap_ok h \<longleftrightarrow> (\<forall>a. nodes h a \<noteq> None \<longrightarrow> a < fresh h)"

text \<open>A node without its link: what the operations on lists leave alone.\<close>

definition unlinked :: "hash_chunk \<Rightarrow> hash_chunk" where
  "unlinked n = n\<lparr>next_node := None\<rparr>"

definition info :: "heap \<Rightarrow> nat \<Rightarrow> hash_chunk option" where
  "info h a = map_option unlinked (nodes h a)"

definition same_outside :: "nat set \<Rightarrow> heap \<Rightarrow> heap \<Rightarrow> bool" where
  "same_outside S h h' \<longleftrightarrow> (\<forall>b. b \<notin> S \<longrightarrow> nodes h' b = nodes h b)"

lemma unlinked_simps [simp]:
  "node_from (unlinked n) = node_from n" "node_hash (unlinked n) = node_hash n"
  "chunkid (unlinked n) = chunkid n" "node_time (unlinked n) = node_time n"
  "congWin (unlinked n) = congWin n" "Recver (unlinked n) = Recver n"
  "unlinked (n\<lparr>next_node := q\<rparr>) = unlinked n"
  by (simp_all add: unlinked_def)

lemma lseg_append: "lseg h p (xs @ ys) q \<longleftrightarrow> (\<exists>r. lseg h p xs r \<and> lseg h r ys q)"
  by (induction xs arbitrary: p) auto

lemma lseg_unique: "lseg h p xs None \<Longrightarrow> lseg h p ys None \<Longrightarrow> xs = ys"
proof (induction xs arbitrary: p ys)
  case Nil
  then show ?case by (cases ys) auto
next
  case (Cons x xs)
  then show ?case by (cases ys) auto
qed

lemma is_list_unique: "is_list h p xs \<Longrightarrow> is_list h p ys \<Longrightarrow> xs = ys"
  unfolding is_list_def by (rule lseg_unique)

lemma is_list_distinct: "is_list h p xs \<Longrightarrow> distinct xs"
proof (induction xs arbitrary: p)
  case Nil
  then show ?case by simp
next
  case (Cons x xs)
  then obtain n where n: "p = Some x" "nodes h x = Some n" "lseg h (next_node n) xs None"
    by (auto simp: is_list_def)
  have "x \<notin> set xs"
  proof
    assume "x \<in> set xs"
    then obtain us vs where xs: "xs = us @ x # vs" by (auto dest: split_list)
    with n(3) have "lseg h (Some x) (x # vs) None" by (auto simp: lseg_append)
    moreover have "lseg h (Some x) (x # xs) None" using Cons.prems n(1) by (simp add: is_list_def)
    ultimately have "x # vs = x # xs" by (rule lseg_unique)
    then show False by (simp add: xs)
  qed
  with Cons.IH n(3) show ?case by (simp add: is_list_def)
qed

lemma lseg_allocated: "lseg h p xs q \<Longrightarrow> a \<in> set xs \<Longrightarrow> \<exists>n. nodes h a = Some n"
  by (induction xs arbitrary: p) auto

lemma is_list_allocated: "is_list h p xs \<Longrightarrow> a \<in> set xs \<Longrightarrow> \<exists>n. nodes h a = Some n"
  unfolding is_list_def by (rule lseg_allocated)

lemma is_list_length:
  assumes "is_list h p xs" and "heap_ok h"
  shows "length xs \<le> fresh h"
proof -
  have "set xs \<subseteq> {..<fresh h}"
    using assms is_list_allocated by (fastforce simp: heap_ok_def)
  then have "card (set xs) \<le> fresh h" using card_mono [of "{..<fresh h}"] by fastforce
  then show ?thesis using distinct_card [OF is_list_distinct [OF assms(1)]] by simp
qed

lemma lseg_frame:
  "lseg h p xs q \<Longrightarrow> (\<And>b. b \<in> set xs \<Longrightarrow> nodes h' b = nodes h b) \<Longrightarrow> lseg h' p xs q"
  by (induction xs arbitrary: p) auto

lemma is_list_frame:
  assumes "is_list h p xs" and "same_outside S h h'" and "set xs \<inter> S = {}"
  shows "is_list h' p xs"
proof -
  have "nodes h' b = nodes h b" if "b \<in> set xs" for b
    using assms(2,3) that by (auto simp: same_outside_def)
  with assms(1) show ?thesis unfolding is_list_def by (rule lseg_frame)
qed

lemma same_outside_trans:
  "same_outside S h h1 \<Longrightarrow> same_outside T h1 h2 \<Longrightarrow> same_outside (S \<union> T) h h2"
  by (auto simp: same_outside_def)

lemma same_outside_mono: "same_outside S h h' \<Longrightarrow> S \<subseteq> T \<Longrightarrow> same_outside T h h'"
  by (auto simp: same_outside_def)

section \<open>What the traversals compute\<close>

lemma find_loop_list:
  assumes "lseg h p xs None" and "length xs \<le> fuel"
  shows "find_loop fuel h p P = Inr (find (\<lambda>a. P (the (nodes h a))) xs)"
  using assms
proof (induction xs arbitrary: p fuel)
  case Nil
  then show ?case by simp
next
  case (Cons x xs)
  then obtain k where "fuel = Suc k" by (cases fuel) auto
  with Cons show ?case by (auto simp: load_def)
qed

lemma search_list:
  assumes "is_list h p xs" and "heap_ok h"
  shows "search h p P = Inr (find (\<lambda>a. P (the (nodes h a))) xs)"
  unfolding search_def
  using assms is_list_length [OF assms] by (intro find_loop_list) (auto simp: is_list_def)

lemma count_loop_list:
  assumes "lseg h p xs None" and "length xs \<le> fuel"
  shows "count_loop fuel h p c = Inr (c + int (length xs))"
  using assms
proof (induction xs arbitrary: p fuel c)
  case Nil
  then show ?case by simp
next
  case (Cons x xs)
  then obtain k where "fuel = Suc k" by (cases fuel) auto
  with Cons show ?case by (auto simp: load_def)
qed

lemma length_of_list_list:
  assumes "is_list h p xs" and "heap_ok h"
  shows "length_of_list h p = Inr (int (length xs))"
  using assms is_list_length [OF assms] count_loop_list [of h p xs "Suc (fresh h)" 0]
  by (simp add: length_of_list_def is_list_def)

text \<open>A cyclic list makes every unsuccessful search run forever.\<close>

lemma search_cyclic:
  assumes "nodes h a = Some n" and "next_node n = Some a" and "\<not> P n"
  shows "search h (Some a) P = Inl Hang"
proof -
  have "find_loop k h (Some a) P = Inl Hang" for k
    using assms by (induction k) (auto simp: load_def)
  then show ?thesis by (simp add: search_def)
qed

section \<open>What the updates do\<close>

lemma append_node_list:
  assumes l: "is_list h p xs" and a: "nodes h a \<noteq> None" "a \<notin> set xs" and ok: "heap_ok h"
  shows "\<exists>h'. append_node h p (Some a) = Inr (h', Some a) \<and> is_list h' (Some a) (a # xs) \<and>
    info h' = info h \<and> same_outside {a} h h' \<and> heap_ok h' \<and> fresh h' = fresh h"
proof -
  obtain n where n: "nodes h a = Some n" using a(1) by auto
  let ?h = "h\<lparr>nodes := (nodes h)(a \<mapsto> n\<lparr>next_node := p\<rparr>)\<rparr>"
  have "append_node h p (Some a) = Inr (?h, Some a)"
    using n by (simp add: append_node_def store_def)
  moreover have "same_outside {a} h ?h" by (simp add: same_outside_def)
  moreover have "lseg ?h p xs None"
    using l a(2) by (auto simp: is_list_def intro: lseg_frame)
  then have "is_list ?h (Some a) (a # xs)" by (simp add: is_list_def)
  moreover have "info ?h = info h" using n by (auto simp: info_def fun_eq_iff)
  moreover have "heap_ok ?h" using ok n by (auto simp: heap_ok_def)
  ultimately show ?thesis by auto
qed

lemma lseg_next:
  "lseg h p us (Some b) \<Longrightarrow> c \<in> set us \<Longrightarrow> nodes h c = Some n \<Longrightarrow> \<exists>d. next_node n = Some d \<and> d \<in> set us \<union> {b}"
proof (induction us arbitrary: p)
  case (Cons u us)
  then show ?case by (cases us) auto
qed simp

lemma find_first: "(\<And>c. c \<in> set ws \<Longrightarrow> \<not> P c) \<Longrightarrow> P b \<Longrightarrow> find P (ws @ b # r) = Some b"
  by (induction ws) auto

lemma unlink_list:
  assumes l: "is_list h p xs" and a: "a \<in> set xs" and ok: "heap_ok h"
  shows "\<exists>h' p'. unlink h p (Some a) = Inr (h', p') \<and> is_list h' p' (remove1 a xs) \<and>
    info h' = info h \<and> same_outside (set xs - {a}) h h' \<and> heap_ok h' \<and> fresh h' = fresh h"
proof (cases "p = Some a")
  case True
  then obtain ys n where "xs = a # ys" "nodes h a = Some n" "is_list h (next_node n) ys"
    using l a by (cases xs) (auto simp: is_list_def)
  with True ok show ?thesis by (simp add: unlink_def load_def same_outside_def)
next
  case False
  have d: "distinct xs" by (rule is_list_distinct [OF l])
  obtain us vs where xs: "xs = us @ a # vs" "a \<notin> set us" using split_list_first [OF a] by blast
  have "us \<noteq> []" using False l xs by (auto simp: is_list_def)
  then obtain ws b where us: "us = ws @ [b]" by (cases us rule: rev_cases) auto
  have seg: "lseg h p (ws @ b # a # vs) None" using l by (simp add: is_list_def xs us)
  then obtain m n where m: "lseg h p ws (Some b)" "nodes h b = Some m" "next_node m = Some a"
    "nodes h a = Some n" "lseg h (next_node n) vs None"
    by (auto simp: lseg_append)
  have nw: "next_node (the (nodes h c)) \<noteq> Some a" if c: "c \<in> set ws" for c
  proof -
    obtain k where k: "nodes h c = Some k" using lseg_allocated [OF m(1) c] by blast
    with lseg_next [OF m(1) c k] d show ?thesis by (auto simp: xs us)
  qed
  have prev: "find_prev_node h p (Some a) = Inr (Some b)"
  proof -
    have "find (\<lambda>c. next_node (the (nodes h c)) = Some a) xs = Some b"
      unfolding xs us append_assoc append_Cons append_Nil using nw m by (intro find_first) auto
    then show ?thesis using search_list [OF l ok] by (simp add: find_prev_node_def)
  qed
  let ?h = "h\<lparr>nodes := (nodes h)(b \<mapsto> m\<lparr>next_node := next_node n\<rparr>)\<rparr>"
  have "unlink h p (Some a) = Inr (?h, p)"
    using False prev m by (simp add: unlink_def load_def store_def)
  moreover have "lseg ?h p ws (Some b)" by (rule lseg_frame [OF m(1)]) (use d xs us in auto)
  moreover have "lseg ?h (next_node n) vs None" by (rule lseg_frame [OF m(5)]) (use d xs us in auto)
  ultimately have "unlink h p (Some a) = Inr (?h, p)" and "is_list ?h p (ws @ b # vs)"
    unfolding is_list_def lseg_append by (auto intro: exI [of _ "Some b"])
  moreover have "remove1 a xs = ws @ b # vs"
    using d by (simp add: xs us remove1_append)
  moreover have "info ?h = info h" using m by (auto simp: info_def fun_eq_iff)
  moreover have "same_outside (set xs - {a}) h ?h" using d by (auto simp: same_outside_def xs us)
  moreover have "heap_ok ?h" using ok m by (auto simp: heap_ok_def)
  ultimately show ?thesis by auto
qed

lemma delete_node_list:
  assumes l: "is_list h p xs" and a: "a \<in> set xs" and ok: "heap_ok h"
  shows "\<exists>h' p'. delete_node h p (Some a) = Inr (h', p') \<and> is_list h' p' (remove1 a xs) \<and>
    info h' = (info h)(a := None) \<and> same_outside (set xs) h h' \<and> heap_ok h' \<and> fresh h' = fresh h"
proof -
  from unlink_list [OF l a ok] obtain h1 p1 where u: "unlink h p (Some a) = Inr (h1, p1)"
    "is_list h1 p1 (remove1 a xs)" "info h1 = info h" "same_outside (set xs - {a}) h h1" "heap_ok h1" "fresh h1 = fresh h"
    by blast
  obtain n where n: "nodes h1 a = Some n"
  proof -
    have "info h a \<noteq> None" using is_list_allocated [OF l a] by (auto simp: info_def)
    then have "info h1 a \<noteq> None" by (simp add: u)
    then show ?thesis using that by (auto simp: info_def)
  qed
  let ?h = "h1\<lparr>nodes := (nodes h1)(a := None)\<rparr>"
  have "p \<noteq> None" using l a by (cases xs) (auto simp: is_list_def)
  then have "delete_node h p (Some a) = Inr (?h, p1)"
    using u n by (auto simp: delete_node_def free_node_def load_def)
  moreover have "a \<notin> set (remove1 a xs)" using is_list_distinct [OF l] by simp
  then have "is_list ?h p1 (remove1 a xs)"
    using u(2) by (auto simp: is_list_def intro: lseg_frame)
  moreover have "info ?h = (info h)(a := None)" using u(3) by (auto simp: info_def fun_eq_iff)
  moreover have "same_outside (set xs) h ?h" using u(4) a by (auto simp: same_outside_def)
  moreover have "heap_ok ?h" using u(5) by (auto simp: heap_ok_def)
  ultimately show ?thesis using u(6) by auto
qed

lemma move_node_list:
  assumes s: "is_list h src xs" and d: "is_list h dest ys" and a: "a \<in> set xs" "set xs \<inter> set ys = {}"
    and ok: "heap_ok h"
  shows "\<exists>h' src'. move_node h dest src (Some a) = Inr (h', Some a, src') \<and>
    is_list h' src' (remove1 a xs) \<and> is_list h' (Some a) (a # ys) \<and> info h' = info h \<and>
    same_outside (set xs) h h' \<and> heap_ok h' \<and> fresh h' = fresh h"
proof -
  from unlink_list [OF s a(1) ok] obtain h1 p1 where u: "unlink h src (Some a) = Inr (h1, p1)"
    "is_list h1 p1 (remove1 a xs)" "info h1 = info h" "same_outside (set xs - {a}) h h1" "heap_ok h1" "fresh h1 = fresh h"
    by blast
  have ys: "is_list h1 dest ys" using is_list_frame [OF d u(4)] a(2) by blast
  have "info h a \<noteq> None" using is_list_allocated [OF s a(1)] by (auto simp: info_def)
  then have "nodes h1 a \<noteq> None" unfolding u(3) [symmetric] by (simp add: info_def)
  moreover have "a \<notin> set ys" using a by auto
  ultimately obtain h2 where v: "append_node h1 dest (Some a) = Inr (h2, Some a)" "is_list h2 (Some a) (a # ys)"
    "info h2 = info h1" "same_outside {a} h1 h2" "heap_ok h2" "fresh h2 = fresh h1"
    using append_node_list [OF ys _ _ u(5)] by blast
  have "a \<notin> set (remove1 a xs)" using is_list_distinct [OF s] by simp
  then have "is_list h2 p1 (remove1 a xs)" using is_list_frame [OF u(2) v(4)] by simp
  moreover have "same_outside (set xs) h h2"
    using same_outside_trans [OF u(4) v(4)] a(1) by (auto intro: same_outside_mono)
  moreover have "src \<noteq> None" using s a(1) by (cases xs) (auto simp: is_list_def)
  then have "move_node h dest src (Some a) = Inr (h2, Some a, p1)"
    using u(1) v(1) by (auto simp: move_node_def)
  ultimately show ?thesis using u v by auto
qed

lemma create_node_list:
  assumes "20 \<le> length hash" and ok: "heap_ok h"
  shows "\<exists>h'. create_node h addr hash k = Inr (h', Some (fresh h)) \<and>
    info h' = (info h)(fresh h \<mapsto> \<lparr>node_from = addr, node_hash = take 20 hash, chunkid = k,
              next_node = None, node_time = 0, congWin = None, Recver = None\<rparr>) \<and>
    same_outside {fresh h} h h' \<and> heap_ok h' \<and> nodes h (fresh h) = None \<and> fresh h' = Suc (fresh h)"
proof -
  have "nodes h (fresh h) = None" using ok by (cases "nodes h (fresh h)") (auto simp: heap_ok_def)
  with assms show ?thesis
    by (auto simp: create_node_def mem_read_def info_def unlinked_def same_outside_def heap_ok_def less_Suc_eq
        split: if_splits)
qed

lemma clear_loop_list:
  assumes "is_list h l xs" and "heap_ok h" and "length xs \<le> fuel"
  shows "\<exists>h'. clear_loop fuel h l l c = Inr (h', c + int (length xs)) \<and> same_outside (set xs) h h' \<and>
    (\<forall>a. info h' a = (if a \<in> set xs then None else info h a)) \<and> heap_ok h' \<and> fresh h' = fresh h"
  using assms
proof (induction xs arbitrary: h l fuel c)
  case Nil
  then show ?case by (simp add: is_list_def same_outside_def)
next
  case (Cons x xs)
  then obtain k where k: "fuel = Suc k" by (cases fuel) auto
  obtain n where n: "l = Some x" "nodes h x = Some n" "is_list h (next_node n) xs"
    using Cons.prems(1) by (auto simp: is_list_def)
  have x: "x \<notin> set xs" using is_list_distinct [OF Cons.prems(1)] by simp
  from delete_node_list [OF Cons.prems(1) _ Cons.prems(2), of x] obtain h1 l1 where d:
    "delete_node h l (Some x) = Inr (h1, l1)" "is_list h1 l1 xs" "info h1 = (info h)(x := None)"
    "same_outside (set (x # xs)) h h1" "heap_ok h1" "fresh h1 = fresh h" by auto
  have l1: "l1 = next_node n"
    using d(1) n by (auto simp: delete_node_def unlink_def load_def free_node_def)
  from Cons.IH [OF d(2,5), of k "c + 1"] Cons.prems(3) k obtain h2 where h2:
    "clear_loop k h1 l1 l1 (c + 1) = Inr (h2, c + 1 + int (length xs))" "same_outside (set xs) h1 h2"
    "\<forall>a. info h2 a = (if a \<in> set xs then None else info h1 a)" "heap_ok h2" "fresh h2 = fresh h1" by auto
  have "same_outside (set (x # xs)) h h2"
    using same_outside_trans [OF d(4) h2(2)] by (auto intro: same_outside_mono)
  with h2 d n k l1 x show ?case by (simp add: load_def)
qed

lemma clear_hashchunk_list_list:
  assumes "is_list h l xs" and "heap_ok h"
  shows "\<exists>h'. clear_hashchunk_list h l = Inr (h', None, int (length xs)) \<and> same_outside (set xs) h h' \<and>
    (\<forall>a. info h' a = (if a \<in> set xs then None else info h a)) \<and> heap_ok h' \<and> fresh h' = fresh h"
  using clear_loop_list [OF assms, of "Suc (fresh h)" 0] is_list_length [OF assms]
  by (auto simp: clear_hashchunk_list_def)

section \<open>Several lists in one heap\<close>

text \<open>
  The peer keeps seven lists in the same heap. \<open>lists_ok h heads xs\<close> says that every list
  variable \<open>heads l\<close> is the list \<open>xs l\<close> and that no node is in two of them.
\<close>

definition lists_ok :: "heap \<Rightarrow> ('l \<Rightarrow> ptr) \<Rightarrow> ('l \<Rightarrow> nat list) \<Rightarrow> bool" where
  "lists_ok h heads xs \<longleftrightarrow> heap_ok h \<and> (\<forall>l. is_list h (heads l) (xs l)) \<and>
     (\<forall>l m. l \<noteq> m \<longrightarrow> set (xs l) \<inter> set (xs m) = {})"

lemma lists_okD:
  assumes "lists_ok h heads xs"
  shows "heap_ok h" "is_list h (heads l) (xs l)" "l \<noteq> m \<Longrightarrow> set (xs l) \<inter> set (xs m) = {}"
    "distinct (xs l)" "a \<in> set (xs l) \<Longrightarrow> info h a \<noteq> None"
  using assms is_list_distinct is_list_allocated by (fastforce simp: lists_ok_def info_def)+

lemma lists_ok_update:
  assumes ok: "lists_ok h heads xs" and "heap_ok h'" and "same_outside S h h'"
    and "\<And>m. m \<notin> M \<Longrightarrow> set (xs m) \<inter> S = {}" and "\<And>m. m \<notin> M \<Longrightarrow> heads' m = heads m \<and> xs' m = xs m"
    and "\<And>m. m \<in> M \<Longrightarrow> is_list h' (heads' m) (xs' m)"
    and "\<And>l m. l \<noteq> m \<Longrightarrow> set (xs' l) \<inter> set (xs' m) = {}"
  shows "lists_ok h' heads' xs'"
proof -
  have "is_list h' (heads' m) (xs' m)" for m
    using assms(4,5,6) [of m] is_list_frame [OF lists_okD(2) [OF ok, of m] assms(3)]
    by (cases "m \<in> M") auto
  with assms(2,7) show ?thesis by (simp add: lists_ok_def)
qed

lemma lists_delete:
  assumes ok: "lists_ok h heads xs" and a: "a \<in> set (xs l)"
  shows "\<exists>h' p'. delete_node h (heads l) (Some a) = Inr (h', p') \<and>
    lists_ok h' (heads(l := p')) (xs(l := remove1 a (xs l))) \<and> info h' = (info h)(a := None)"
proof -
  from delete_node_list [OF lists_okD(2) [OF ok] a lists_okD(1) [OF ok]] obtain h' p' where d:
    "delete_node h (heads l) (Some a) = Inr (h', p')" "is_list h' p' (remove1 a (xs l))"
    "info h' = (info h)(a := None)" "same_outside (set (xs l)) h h'" "heap_ok h'" by blast
  have "lists_ok h' (heads(l := p')) (xs(l := remove1 a (xs l)))"
  proof (rule lists_ok_update [OF ok d(5,4), of "{l}"])
    show "set (xs m) \<inter> set (xs l) = {}" if "m \<notin> {l}" for m
      using that lists_okD(3) [OF ok] by auto
    show "set ((xs(l := remove1 a (xs l))) k) \<inter> set ((xs(l := remove1 a (xs l))) m) = {}" if "k \<noteq> m" for k m
    proof -
      have "set ((xs(l := remove1 a (xs l))) j) \<subseteq> set (xs j)" for j using set_remove1_subset [of a "xs l"] by simp
      with lists_okD(3) [OF ok that] show ?thesis by blast
    qed
  qed (use d in auto)
  with d show ?thesis by blast
qed

lemma lists_move:
  assumes ok: "lists_ok h heads xs" and a: "a \<in> set (xs l)" and lm: "l \<noteq> m"
  shows "\<exists>h' p'. move_node h (heads m) (heads l) (Some a) = Inr (h', Some a, p') \<and>
    lists_ok h' (heads(l := p', m := Some a)) (xs(l := remove1 a (xs l), m := a # xs m)) \<and> info h' = info h"
proof -
  have dj: "set (xs l) \<inter> set (xs m) = {}" using lists_okD(3) [OF ok] lm by blast
  from move_node_list [OF lists_okD(2) [OF ok] lists_okD(2) [OF ok] a dj lists_okD(1) [OF ok]]
  obtain h' p' where v: "move_node h (heads m) (heads l) (Some a) = Inr (h', Some a, p')"
    "is_list h' p' (remove1 a (xs l))" "is_list h' (Some a) (a # xs m)" "info h' = info h"
    "same_outside (set (xs l)) h h'" "heap_ok h'" by blast
  let ?xs = "xs(l := remove1 a (xs l), m := a # xs m)"
  have sub: "set (?xs k) \<subseteq> (if k = l then set (xs l) - {a} else if k = m then insert a (set (xs m)) else set (xs k))" for k
    using lm lists_okD(4) [OF ok, of l] by auto
  have "lists_ok h' (heads(l := p', m := Some a)) ?xs"
  proof (rule lists_ok_update [OF ok v(6,5), of "{l, m}"])
    show "set (xs k) \<inter> set (xs l) = {}" if "k \<notin> {l, m}" for k
      using that lists_okD(3) [OF ok] by auto
    show "set (?xs i) \<inter> set (?xs k) = {}" if "i \<noteq> k" for i k
      using that sub [of i] sub [of k] lists_okD(3) [OF ok, of i k] lists_okD(3) [OF ok, of i l]
        lists_okD(3) [OF ok, of k l] a lm by (auto split: if_splits)
  qed (use v lm in auto)
  with v show ?thesis by blast
qed

lemma lists_new:
  assumes ok: "lists_ok h heads xs" and hash: "20 \<le> length hash"
  shows "\<exists>h' a. create_node h addr hash k = Inr (h', Some a) \<and> lists_ok h' heads xs \<and>
    info h' = (info h)(a \<mapsto> \<lparr>node_from = addr, node_hash = take 20 hash, chunkid = k,
              next_node = None, node_time = 0, congWin = None, Recver = None\<rparr>) \<and>
    info h a = None \<and> (\<forall>m. a \<notin> set (xs m))"
proof -
  let ?a = "fresh h"
  from create_node_list [OF hash lists_okD(1) [OF ok]] obtain h1 where c:
    "create_node h addr hash k = Inr (h1, Some ?a)"
    "info h1 = (info h)(?a \<mapsto> \<lparr>node_from = addr, node_hash = take 20 hash, chunkid = k,
              next_node = None, node_time = 0, congWin = None, Recver = None\<rparr>)"
    "same_outside {?a} h h1" "heap_ok h1" "nodes h ?a = None" by blast
  have nin: "?a \<notin> set (xs m)" for m
    using is_list_allocated [OF lists_okD(2) [OF ok, of m], of ?a] c(5) by auto
  have "is_list h1 (heads m) (xs m)" for m
    using is_list_frame [OF lists_okD(2) [OF ok] c(3)] nin by blast
  then have "lists_ok h1 heads xs" using ok c(4) by (simp add: lists_ok_def)
  moreover have "info h ?a = None" using c(5) by (simp add: info_def)
  ultimately show ?thesis using c nin by blast
qed

lemma lists_append:
  assumes ok: "lists_ok h heads xs" and a: "info h a \<noteq> None" "\<And>m. a \<notin> set (xs m)"
  shows "\<exists>h'. append_node h (heads l) (Some a) = Inr (h', Some a) \<and>
    lists_ok h' (heads(l := Some a)) (xs(l := a # xs l)) \<and> info h' = info h"
proof -
  have "nodes h a \<noteq> None" using a(1) by (simp add: info_def)
  from append_node_list [OF lists_okD(2) [OF ok] this a(2) lists_okD(1) [OF ok]] obtain h' where v:
    "append_node h (heads l) (Some a) = Inr (h', Some a)" "is_list h' (Some a) (a # xs l)"
    "info h' = info h" "same_outside {a} h h'" "heap_ok h'" by blast
  have "lists_ok h' (heads(l := Some a)) (xs(l := a # xs l))"
  proof (rule lists_ok_update [OF ok v(5,4), of "{l}"])
    show "set ((xs(l := a # xs l)) i) \<inter> set ((xs(l := a # xs l)) m) = {}" if "i \<noteq> m" for i m
      using that a(2) lists_okD(3) [OF ok, of i m] by auto
  qed (use v a(2) in auto)
  with v show ?thesis by blast
qed

lemma lists_add_new:
  assumes ok: "lists_ok h heads xs" and hash: "20 \<le> length hash"
  shows "\<exists>h1 h' a. create_node h addr hash k = Inr (h1, Some a) \<and>
    append_node h1 (heads l) (Some a) = Inr (h', Some a) \<and>
    lists_ok h' (heads(l := Some a)) (xs(l := a # xs l)) \<and>
    info h' = (info h)(a \<mapsto> \<lparr>node_from = addr, node_hash = take 20 hash, chunkid = k,
              next_node = None, node_time = 0, congWin = None, Recver = None\<rparr>) \<and> (\<forall>m. a \<notin> set (xs m))"
proof -
  from lists_new [OF assms, of addr k] obtain h1 a where c:
    "create_node h addr hash k = Inr (h1, Some a)" "lists_ok h1 heads xs"
    "info h1 = (info h)(a \<mapsto> \<lparr>node_from = addr, node_hash = take 20 hash, chunkid = k,
              next_node = None, node_time = 0, congWin = None, Recver = None\<rparr>)" "\<And>m. a \<notin> set (xs m)" by blast
  have "info h1 a \<noteq> None" by (simp add: c(3))
  from lists_append [OF c(2) this c(4), of l] c show ?thesis by metis
qed

lemma lists_clear:
  assumes ok: "lists_ok h heads xs"
  shows "\<exists>h'. clear_hashchunk_list h (heads l) = Inr (h', None, int (length (xs l))) \<and>
    lists_ok h' (heads(l := None)) (xs(l := [])) \<and>
    (\<forall>a. info h' a = (if a \<in> set (xs l) then None else info h a))"
proof -
  from clear_hashchunk_list_list [OF lists_okD(2) [OF ok] lists_okD(1) [OF ok]] obtain h' where c:
    "clear_hashchunk_list h (heads l) = Inr (h', None, int (length (xs l)))" "same_outside (set (xs l)) h h'"
    "\<forall>a. info h' a = (if a \<in> set (xs l) then None else info h a)" "heap_ok h'" by blast
  have "lists_ok h' (heads(l := None)) (xs(l := []))"
  proof (rule lists_ok_update [OF ok c(4,2), of "{l}"])
    show "set (xs m) \<inter> set (xs l) = {}" if "m \<notin> {l}" for m
      using that lists_okD(3) [OF ok] by auto
    show "set ((xs(l := [])) i) \<inter> set ((xs(l := [])) m) = {}" if "i \<noteq> m" for i m
      using that lists_okD(3) [OF ok, of i m] by auto
  qed (auto simp: is_list_def)
  with c show ?thesis by blast
qed

text \<open>Changing the contents of a node, not its link, leaves all lists as they are.\<close>

lemma lists_store:
  assumes ok: "lists_ok h heads xs" and a: "info h a = Some n" and f: "\<And>n. next_node (f n) = next_node n"
    and g: "\<And>n. unlinked (f n) = g (unlinked n)"
  shows "\<exists>h'. store h (Some a) f = Inr h' \<and> lists_ok h' heads xs \<and> info h' = (info h)(a \<mapsto> g n)"
proof -
  obtain m where m: "nodes h a = Some m" "n = unlinked m" using a by (auto simp: info_def)
  let ?h = "h\<lparr>nodes := (nodes h)(a \<mapsto> f m)\<rparr>"
  have "lseg ?h p ys q" if "lseg h p ys q" for p ys q
    using that by (induction ys arbitrary: p) (auto simp: m f)
  then have "is_list ?h (heads l) (xs l)" for l
    using lists_okD(2) [OF ok, of l] by (simp add: is_list_def)
  moreover have "heap_ok ?h" using lists_okD(1) [OF ok] m by (auto simp: heap_ok_def)
  ultimately have "lists_ok ?h heads xs" using ok by (simp add: lists_ok_def)
  with m g show ?thesis by (auto simp: store_def info_def fun_eq_iff)
qed

section \<open>The interface of a list store\<close>

text \<open>
  What the peer relies on when it searches its lists and takes nodes out of them, whatever
  the representation: the laws speak of the sequences \<open>xs l\<close> and of the contents of a node.
\<close>

locale list_store =
  fixes rep :: "'h \<Rightarrow> ('l \<Rightarrow> 'p) \<Rightarrow> ('l \<Rightarrow> 'a list) \<Rightarrow> bool"
    and cell :: "'h \<Rightarrow> 'a \<Rightarrow> 'c option"
    and find_in :: "'h \<Rightarrow> 'p \<Rightarrow> ('c \<Rightarrow> bool) \<Rightarrow> 'a option res"
    and delete_in :: "'h \<Rightarrow> 'p \<Rightarrow> 'a \<Rightarrow> ('h \<times> 'p) res"
    and move_in :: "'h \<Rightarrow> 'p \<Rightarrow> 'p \<Rightarrow> 'a \<Rightarrow> ('h \<times> 'p \<times> 'p) res"
  assumes find_law: "rep h heads xs \<Longrightarrow> find_in h (heads l) P = Inr (find (\<lambda>a. P (the (cell h a))) (xs l))"
    and cell_law: "rep h heads xs \<Longrightarrow> a \<in> set (xs l) \<Longrightarrow> cell h a \<noteq> None"
    and apart_law: "rep h heads xs \<Longrightarrow> l \<noteq> m \<Longrightarrow> set (xs l) \<inter> set (xs m) = {}"
    and distinct_law: "rep h heads xs \<Longrightarrow> distinct (xs l)"
    and delete_law: "rep h heads xs \<Longrightarrow> a \<in> set (xs l) \<Longrightarrow>
      \<exists>h' p'. delete_in h (heads l) a = Inr (h', p') \<and>
        rep h' (heads(l := p')) (xs(l := remove1 a (xs l))) \<and> cell h' = (cell h)(a := None)"
    and move_law: "rep h heads xs \<Longrightarrow> a \<in> set (xs l) \<Longrightarrow> l \<noteq> m \<Longrightarrow>
      \<exists>h' p' q'. move_in h (heads m) (heads l) a = Inr (h', q', p') \<and>
        rep h' (heads(l := p', m := q')) (xs(l := remove1 a (xs l), m := a # xs m)) \<and> cell h' = cell h"
begin

lemma found:
  assumes "rep h heads xs" and "find_in h (heads l) P = Inr (Some a)"
  shows "a \<in> set (xs l)" "\<exists>c. cell h a = Some c \<and> P c"
proof -
  have f: "find (\<lambda>a. P (the (cell h a))) (xs l) = Some a"
    using find_law [OF assms(1), of l P] assms(2) by simp
  then show "a \<in> set (xs l)" by (auto simp: find_Some_iff)
  with f cell_law [OF assms(1), of a l] show "\<exists>c. cell h a = Some c \<and> P c"
    by (auto simp: find_Some_iff)
qed

lemma not_found:
  assumes "rep h heads xs" and "find_in h (heads l) P = Inr None" and "a \<in> set (xs l)"
  shows "\<exists>c. cell h a = Some c \<and> \<not> P c"
proof -
  have "find (\<lambda>a. P (the (cell h a))) (xs l) = None" using find_law [OF assms(1), of l P] assms(2) by simp
  with assms(3) have "\<not> P (the (cell h a))" by (auto simp: find_None_iff)
  with cell_law [OF assms(1,3)] show ?thesis by auto
qed

lemma find_total: "rep h heads xs \<Longrightarrow> \<exists>r. find_in h (heads l) P = Inr r"
  using find_law by blast

text \<open>A node that was moved is found in its new list, and no longer where it came from.\<close>

lemma move_found:
  assumes r: "rep h heads xs" and a: "a \<in> set (xs l)" and lm: "l \<noteq> m" and c: "cell h a = Some c" "P c"
  shows "\<exists>h' p' q'. move_in h (heads m) (heads l) a = Inr (h', q', p') \<and> find_in h' q' P = Inr (Some a) \<and>
    find_in h' p' P \<noteq> Inr (Some a)"
proof -
  from move_law [OF r a lm] obtain h' p' q' where v: "move_in h (heads m) (heads l) a = Inr (h', q', p')"
    "rep h' (heads(l := p', m := q')) (xs(l := remove1 a (xs l), m := a # xs m))" "cell h' = cell h" by blast
  have "find_in h' q' P = Inr (Some a)" using find_law [OF v(2), of m P] v(3) c by simp
  moreover have "find_in h' p' P \<noteq> Inr (Some a)"
  proof
    assume "find_in h' p' P = Inr (Some a)"
    then have "a \<in> set (remove1 a (xs l))" using found(1) [OF v(2), of l P a] lm by simp
    with distinct_law [OF r, of l] show False by simp
  qed
  ultimately show ?thesis using v(1) by blast
qed

lemma delete_not_found:
  assumes r: "rep h heads xs" and f: "find_in h (heads l) P = Inr (Some a)"
    and one: "\<And>b. b \<in> set (xs l) \<Longrightarrow> P (the (cell h b)) \<Longrightarrow> b = a"
  shows "\<exists>h' p'. delete_in h (heads l) a = Inr (h', p') \<and> find_in h' p' P = Inr None"
proof -
  note a = found [OF r f]
  from delete_law [OF r a(1)] obtain h' p' where v: "delete_in h (heads l) a = Inr (h', p')"
    "rep h' (heads(l := p')) (xs(l := remove1 a (xs l)))" "cell h' = (cell h)(a := None)" by blast
  have "\<not> P (the (cell h' b))" if "b \<in> set (remove1 a (xs l))" for b
    using that one [of b] v(3) distinct_law [OF r, of l] by auto
  then have "find_in h' p' P = Inr None"
    using find_law [OF v(2), of l P] by (auto simp: find_None_iff)
  with v(1) show ?thesis by blast
qed

end

definition search_info :: "heap \<Rightarrow> ptr \<Rightarrow> (hash_chunk \<Rightarrow> bool) \<Rightarrow> ptr res" where
  "search_info h p P = search h p (\<lambda>n. P (unlinked n))"

lemma find_node_info: "find_node h p hash = search_info h p (\<lambda>n. node_hash n = take 20 hash)"
  by (simp add: find_node_def search_info_def)

lemma find_node_by_addr_info: "find_node_by_addr h p addr = search_info h p (\<lambda>n. same_addr (node_from n) addr)"
  by (simp add: find_node_by_addr_def search_info_def)

interpretation ls: list_store lists_ok info search_info
  "\<lambda>h p a. delete_node h p (Some a)" "\<lambda>h dest src a. move_node h dest src (Some a)"
proof unfold_locales
  fix h and heads :: "'l \<Rightarrow> ptr" and xs :: "'l \<Rightarrow> nat list" and l and P :: "hash_chunk \<Rightarrow> bool"
  assume r: "lists_ok h heads xs"
  have "P (unlinked (the (nodes h a))) = P (the (info h a))" if "a \<in> set (xs l)" for a
    using is_list_allocated [OF lists_okD(2) [OF r] that] by (auto simp: info_def)
  then have "find (\<lambda>a. P (unlinked (the (nodes h a)))) (xs l) = find (\<lambda>a. P (the (info h a))) (xs l)"
    by (rule find_cong [OF refl])
  then show "search_info h (heads l) P = Inr (find (\<lambda>a. P (the (info h a))) (xs l))"
    using search_list [OF lists_okD(2) [OF r] lists_okD(1) [OF r]] by (simp add: search_info_def)
next
  fix h and heads :: "'l \<Rightarrow> ptr" and xs :: "'l \<Rightarrow> nat list" and a l m
  assume r: "lists_ok h heads xs" and a: "a \<in> set (xs l)" and lm: "l \<noteq> m"
  show "\<exists>h' p' q'. move_node h (heads m) (heads l) (Some a) = Inr (h', q', p') \<and>
        lists_ok h' (heads(l := p', m := q')) (xs(l := remove1 a (xs l), m := a # xs m)) \<and> info h' = info h"
    using lists_move [OF r a lm] by blast
qed (fact lists_okD(5) lists_okD(3) lists_okD(4) lists_delete)+

end
