(* ===== verification/ListSpec.thy ===== *)
theory ListSpec
  imports Hashlist
begin

text \<open>
  What the list operations of \<^verbatim>\<open>hashlist.c\<close> promise to the peer: seven lists behind pointers
  in one heap behave as seven sequences of node contents. The abstract state maps a list to
  its sequence; every operation of the code is simulated by one on the sequences.
\<close>

section \<open>Operations on heaps and on sequences\<close>

text \<open>
  Nodes are made and put in front; the first node with a digest is moved or deleted, when
  there is one; a list is cleared. These are the ways in which \<^verbatim>\<open>peer.c\<close> uses the lists.
\<close>

datatype 'l list_op =
    Add 'l sockaddr_in "byte list" int
  | Move "byte list" 'l 'l
  | Delete "byte list" 'l
  | Clear 'l

fun heap_step :: "heap \<times> ('l \<Rightarrow> ptr) \<Rightarrow> 'l list_op \<Rightarrow> (heap \<times> ('l \<Rightarrow> ptr)) res" where
  "heap_step (h, heads) (Add l addr hash k) =
     ebind (create_node h addr hash k) (\<lambda>(h1, node).
     ebind (append_node h1 (heads l) node) (\<lambda>(h2, p). Inr (h2, heads(l := p))))"
| "heap_step (h, heads) (Move hash l m) =
     ebind (find_node h (heads l) hash) (\<lambda>node.
     ebind (move_node h (heads m) (heads l) node) (\<lambda>(h1, dest, src). Inr (h1, heads(l := src, m := dest))))"
| "heap_step (h, heads) (Delete hash l) =
     ebind (find_node h (heads l) hash) (\<lambda>node.
     ebind (delete_node h (heads l) node) (\<lambda>(h1, p). Inr (h1, heads(l := p))))"
| "heap_step (h, heads) (Clear l) =
     ebind (clear_hashchunk_list h (heads l)) (\<lambda>(h1, p, n). Inr (h1, heads(l := p)))"

abbreviation has_hash :: "byte list \<Rightarrow> hash_chunk \<Rightarrow> bool" where
  "has_hash hash n \<equiv> node_hash n = take 20 hash"

fun seq_step :: "('l \<Rightarrow> hash_chunk list) \<Rightarrow> 'l list_op \<Rightarrow> ('l \<Rightarrow> hash_chunk list)" where
  "seq_step S (Add l addr hash k) =
     S(l := \<lparr>node_from = addr, node_hash = take 20 hash, chunkid = k, next_node = None, node_time = 0,
             congWin = None, Recver = None\<rparr> # S l)"
| "seq_step S (Move hash l m) =
     (case List.extract (has_hash hash) (S l) of None \<Rightarrow> S
      | Some (us, n, vs) \<Rightarrow> S(l := us @ vs, m := n # S m))"
| "seq_step S (Delete hash l) =
     (case List.extract (has_hash hash) (S l) of None \<Rightarrow> S | Some (us, n, vs) \<Rightarrow> S(l := us @ vs))"
| "seq_step S (Clear l) = S(l := [])"

text \<open>Digests are arrays of at least 20 bytes, and no list is moved into itself.\<close>

fun op_ok :: "'l list_op \<Rightarrow> bool" where
  "op_ok (Add l addr hash k) \<longleftrightarrow> 20 \<le> length hash"
| "op_ok (Move hash l m) \<longleftrightarrow> l \<noteq> m"
| "op_ok _ \<longleftrightarrow> True"

section \<open>The simulation\<close>

text \<open>A heap with its list variables holds the sequences \<open>S\<close>.\<close>

definition cells :: "heap \<Rightarrow> nat list \<Rightarrow> hash_chunk list" where
  "cells h as = map (\<lambda>a. the (info h a)) as"

definition refines :: "heap \<times> ('l \<Rightarrow> ptr) \<Rightarrow> ('l \<Rightarrow> hash_chunk list) \<Rightarrow> bool" where
  "refines c S \<longleftrightarrow> (case c of (h, heads) \<Rightarrow> \<exists>xs. lists_ok h heads xs \<and> S = (\<lambda>l. cells h (xs l)))"

lemma refinesI: "lists_ok h heads xs \<Longrightarrow> (\<And>l. S l = cells h (xs l)) \<Longrightarrow> refines (h, heads) S"
  by (auto simp: refines_def)

lemma refinesE:
  assumes "refines (h, heads) S"
  obtains xs where "lists_ok h heads xs" "S = (\<lambda>l. cells h (xs l))"
  using assms by (auto simp: refines_def)

lemma cells_same: "info h' = info h \<Longrightarrow> cells h' as = cells h as"
  by (simp add: cells_def)

lemma cells_cong: "(\<And>a. a \<in> set as \<Longrightarrow> info h' a = info h a) \<Longrightarrow> cells h' as = cells h as"
  by (simp add: cells_def)

lemma cells_Cons [simp]: "cells h (a # as) = the (info h a) # cells h as"
  by (simp add: cells_def)

text \<open>Cutting the first match out of the sequence is removing its address from the list.\<close>

lemma extract_cells:
  assumes "find (\<lambda>a. P (the (info h a))) as = r" and "distinct as"
  shows "case r of None \<Rightarrow> List.extract P (cells h as) = None
    | Some a \<Rightarrow> a \<in> set as \<and> (\<exists>us vs. List.extract P (cells h as) = Some (us, the (info h a), vs) \<and>
        cells h (remove1 a as) = us @ vs)"
  using assms
proof (induction as arbitrary: r)
  case Nil
  then show ?case by (auto simp: cells_def extract_Nil_code)
next
  case (Cons b as)
  show ?case
  proof (cases "P (the (info h b))")
    case True
    with Cons.prems show ?thesis by (auto simp: extract_Cons_code)
  next
    case False
    with Cons.prems have "find (\<lambda>a. P (the (info h a))) as = r" by simp
    from Cons.IH [OF this] Cons.prems(2) False show ?thesis
      by (cases r) (auto simp: extract_Cons_code)
  qed
qed

lemma find_node_extract:
  assumes "lists_ok h heads xs"
  obtains "find_node h (heads l) hash = Inr None" "List.extract (has_hash hash) (cells h (xs l)) = None"
  | a us vs where "find_node h (heads l) hash = Inr (Some a)" "a \<in> set (xs l)"
      "List.extract (has_hash hash) (cells h (xs l)) = Some (us, the (info h a), vs)"
      "cells h (remove1 a (xs l)) = us @ vs"
proof -
  let ?r = "find (\<lambda>a. has_hash hash (the (info h a))) (xs l)"
  have "find_node h (heads l) hash = Inr ?r" unfolding find_node_info by (rule ls.find_law [OF assms])
  with extract_cells [OF refl lists_okD(4) [OF assms], of "has_hash hash" h l] that show ?thesis
    by (cases ?r) auto
qed

lemma step_refines:
  assumes r: "refines c S" and ok: "op_ok op"
  shows "\<exists>c'. heap_step c op = Inr c' \<and> refines c' (seq_step S op)"
proof -
  obtain h heads where c: "c = (h, heads)" by (cases c)
  from r [unfolded c] obtain xs where l: "lists_ok h heads xs" and S: "S = (\<lambda>l. cells h (xs l))" by (rule refinesE)
  show ?thesis
  proof (cases op)
    case (Add l addr hash k)
    with ok have len: "20 \<le> length hash" by simp
    from lists_add_new [OF l len, of addr k l] obtain h1 h' a where a:
      "create_node h addr hash k = Inr (h1, Some a)" "append_node h1 (heads l) (Some a) = Inr (h', Some a)"
      "lists_ok h' (heads(l := Some a)) (xs(l := a # xs l))"
      "info h' = (info h)(a \<mapsto> \<lparr>node_from = addr, node_hash = take 20 hash, chunkid = k,
              next_node = None, node_time = 0, congWin = None, Recver = None\<rparr>)" "\<And>m. a \<notin> set (xs m)" by blast
    have "cells h' (xs m) = cells h (xs m)" for m using a(5) [of m] by (intro cells_cong) (auto simp: a(4))
    then have "refines (h', heads(l := Some a)) (seq_step S op)"
      by (intro refinesI [OF a(3)]) (simp add: Add S a(4))
    with a show ?thesis by (simp add: c Add)
  next
    case (Move hash l' m)
    with ok have lm: "l' \<noteq> m" by simp
    show ?thesis
    proof (cases rule: find_node_extract [OF l, of l' hash])
      case 1
      then have "heap_step c op = Inr (h, heads)" by (simp add: c Move move_node_def)
      moreover have "seq_step S op = S" using 1 by (simp add: Move S)
      ultimately show ?thesis using r by (simp add: c)
    next
      case (2 a us vs)
      from lists_move [OF l 2(2) lm] obtain h' p where v:
        "move_node h (heads m) (heads l') (Some a) = Inr (h', Some a, p)"
        "lists_ok h' (heads(l' := p, m := Some a)) (xs(l' := remove1 a (xs l'), m := a # xs m))" "info h' = info h" by blast
      have "refines (h', heads(l' := p, m := Some a)) (seq_step S op)"
        using lm 2 by (intro refinesI [OF v(2)]) (simp add: Move S cells_same [OF v(3)] v(3))
      with v 2 show ?thesis by (simp add: c Move)
    qed
  next
    case (Delete hash l')
    show ?thesis
    proof (cases rule: find_node_extract [OF l, of l' hash])
      case 1
      then have "heap_step c op = Inr (h, heads)" by (simp add: c Delete delete_node_def)
      moreover have "seq_step S op = S" using 1 by (simp add: Delete S)
      ultimately show ?thesis using r by (simp add: c)
    next
      case (2 a us vs)
      from lists_delete [OF l 2(2)] obtain h' p where v: "delete_node h (heads l') (Some a) = Inr (h', p)"
        "lists_ok h' (heads(l' := p)) (xs(l' := remove1 a (xs l')))" "info h' = (info h)(a := None)" by blast
      have "a \<notin> set (remove1 a (xs l'))" using lists_okD(4) [OF l] by simp
      then have "cells h' (remove1 a (xs l')) = us @ vs"
        unfolding 2(4) [symmetric] by (intro cells_cong) (auto simp: v(3))
      moreover have "cells h' (xs m) = cells h (xs m)" if "m \<noteq> l'" for m
        using lists_okD(3) [OF l that] 2(2) by (intro cells_cong) (auto simp: v(3))
      ultimately have "refines (h', heads(l' := p)) (seq_step S op)"
        using 2 by (intro refinesI [OF v(2)]) (simp add: Delete S)
      with v 2 show ?thesis by (simp add: c Delete)
    qed
  next
    case (Clear l')
    from lists_clear [OF l, of l'] obtain h' where v:
      "clear_hashchunk_list h (heads l') = Inr (h', None, int (length (xs l')))"
      "lists_ok h' (heads(l' := None)) (xs(l' := []))"
      "\<forall>a. info h' a = (if a \<in> set (xs l') then None else info h a)" by blast
    have "cells h' (xs m) = cells h (xs m)" if "m \<noteq> l'" for m
      using lists_okD(3) [OF l that] by (intro cells_cong) (auto simp: v(3))
    then have "refines (h', heads(l' := None)) (seq_step S op)"
      by (intro refinesI [OF v(2)]) (simp add: Clear S, simp add: cells_def)
    with v show ?thesis by (simp add: c Clear)
  qed
qed

interpretation seqs: simulation heap_step seq_step op_ok refines
  by unfold_locales (rule step_refines)

text \<open>Counting the nodes gives the length of the sequence.\<close>

lemma refines_length: "refines (h, heads) S \<Longrightarrow> length_of_list h (heads l) = Inr (int (length (S l)))"
  by (elim refinesE) (simp add: cells_def length_of_list_list [OF lists_okD(2) lists_okD(1)])

lemma refines_empty: "refines (empty_heap, \<lambda>_. None) (\<lambda>_. [])"
  by (rule refinesI [of _ _ "\<lambda>_. []"])
     (simp_all add: cells_def lists_ok_def heap_ok_def is_list_def empty_heap_def)

text \<open>
  C14. Any sequence of list operations, from empty lists on, runs without a fault, and the
  lists in the heap then hold exactly the sequences that the abstract operations give; the
  node counter returns their lengths.
\<close>

theorem lists_refine_sequences:
  fixes ops :: "'l list_op list"
  assumes "list_all op_ok ops"
  shows "\<exists>h heads. run_steps heap_step (empty_heap, \<lambda>_. None) ops = Inr (h, heads) \<and>
    refines (h, heads) (foldl seq_step (\<lambda>_. []) ops) \<and>
    (\<forall>l. length_of_list h (heads l) = Inr (int (length (foldl seq_step (\<lambda>_. []) ops l))))"
proof -
  from seqs.run_sim [OF refines_empty assms] refines_length show ?thesis by fastforce
qed

theorem lists_refine_sequences_witness:
  "\<exists>h heads. run_steps heap_step (empty_heap, \<lambda>_. None)
      [Add False \<lparr>sin_family = 2, sin_port = 0, sin_addr = 0\<rparr> (replicate 20 1) 5, Move (replicate 20 1) False True] = Inr (h, heads) \<and>
    length_of_list h (heads False) = Inr 0 \<and> length_of_list h (heads True) = Inr 1"
proof -
  let ?ops = "[Add False \<lparr>sin_family = 2, sin_port = 0, sin_addr = 0\<rparr> (replicate 20 1) 5, Move (replicate 20 1) False True]"
  have ok: "list_all op_ok ?ops" by simp
  have "foldl seq_step (\<lambda>_. []) ?ops False = []" "length (foldl seq_step (\<lambda>_. []) ?ops True) = 1"
    by (simp_all add: extract_Cons_code)
  with lists_refine_sequences [OF ok] show ?thesis by fastforce
qed

end
