(* ===== verification/Catalog.thy ===== *)
theory Catalog
  imports Hashlist Reassembly
begin

text \<open>
  The rest of \<^verbatim>\<open>hashlist.c\<close>: the chunk files that say what a peer has or needs, and the
  WHOHAS, IHAVE and GET packets made from the lists.
\<close>

section \<open>Connections\<close>

record Download_conn =
  output_fd :: int
  concurr_download_num :: int
  max_download_num :: int
  howmany_found :: int
  howmany_need :: int
  needlist :: ptr
  get_tosend_quene :: ptr
  get_tosend_tail :: ptr
  get_sent_list :: ptr
  downloading_list :: ptr

record Upload_conn =
  concurr_upload_num :: int
  max_upload_num :: int
  uploading_list :: ptr
  uploaded_list :: ptr

section \<open>Chunk files\<close>

text \<open>
  \<open>sscanf(line, "%d %s", &chunkid, hash)\<close> with \<open>hash\<close> cleared before: the number of
  conversions, the identifier (kept from the line before when none is read) and the word,
  which has no width limit and goes to a 50-byte array.
\<close>

definition scan_chunk :: "byte list \<Rightarrow> int option \<Rightarrow> (int \<times> int option \<times> byte list) res" where
  "scan_chunk line v =
     (if skip_space line = [] then Inr (-1, v, replicate 50 0)
      else case scan_int line of None \<Rightarrow> Inr (0, v, replicate 50 0)
      | Some (i, r) \<Rightarrow>
         (case scan_word None r of None \<Rightarrow> Inr (1, Some i, replicate 50 0)
          | Some (w, _) \<Rightarrow>
             ebind (mem_write (replicate 50 0) 0 (w @ [0])) (\<lambda>hash. Inr (2, Some i, hash))))"

function hasneed_loop ::
  "sockaddr_in \<Rightarrow> byte list \<Rightarrow> int option \<Rightarrow> heap \<Rightarrow> ptr \<Rightarrow> (heap \<times> ptr) res" where
  "hasneed_loop myaddr f v h l =
     (case fgets BT_FILENAME_LEN f of None \<Rightarrow> Inr (h, l)
      | Some (line, rest) \<Rightarrow>
          if hd line = 35 then hasneed_loop myaddr rest v h l
          else ebind (scan_chunk (cstr line) v) (\<lambda>(n, v', hash).
               guard (n \<noteq> 0) AssertFail
                 (ebind (hex2binary hash 40 (replicate 30 0)) (\<lambda>decoded_hash.
                  case v' of None \<Rightarrow> Inl Uninitialised
                  | Some cid \<Rightarrow>
                      ebind (create_node h myaddr decoded_hash cid) (\<lambda>(h1, node).
                      ebind (append_node h1 l node) (\<lambda>(h2, l2).
                      hasneed_loop myaddr rest v' h2 l2))))))"
  by pat_completeness auto
termination
  by (relation "measure (\<lambda>(m, f, v, h, l). length f)") (auto dest: fgets_shortens)

declare hasneed_loop.simps [simp del]

definition LOCALHOST :: u32 where "LOCALHOST = rd_le32 [127, 0, 0, 1]"

definition own_addr :: "bt_config \<Rightarrow> sockaddr_in" where
  "own_addr config = \<lparr>sin_family = AF_INET, sin_port = htons (myport config), sin_addr = LOCALHOST\<rparr>"

text \<open>\<open>filepath\<close> is \<open>None\<close> for the null pointer, which selects the has-chunk file.\<close>

definition parse_hasneed_list ::
  "(byte list \<Rightarrow> byte list option) \<Rightarrow> heap \<Rightarrow> ptr \<Rightarrow> bt_config \<Rightarrow> byte list option \<Rightarrow> (heap \<times> ptr) res" where
  "parse_hasneed_list fs h l config filepath =
     (case fs (case filepath of None \<Rightarrow> has_chunk_file config | Some p \<Rightarrow> p) of None \<Rightarrow> Inl AssertFail
      | Some f \<Rightarrow> hasneed_loop (own_addr config) f None h l)"

section \<open>Packets from lists\<close>

text \<open>
  The search for chunks nobody has offered yet: at most fifty hashes go into the payload
  array; the node where the loop stopped is returned for the next packet.
\<close>

definition unclaimed :: "heap \<Rightarrow> Download_conn \<Rightarrow> byte list \<Rightarrow> bool res" where
  "unclaimed h down hash =
     ebind (find_node h (get_tosend_quene down) hash) (\<lambda>r1.
     if r1 \<noteq> None then Inr False
     else ebind (find_node h (get_sent_list down) hash) (\<lambda>r2.
     if r2 \<noteq> None then Inr False
     else ebind (find_node h (downloading_list down) hash) (\<lambda>r3. Inr (r3 = None))))"

fun whohas_loop :: "nat \<Rightarrow> heap \<Rightarrow> Download_conn \<Rightarrow> ptr \<Rightarrow> nat \<Rightarrow> byte list \<Rightarrow> (ptr \<times> nat \<times> byte list) res" where
  "whohas_loop fuel h down None count pload = Inr (None, count, pload)"
| "whohas_loop 0 h down (Some a) count pload =
     (if count < MAX_HASHNUM_PER_PACK then Inl Hang else Inr (Some a, count, pload))"
| "whohas_loop (Suc fuel) h down (Some a) count pload =
     (if count < MAX_HASHNUM_PER_PACK
      then ebind (load h (Some a)) (\<lambda>curr.
           ebind (unclaimed h down (node_hash curr)) (\<lambda>u.
           if u
           then ebind (mem_write pload (int (count * HASH_SIZE)) (node_hash curr)) (\<lambda>pload'.
                whohas_loop fuel h down (next_node curr) (count + 1) pload')
           else whohas_loop fuel h down (next_node curr) count pload))
      else Inr (Some a, count, pload))"

definition hash_packet :: "byte \<Rightarrow> nat \<Rightarrow> byte list \<Rightarrow> packet" where
  "hash_packet ptype count bs = zero_packet\<lparr>Packet_Type := ptype, Hd_len := of_nat HEADER_LEN,
     Magic_Num := 15441, Version_Num := 1, ACK_Num := 0, Seq_Num := 0, Chunkhash_Num := of_nat count,
     Pack_len := of_nat (HEADER_LEN + count * HASH_SIZE + 4), payload := Some bs\<rparr>"

definition form_WhoHas :: "heap \<Rightarrow> Download_conn \<Rightarrow> ptr \<Rightarrow> (packet \<times> ptr) res" where
  "form_WhoHas h down need =
     ebind (whohas_loop (Suc (fresh h)) h down need 0 (replicate (MAX_HASHNUM_PER_PACK * HASH_SIZE + 1) 0))
       (\<lambda>(curr, count, pload).
        ebind (mem_read pload 0 (int (count * HASH_SIZE))) (\<lambda>bs.
        Inr (hash_packet 0 count bs, curr)))"

text \<open>The payload array of the answer has room for fifty hashes; the request decides how many are looked up.\<close>

fun ihav_loop :: "nat \<Rightarrow> nat \<Rightarrow> heap \<Rightarrow> packet \<Rightarrow> ptr \<Rightarrow> nat \<Rightarrow> byte list \<Rightarrow> (nat \<times> byte list) res" where
  "ihav_loop 0 count h whohas has len pload = Inr (len, pload)"
| "ihav_loop (Suc n) count h whohas has len pload =
     ebind (payload_read whohas (int (count * HASH_SIZE)) (int HASH_SIZE)) (\<lambda>find_hash.
     ebind (find_node h has find_hash) (\<lambda>r.
     if r \<noteq> None
     then ebind (mem_write pload (int (len * HASH_SIZE)) find_hash) (\<lambda>pload'.
          ihav_loop n (count + 1) h whohas has (len + 1) pload')
     else ihav_loop n (count + 1) h whohas has len pload))"

definition form_IHav :: "heap \<Rightarrow> packet \<Rightarrow> ptr \<Rightarrow> packet res" where
  "form_IHav h whohas has =
     ebind (ihav_loop (unat (Chunkhash_Num whohas)) 0 h whohas has 0 (replicate (MAX_HASHNUM_PER_PACK * HASH_SIZE + 1) 0))
       (\<lambda>(len, pload).
        ebind (mem_read pload 0 (int (len * HASH_SIZE))) (\<lambda>bs. Inr (hash_packet 1 len bs)))"

definition form_GET :: "hash_chunk \<Rightarrow> packet res" where
  "form_GET n =
     ebind (mem_read (node_hash n) 0 (int HASH_SIZE)) (\<lambda>bs.
     Inr (zero_packet\<lparr>Packet_Type := 2, Hd_len := of_nat HEADER_LEN, Magic_Num := 15441, Version_Num := 1,
       ACK_Num := 0, Seq_Num := 1, Pack_len := of_nat (HEADER_LEN + HASH_SIZE), payload := Some bs,
       Chunkhash_Num := 0\<rparr>))"

text \<open>
  The debugging output. \<open>print_hash_chunks\<close> walks the list and prints every node, its window
  and its receiver, with their hashes in hexadecimal; what is printed is not modelled, the
  memory it touches is.
\<close>

definition printWindow :: "Window option \<Rightarrow> unit res" where
  "printWindow pw = (case pw of None \<Rightarrow> Inr ()
     | Some W \<Rightarrow> ebind (binary2hex (win_hash W) 20 (replicate 41 0)) (\<lambda>_. Inr ()))"

definition printRecvState :: "Recv_State option \<Rightarrow> unit res" where
  "printRecvState pr = (case pr of None \<Rightarrow> Inr ()
     | Some rs \<Rightarrow> ebind (binary2hex (recv_hash rs) 20 (replicate 41 0)) (\<lambda>_. Inr ()))"

fun print_loop :: "nat \<Rightarrow> heap \<Rightarrow> ptr \<Rightarrow> unit res" where
  "print_loop fuel h None = Inr ()"
| "print_loop 0 h (Some a) = Inl Hang"
| "print_loop (Suc fuel) h (Some a) =
     ebind (load h (Some a)) (\<lambda>n.
     ebind (binary2hex (node_hash n) 20 (replicate 41 0)) (\<lambda>_.
     ebind (printWindow (congWin n)) (\<lambda>_.
     ebind (printRecvState (Recver n)) (\<lambda>_. print_loop fuel h (next_node n)))))"

definition print_hash_chunks :: "heap \<Rightarrow> ptr \<Rightarrow> unit res" where
  "print_hash_chunks h l = print_loop (Suc (fresh h)) h l"

section \<open>Which hashes the packets carry\<close>

definition hash_at :: "heap \<Rightarrow> nat \<Rightarrow> byte list" where
  "hash_at h a = node_hash (the (info h a))"

definition hashes_ok :: "heap \<Rightarrow> bool" where
  "hashes_ok h \<longleftrightarrow> (\<forall>a n. info h a = Some n \<longrightarrow> length (node_hash n) = 20)"

lemma hashes_okD: "hashes_ok h \<Longrightarrow> info h a \<noteq> None \<Longrightarrow> length (hash_at h a) = 20"
  by (auto simp: hashes_ok_def hash_at_def)

lemma find_node_hash:
  assumes "lists_ok h heads xs"
  shows "\<exists>r. find_node h (heads l) hash = Inr r \<and> (r \<noteq> None \<longleftrightarrow> take 20 hash \<in> hash_at h ` set (xs l))"
proof -
  let ?r = "find (\<lambda>a. node_hash (the (info h a)) = take 20 hash) (xs l)"
  have "?r \<noteq> None \<longleftrightarrow> take 20 hash \<in> hash_at h ` set (xs l)"
    unfolding find_None_iff hash_at_def image_iff by metis
  moreover have "find_node h (heads l) hash = Inr ?r"
    unfolding find_node_info by (rule ls.find_law [OF assms])
  ultimately show ?thesis by blast
qed

lemma find_node_in:
  assumes "lists_ok h heads xs" and "find_node h (heads l) hash = Inr (Some a)"
  shows "a \<in> set (xs l)" "\<exists>n. info h a = Some n \<and> node_hash n = take 20 hash"
  using ls.found [OF assms(1) assms(2) [unfolded find_node_info]] by auto

lemma load_info: "info h a = Some n \<Longrightarrow> \<exists>m. load h (Some a) = Inr m \<and> unlinked m = n"
  by (auto simp: info_def load_def)

text \<open>The chunks of the need list that no list of offers, requests or downloads mentions.\<close>

definition claimed :: "heap \<Rightarrow> nat list \<Rightarrow> byte list \<Rightarrow> bool" where
  "claimed h as hash \<longleftrightarrow> hash \<in> hash_at h ` set as"

lemma unclaimed_result:
  assumes ok: "lists_ok h heads xs" and len: "length hash = 20"
    and "heads t = get_tosend_quene down" "heads s = get_sent_list down" "heads d = downloading_list down"
  shows "unclaimed h down hash = Inr (\<not> claimed h (xs t @ xs s @ xs d) hash)"
proof -
  obtain r1 r2 r3 where "find_node h (heads t) hash = Inr r1" "r1 \<noteq> None \<longleftrightarrow> hash \<in> hash_at h ` set (xs t)"
    "find_node h (heads s) hash = Inr r2" "r2 \<noteq> None \<longleftrightarrow> hash \<in> hash_at h ` set (xs s)"
    "find_node h (heads d) hash = Inr r3" "r3 \<noteq> None \<longleftrightarrow> hash \<in> hash_at h ` set (xs d)"
    using find_node_hash [OF ok, of t hash] find_node_hash [OF ok, of s hash] find_node_hash [OF ok, of d hash] len
    by auto
  with assms(3-) show ?thesis by (auto simp: unclaimed_def claimed_def)
qed

text \<open>A payload array into which the hashes \<open>hs\<close> have been copied.\<close>

definition hash_array :: "byte list list \<Rightarrow> byte list" where
  "hash_array hs = concat hs @ replicate (1001 - 20 * length hs) 0"

lemma length_concat_hashes: "\<forall>x\<in>set hs. length x = 20 \<Longrightarrow> length (concat hs) = 20 * length hs"
  by (induction hs) auto

lemma hash_array_write:
  assumes "\<forall>x\<in>set hs. length x = 20" and "length x = 20" and "length hs < 50"
  shows "mem_write (hash_array hs) (int (length hs * HASH_SIZE)) x = Inr (hash_array (hs @ [x]))"
proof -
  have "replicate (1001 - 20 * length hs) (0::byte) =
      replicate 20 0 @ replicate (1001 - 20 * length (hs @ [x])) 0"
    using assms(3) by (intro replicate_split) simp
  then have "hash_array hs = concat hs @ replicate 20 0 @ replicate (1001 - 20 * length (hs @ [x])) 0"
    by (simp only: hash_array_def)
  moreover have "int (length hs * HASH_SIZE) = int (length (concat hs))"
    by (simp add: length_concat_hashes [OF assms(1)] HASH_SIZE_def)
  ultimately have "mem_write (hash_array hs) (int (length hs * HASH_SIZE)) x =
      Inr (concat hs @ x @ replicate (1001 - 20 * length (hs @ [x])) 0)"
    using assms(2) by (simp only: mem_write_middle length_replicate)
  then show ?thesis by (simp add: hash_array_def)
qed

lemma hash_array_full:
  assumes "\<forall>x\<in>set hs. length x = 20" and "length x = 20" and "length hs = 50"
  shows "mem_write (hash_array hs) (int (length hs * HASH_SIZE)) x = Inl OutOfBounds"
proof -
  have "length (hash_array hs) = 1001"
    by (simp add: hash_array_def length_concat_hashes [OF assms(1)] assms(3))
  moreover have "int (length hs * HASH_SIZE) = 1000" by (simp add: assms(3) HASH_SIZE_def)
  ultimately show ?thesis using assms(2) by (auto simp: mem_write_def)
qed

lemma hash_array_read:
  assumes "\<forall>x\<in>set hs. length x = 20"
  shows "mem_read (hash_array hs) 0 (int (length hs * HASH_SIZE)) = Inr (concat hs)"
  using mem_read_prefix [of "concat hs"] length_concat_hashes [OF assms]
  by (simp add: hash_array_def HASH_SIZE_def mult.commute)

lemma hash_array_Nil: "replicate (MAX_HASHNUM_PER_PACK * HASH_SIZE + 1) 0 = hash_array []"
  by (simp add: hash_array_def MAX_HASHNUM_PER_PACK_def HASH_SIZE_def)

lemma whohas_loop_result:
  assumes ok: "lists_ok h heads xs" and hok: "hashes_ok h"
    and hd: "heads t = get_tosend_quene down" "heads s = get_sent_list down" "heads d = downloading_list down"
    and ys: "lseg h p ys None" "length ys \<le> fuel"
    and hs: "\<forall>x\<in>set hs. length x = 20" "length hs \<le> 50"
  defines "new \<equiv> filter (\<lambda>x. \<not> claimed h (xs t @ xs s @ xs d) x)"
  shows "\<exists>us vs q. ys = us @ vs \<and> lseg h q vs None \<and>
    (let hs' = hs @ new (map (hash_at h) us) in
       whohas_loop fuel h down p (length hs) (hash_array hs) = Inr (q, length hs', hash_array hs') \<and>
       length hs' \<le> 50 \<and> (vs = [] \<or> length hs' = 50) \<and> (ys \<noteq> [] \<and> length hs < 50 \<longrightarrow> us \<noteq> []))"
  using ys hs
proof (induction ys arbitrary: p fuel hs)
  case Nil
  then show ?case by (auto simp: new_def)
next
  case (Cons y ys)
  then obtain k n where k: "fuel = Suc k" and n: "p = Some y" "nodes h y = Some n" "lseg h (next_node n) ys None"
    by (cases fuel) auto
  show ?case
  proof (cases "length hs = 50")
    case True
    with n k show ?thesis
      by (intro exI [of _ "[]"] exI [of _ "y # ys"] exI [of _ p]) (simp add: new_def MAX_HASHNUM_PER_PACK_def)
  next
    case False
    then have lt: "length hs < 50" "length hs < MAX_HASHNUM_PER_PACK"
      using Cons.prems(4) by (auto simp: MAX_HASHNUM_PER_PACK_def)
    have hy: "hash_at h y = node_hash n" using n(2) by (simp add: hash_at_def info_def)
    have len: "length (node_hash n) = 20" using hashes_okD [OF hok, of y] n(2) hy by (simp add: info_def)
    have u: "unclaimed h down (node_hash n) = Inr (\<not> claimed h (xs t @ xs s @ xs d) (node_hash n))"
      by (rule unclaimed_result [OF ok len hd])
    let ?hs = "if claimed h (xs t @ xs s @ xs d) (node_hash n) then hs else hs @ [node_hash n]"
    have step: "whohas_loop fuel h down p (length hs) (hash_array hs) =
        whohas_loop k h down (next_node n) (length ?hs) (hash_array ?hs)"
      using lt n k u hash_array_write [OF Cons.prems(3) len lt(1)] by (auto simp: load_def)
    have "\<exists>us vs q. ys = us @ vs \<and> lseg h q vs None \<and>
      (let hs' = ?hs @ new (map (hash_at h) us) in
       whohas_loop k h down (next_node n) (length ?hs) (hash_array ?hs) = Inr (q, length hs', hash_array hs') \<and>
       length hs' \<le> 50 \<and> (vs = [] \<or> length hs' = 50) \<and> (ys \<noteq> [] \<and> length ?hs < 50 \<longrightarrow> us \<noteq> []))"
      using n(3) Cons.prems k lt len by (intro Cons.IH) auto
    then obtain us vs q where r: "ys = us @ vs" "lseg h q vs None"
      "whohas_loop k h down (next_node n) (length ?hs) (hash_array ?hs) =
        Inr (q, length (?hs @ new (map (hash_at h) us)), hash_array (?hs @ new (map (hash_at h) us)))"
      "length (?hs @ new (map (hash_at h) us)) \<le> 50" "vs = [] \<or> length (?hs @ new (map (hash_at h) us)) = 50"
      by (auto simp: Let_def)
    have eq: "?hs @ new (map (hash_at h) us) = hs @ new (map (hash_at h) (y # us))"
      by (simp add: new_def hy)
    show ?thesis
      using r unfolding eq step [symmetric]
      by (intro exI [of _ "y # us"] exI [of _ vs] exI [of _ q]) (simp add: Let_def)
  qed
qed

text \<open>A packet of \<open>n\<close> hashes, with everything but the hashes determined.\<close>

lemma hash_packet_wf:
  assumes "ptype \<le> 1" and "0 < count" "count \<le> 255" and "length bs = count * HASH_SIZE"
  shows "wf_packet (hash_packet ptype count bs)"
proof -
  have "unat (of_nat (16 + count * 20 + 4) :: u16) = 16 + count * 20 + 4"
    using assms(3) by (simp only: unat_of_nat) (simp add: take_bit_nat_eq_self)
  moreover have "bs \<noteq> []" using assms(2,4) by (auto simp: HASH_SIZE_def)
  moreover have "\<not> 4 \<le> ptype"
  proof
    assume "4 \<le> ptype"
    then have "(4 :: byte) \<le> 1" using assms(1) by (rule order_trans)
    then show False by simp
  qed
  moreover have "\<not> 1 < ptype" using assms(1) by (simp add: not_less)
  ultimately show ?thesis
    using assms by (simp add: wf_packet_def hash_packet_def zero_packet_def overhead_def body_def
        HEADER_LEN_def HASH_SIZE_def)
qed

lemma form_WhoHas_result:
  assumes ok: "lists_ok h heads xs" and hok: "hashes_ok h"
    and hd: "heads t = get_tosend_quene down" "heads s = get_sent_list down" "heads d = downloading_list down"
    and ys: "is_list h p ys"
  defines "new \<equiv> filter (\<lambda>x. \<not> claimed h (xs t @ xs s @ xs d) x)"
  shows "\<exists>us vs q. ys = us @ vs \<and> is_list h q vs \<and>
    (let hs = new (map (hash_at h) us) in
       form_WhoHas h down p = Inr (hash_packet 0 (length hs) (concat hs), q) \<and>
       length hs \<le> 50 \<and> (vs = [] \<or> length hs = 50) \<and> (ys \<noteq> [] \<longrightarrow> us \<noteq> []))"
proof -
  have len: "length ys \<le> Suc (fresh h)" using is_list_length [OF ys lists_okD(1) [OF ok]] by simp
  from whohas_loop_result [OF ok hok hd ys [unfolded is_list_def] len, of "[]"] obtain us vs q where r:
    "ys = us @ vs" "is_list h q vs"
    "whohas_loop (Suc (fresh h)) h down p 0 (hash_array []) =
      Inr (q, length (new (map (hash_at h) us)), hash_array (new (map (hash_at h) us)))"
    "length (new (map (hash_at h) us)) \<le> 50" "vs = [] \<or> length (new (map (hash_at h) us)) = 50"
    "ys \<noteq> [] \<longrightarrow> us \<noteq> []"
    by (auto simp: Let_def new_def is_list_def)
  have "\<forall>x\<in>set (new (map (hash_at h) us)). length x = 20"
    using is_list_allocated [OF ys] hashes_okD [OF hok] r(1) by (fastforce simp: new_def info_def)
  from hash_array_read [OF this] r(3)
  have "form_WhoHas h down p =
      Inr (hash_packet 0 (length (new (map (hash_at h) us))) (concat (new (map (hash_at h) us))), q)"
    unfolding form_WhoHas_def hash_array_Nil by simp
  with r show ?thesis by (auto simp: Let_def)
qed

text \<open>The hashes of a request, as the front of the payload has them.\<close>

definition carries_hashes :: "packet \<Rightarrow> byte list list \<Rightarrow> bool" where
  "carries_hashes p hs \<longleftrightarrow> (hs = [] \<or> (\<exists>t. payload p = Some (concat hs @ t))) \<and>
     unat (Chunkhash_Num p) = length hs \<and> (\<forall>x\<in>set hs. length x = 20)"

lemma concat_slice:
  assumes "\<forall>x\<in>set hs. length x = 20" and "i < length hs"
  shows "take 20 (drop (20 * i) (concat hs @ t)) = hs ! i"
  using assms
proof (induction hs arbitrary: i)
  case (Cons a hs)
  then show ?case by (cases i) auto
qed simp

lemma payload_read_hash:
  assumes "carries_hashes p hs" and "i < length hs"
  shows "payload_read p (int (i * HASH_SIZE)) (int HASH_SIZE) = Inr (hs ! i)"
proof -
  obtain t where t: "payload p = Some (concat hs @ t)" using assms by (auto simp: carries_hashes_def)
  have "length (concat hs) = 20 * length hs"
    using assms(1) by (intro length_concat_hashes) (simp add: carries_hashes_def)
  moreover have "take 20 (drop (20 * i) (concat hs @ t)) = hs ! i"
    using assms by (intro concat_slice) (auto simp: carries_hashes_def)
  ultimately show ?thesis
    using assms by (simp add: payload_read_def t mem_read_def HASH_SIZE_def mult.commute nat_mult_distrib)
qed

text \<open>A payload long enough for the number of hashes that the packet announces.\<close>

lemma carries_hashes_exists:
  assumes "unat (Chunkhash_Num p) = 0 \<or> (\<exists>bs. payload p = Some bs \<and> 20 * unat (Chunkhash_Num p) \<le> length bs)"
  shows "\<exists>hs. carries_hashes p hs"
proof -
  have split: "\<exists>hs t. bs = concat hs @ t \<and> length hs = n \<and> (\<forall>x\<in>set hs. length x = 20)"
    if "20 * n \<le> length bs" for n and bs :: "byte list" using that
  proof (induction n arbitrary: bs)
    case (Suc n)
    have "20 * n \<le> length (drop 20 bs)" using Suc.prems by simp
    from Suc.IH [OF this] obtain hs t where h: "drop 20 bs = concat hs @ t" "length hs = n"
      "\<forall>x\<in>set hs. length x = 20" by blast
    have "bs = take 20 bs @ drop 20 bs" by simp
    then have "bs = concat (take 20 bs # hs) @ t" by (simp only: h(1) concat.simps append_assoc)
    moreover have "length (take 20 bs # hs) = Suc n \<and> (\<forall>x\<in>set (take 20 bs # hs). length x = 20)"
      using h Suc.prems by simp
    ultimately show ?case by blast
  qed simp
  show ?thesis
  proof (cases "unat (Chunkhash_Num p) = 0")
    case True
    then have "carries_hashes p []" by (simp add: carries_hashes_def)
    then show ?thesis by blast
  next
    case False
    with assms obtain bs where "payload p = Some bs" "20 * unat (Chunkhash_Num p) \<le> length bs" by auto
    with split [of "unat (Chunkhash_Num p)" bs] show ?thesis by (auto simp: carries_hashes_def)
  qed
qed

lemma ihav_loop_result:
  fixes l :: 'l and xs :: "'l \<Rightarrow> nat list"
  assumes ok: "lists_ok h heads xs" and c: "carries_hashes p hs" and i: "i + n = length hs"
    and fs: "\<forall>x\<in>set fs. length x = 20" "length fs \<le> 50"
  defines "mine \<equiv> filter (\<lambda>x. x \<in> hash_at h ` set (xs l))"
  shows "ihav_loop n i h p (heads l) (length fs) (hash_array fs) =
    (let fs' = fs @ mine (drop i hs) in
     if length fs' \<le> 50 then Inr (length fs', hash_array fs') else Inl OutOfBounds)"
  using i fs
proof (induction n arbitrary: i fs)
  case 0
  then show ?case by (simp add: mine_def)
next
  case (Suc n)
  then have lt: "i < length hs" by simp
  have rd: "payload_read p (int (i * HASH_SIZE)) (int HASH_SIZE) = Inr (hs ! i)"
    by (rule payload_read_hash [OF c lt])
  have len: "length (hs ! i) = 20" using c lt by (simp add: carries_hashes_def)
  obtain r where r: "find_node h (heads l) (hs ! i) = Inr r" "r \<noteq> None \<longleftrightarrow> hs ! i \<in> hash_at h ` set (xs l)"
    using find_node_hash [OF ok, of l "hs ! i"] len by auto
  have d: "drop i hs = hs ! i # drop (Suc i) hs" by (rule Cons_nth_drop_Suc [OF lt, symmetric])
  show ?case
  proof (cases "r = None")
    case True
    have "ihav_loop (Suc n) i h p (heads l) (length fs) (hash_array fs) =
        ihav_loop n (Suc i) h p (heads l) (length fs) (hash_array fs)"
      using rd r True by simp
    also have "\<dots> = (let fs' = fs @ mine (drop (Suc i) hs) in
        if length fs' \<le> 50 then Inr (length fs', hash_array fs') else Inl OutOfBounds)"
      using Suc.prems by (intro Suc.IH) auto
    finally show ?thesis using r(2) True by (simp add: d mine_def)
  next
    case False
    then have m: "mine (drop i hs) = hs ! i # mine (drop (Suc i) hs)" using r(2) by (simp add: d mine_def)
    show ?thesis
    proof (cases "length fs = 50")
      case full: True
      have "mem_write (hash_array fs) (int (length fs * HASH_SIZE)) (hs ! i) = Inl OutOfBounds"
        by (rule hash_array_full [OF Suc.prems(2) len full])
      with rd r False full show ?thesis by (simp add: m Let_def)
    next
      case room: False
      then have "length fs < 50" using Suc.prems(3) by simp
      from hash_array_write [OF Suc.prems(2) len this]
      have "ihav_loop (Suc n) i h p (heads l) (length fs) (hash_array fs) =
          ihav_loop n (Suc i) h p (heads l) (length (fs @ [hs ! i])) (hash_array (fs @ [hs ! i]))"
        using rd r False by auto
      also have "\<dots> = (let fs' = (fs @ [hs ! i]) @ mine (drop (Suc i) hs) in
          if length fs' \<le> 50 then Inr (length fs', hash_array fs') else Inl OutOfBounds)"
        using Suc.prems len room by (intro Suc.IH) auto
      finally show ?thesis by (simp add: m)
    qed
  qed
qed

lemma form_IHav_result:
  fixes l :: 'l and xs :: "'l \<Rightarrow> nat list"
  assumes ok: "lists_ok h heads xs" and c: "carries_hashes p hs"
  defines "mine \<equiv> filter (\<lambda>x. x \<in> hash_at h ` set (xs l)) hs"
  shows "form_IHav h p (heads l) =
    (if length mine \<le> 50 then Inr (hash_packet 1 (length mine) (concat mine)) else Inl OutOfBounds)"
proof -
  have u: "unat (Chunkhash_Num p) = length hs" using c by (simp add: carries_hashes_def)
  have len: "\<forall>x\<in>set mine. length x = 20" using c by (simp add: carries_hashes_def mine_def)
  show ?thesis
    using ihav_loop_result [OF ok c, of 0 "length hs" "[]" l] hash_array_read [OF len]
    unfolding form_IHav_def hash_array_Nil u by (simp add: mine_def Let_def)
qed

lemma form_GET_result:
  assumes "length (node_hash n) = 20"
  shows "\<exists>p. form_GET n = Inr p \<and> wf_packet p \<and> Packet_Type p = 2 \<and> payload p = Some (node_hash n)"
  using assms
  by (auto simp: form_GET_def mem_read_def HASH_SIZE_def HEADER_LEN_def wf_packet_def overhead_def body_def
      zero_packet_def)

section \<open>Chunk files round trip\<close>

text \<open>One line of a chunk file as \<^verbatim>\<open>make_chunks\<close> prints it: identifier, blank, digest in hexadecimal.\<close>

definition chunk_line :: "nat \<times> byte list \<Rightarrow> byte list" where
  "chunk_line e = show_nat (fst e) @ 32 # hex_of (snd e) @ [10]"

definition wf_chunk :: "nat \<times> byte list \<Rightarrow> bool" where
  "wf_chunk e \<longleftrightarrow> fst e < 2 ^ 31 \<and> length (snd e) = 20"

lemma hex_digit_bytes: "d < 16 \<Longrightarrow> \<not> is_space (hexdigit d) \<and> hexdigit d \<noteq> 0"
proof -
  have "list_all (\<lambda>d. \<not> is_space (hexdigit d) \<and> hexdigit d \<noteq> 0) [0..<16]"
    by (simp add: upt_16 hexdigit_def is_space_def)
  then show "d < 16 \<Longrightarrow> \<not> is_space (hexdigit d) \<and> hexdigit d \<noteq> 0" by (simp add: list_all_iff)
qed

lemma hex_of_bytes: "c \<in> set (hex_of bs) \<Longrightarrow> \<not> is_space c \<and> c \<noteq> 0"
proof -
  assume "c \<in> set (hex_of bs)"
  then have "\<exists>b :: byte. c = hexdigit (unat b div 16) \<or> c = hexdigit (unat b mod 16)"
    unfolding hex_of_def sprintf_02x_def set_concat set_map by simp blast
  then obtain b :: byte where "c = hexdigit (unat b div 16) \<or> c = hexdigit (unat b mod 16)" ..
  moreover have "unat b div 16 < 16" using unat_byte [of b] by simp
  ultimately show ?thesis using hex_digit_bytes [of "unat b div 16"] hex_digit_bytes [of "unat b mod 16"] by auto
qed

lemma scan_chunk_line:
  assumes "wf_chunk e"
  shows "scan_chunk (chunk_line e) v = Inr (2, Some (int (fst e)), hex_of (snd e) @ replicate 10 0)"
proof -
  let ?hex = "hex_of (snd e)"
  have len: "length ?hex = 40" using assms by (simp add: wf_chunk_def)
  obtain c cs where cs: "show_nat (fst e) = c # cs"
    using show_nat_digits [of "fst e"] by (cases "show_nat (fst e)") auto
  have "is_digit c" using show_nat_set [of c "fst e"] cs by simp
  then have sk: "skip_space (chunk_line e) \<noteq> []"
    using digit_bytes by (simp add: chunk_line_def skip_space_def cs)
  have si: "scan_int (chunk_line e) = Some (int (fst e), 32 # ?hex @ [10])"
    unfolding chunk_line_def using assms scan_int_show_nat [of "fst e" "32 # ?hex @ [10]"] not_digit_blank
    by (simp add: wf_chunk_def)
  have sw: "scan_word None (32 # ?hex @ [10]) = Some (?hex, [10])"
  proof -
    have sp: "is_space 32" "is_space 10" by (simp_all add: is_space_def)
    have "?hex \<noteq> []" using len by (metis list.size(3) zero_neq_numeral)
    then have sk: "skip_space (32 # ?hex @ [10]) = ?hex @ [10]"
      using hex_of_bytes [of "hd ?hex" "snd e"] by (cases ?hex) (auto simp: skip_space_def sp)
    have "takeWhile (\<lambda>c. \<not> is_space c) (?hex @ [10]) = ?hex"
      using hex_of_bytes sp by (subst takeWhile_append2) auto
    then show ?thesis by (simp add: scan_word_def Let_def sk)
  qed
  have "mem_write (replicate 50 0) 0 (?hex @ [0]) = Inr (?hex @ replicate 10 0)"
  proof -
    have r: "replicate 50 (0::byte) = replicate 41 0 @ replicate 9 0" by (rule replicate_split) simp
    have t: "replicate 10 (0::byte) = 0 # replicate 9 0" by (simp add: numeral_eq_Suc)
    have "mem_write (replicate 41 0 @ replicate 9 0) 0 (?hex @ [0]) = Inr ((?hex @ [0]) @ replicate 9 0)"
      using assms by (intro mem_write_front) (simp add: wf_chunk_def)
    then show ?thesis unfolding r t by simp
  qed
  with sk si sw show ?thesis by (simp add: scan_chunk_def)
qed

lemma chunk_line_bytes:
  assumes "wf_chunk e"
  shows "cstr (chunk_line e) = chunk_line e" "hd (chunk_line e) \<noteq> 35"
    "fgets BT_FILENAME_LEN (chunk_line e @ r) = Some (chunk_line e, r)"
proof -
  let ?b = "show_nat (fst e) @ 32 # hex_of (snd e)"
  have eq: "chunk_line e = ?b @ [10]" by (simp add: chunk_line_def)
  have nb: "10 \<notin> set ?b" using hex_of_bytes not_space_10 show_nat_set digit_bytes by fastforce
  have nz: "\<forall>c \<in> set (chunk_line e). c \<noteq> 0"
    using hex_of_bytes show_nat_set digit_bytes by (fastforce simp: chunk_line_def)
  then show "cstr (chunk_line e) = chunk_line e" by (simp add: cstr_def takeWhile_eq_all_conv)
  have "length (show_nat (fst e)) \<le> 10"
    using assms length_show_nat [of 10 "fst e"] by (simp add: wf_chunk_def)
  then show "fgets BT_FILENAME_LEN (chunk_line e @ r) = Some (chunk_line e, r)"
    using fgets_line [OF nb, of BT_FILENAME_LEN r] assms
    by (simp add: eq wf_chunk_def BT_FILENAME_LEN_def)
  obtain c cs where cs: "show_nat (fst e) = c # cs"
    using show_nat_digits [of "fst e"] by (cases "show_nat (fst e)") auto
  then show "hd (chunk_line e) \<noteq> 35"
    using show_nat_set [of c "fst e"] digit_bytes by (simp add: chunk_line_def)
qed

lemma decode_chunk_hash:
  assumes "length hash = 20"
  shows "hex2binary (hex_of hash @ replicate 10 0) 40 (replicate 30 0) = Inr (hash @ replicate 10 0)"
  using hex2binary_result [of hash "replicate 30 0" "replicate 10 0"] assms by simp

text \<open>The nodes that stand for the entries of a chunk file, first entry last in the list.\<close>

definition chunk_node :: "bt_config \<Rightarrow> nat \<times> byte list \<Rightarrow> hash_chunk" where
  "chunk_node config e = \<lparr>node_from = own_addr config, node_hash = snd e, chunkid = int (fst e),
     next_node = None, node_time = 0, congWin = None, Recver = None\<rparr>"

lemma hasneed_loop_entries:
  fixes l :: 'l
  assumes "lists_ok h heads xs" and "list_all wf_chunk es"
  shows "\<exists>h' p as. hasneed_loop (own_addr config) (concat (map chunk_line es)) v h (heads l) = Inr (h', p) \<and>
    lists_ok h' (heads(l := p)) (xs(l := as @ xs l)) \<and> length as = length es \<and>
    map (\<lambda>a. the (info h' a)) as = rev (map (chunk_node config) es) \<and>
    (\<forall>a. a \<notin> set as \<longrightarrow> info h' a = info h a)"
  using assms
proof (induction es arbitrary: v h heads xs)
  case Nil
  then show ?case
    by (intro exI [of _ h] exI [of _ "heads l"] exI [of _ "[]"]) (simp add: hasneed_loop.simps fgets_def)
next
  case (Cons e es)
  then have e: "wf_chunk e" and es: "list_all wf_chunk es" by simp_all
  have len: "length (snd e) = 20" using e by (simp add: wf_chunk_def)
  then have "20 \<le> length (snd e @ replicate 10 0)" by simp
  from lists_add_new [OF Cons.prems(1) this] obtain h1 h2 a where c:
    "create_node h (own_addr config) (snd e @ replicate 10 0) (int (fst e)) = Inr (h1, Some a)"
    "append_node h1 (heads l) (Some a) = Inr (h2, Some a)"
    "lists_ok h2 (heads(l := Some a)) (xs(l := a # xs l))"
    "info h2 = (info h)(a \<mapsto> chunk_node config e)" "\<And>m. a \<notin> set (xs m)"
    using len by (fastforce simp: chunk_node_def)
  from Cons.IH [OF c(3) es, of "Some (int (fst e))", unfolded fun_upd_same fun_upd_upd] obtain h' p as where r:
    "hasneed_loop (own_addr config) (concat (map chunk_line es)) (Some (int (fst e))) h2 (Some a) = Inr (h', p)"
    "lists_ok h' (heads(l := p)) (xs(l := as @ a # xs l))" "length as = length es"
    "map (\<lambda>a. the (info h' a)) as = rev (map (chunk_node config) es)"
    "\<And>b. b \<notin> set as \<Longrightarrow> info h' b = info h2 b" by metis
  have step: "hasneed_loop (own_addr config) (concat (map chunk_line (e # es))) v h (heads l) =
      hasneed_loop (own_addr config) (concat (map chunk_line es)) (Some (int (fst e))) h2 (Some a)"
    using c by (subst hasneed_loop.simps)
      (simp add: chunk_line_bytes [OF e] scan_chunk_line [OF e] decode_chunk_hash [OF len])
  have "distinct ((xs(l := as @ a # xs l)) l)" by (rule lists_okD(4) [OF r(2)])
  then have "a \<notin> set as" by simp
  then have "info h' a = Some (chunk_node config e)" using r(5) [of a] c(4) by simp
  moreover have "lists_ok h' (heads(l := p)) (xs(l := (as @ [a]) @ xs l))" using r(2) by simp
  ultimately show ?case
    unfolding step using r(1,3,4,5) c(4)
    by (intro exI [of _ h'] exI [of _ p] exI [of _ "as @ [a]"] conjI) (assumption | force)+
qed

end
