(* ===== verification/PeerState.thy ===== *)
theory PeerState
  imports Catalog InputBuffer
begin

text \<open>
  The state of \<^verbatim>\<open>peer.c\<close>: the globals \<open>config\<close> and \<open>me\<close> together with the heap and the
  world, and the operations on the seven list variables in it.
\<close>

section \<open>The globals\<close>

record peer_me =
  me_id :: int
  me_addr :: sockaddr_in
  haslist :: ptr
  mydownload :: Download_conn
  myupload :: Upload_conn

record peer =
  config :: bt_config
  me :: peer_me
  hp :: heap
  wd :: world

datatype list_var = Has | Need | To_send | Sent | Downloading | Uploading | Uploaded

text \<open>There are seven of them: statements about all lists can be evaluated.\<close>

instantiation list_var :: enum
begin

definition enum_list_var :: "list_var list" where
  "enum_list_var = [Has, Need, To_send, Sent, Downloading, Uploading, Uploaded]"

definition enum_all_list_var :: "(list_var \<Rightarrow> bool) \<Rightarrow> bool" where
  "enum_all_list_var P \<longleftrightarrow> list_all P [Has, Need, To_send, Sent, Downloading, Uploading, Uploaded]"

definition enum_ex_list_var :: "(list_var \<Rightarrow> bool) \<Rightarrow> bool" where
  "enum_ex_list_var P \<longleftrightarrow> list_ex P [Has, Need, To_send, Sent, Downloading, Uploading, Uploaded]"

lemma UNIV_list_var: "UNIV = {Has, Need, To_send, Sent, Downloading, Uploading, Uploaded}"
  by (auto intro: list_var.exhaust)

instance
proof
  fix P :: "list_var \<Rightarrow> bool"
  show "(UNIV :: list_var set) = set enum_class.enum" by (simp add: enum_list_var_def UNIV_list_var)
  show "distinct (enum_class.enum :: list_var list)" by (simp add: enum_list_var_def)
  show "enum_class.enum_all P = Ball UNIV P" by (simp add: enum_all_list_var_def UNIV_list_var)
  show "enum_class.enum_ex P = Bex UNIV P" by (simp add: enum_ex_list_var_def UNIV_list_var)
qed

end

lemma all_lists: "(\<forall>l. P l) \<longleftrightarrow> list_all P (enum_class.enum :: list_var list)"
  by (simp add: list_all_iff UNIV_enum [symmetric])

text \<open>The list variable whose address a call passes, and the assignment through that address.\<close>

fun list_ptr :: "peer_me \<Rightarrow> list_var \<Rightarrow> ptr" where
  "list_ptr m Has = haslist m"
| "list_ptr m Need = needlist (mydownload m)"
| "list_ptr m To_send = get_tosend_quene (mydownload m)"
| "list_ptr m Sent = get_sent_list (mydownload m)"
| "list_ptr m Downloading = downloading_list (mydownload m)"
| "list_ptr m Uploading = uploading_list (myupload m)"
| "list_ptr m Uploaded = uploaded_list (myupload m)"

fun set_list :: "list_var \<Rightarrow> ptr \<Rightarrow> peer_me \<Rightarrow> peer_me" where
  "set_list Has p m = m\<lparr>haslist := p\<rparr>"
| "set_list Need p m = m\<lparr>mydownload := (mydownload m)\<lparr>needlist := p\<rparr>\<rparr>"
| "set_list To_send p m = m\<lparr>mydownload := (mydownload m)\<lparr>get_tosend_quene := p\<rparr>\<rparr>"
| "set_list Sent p m = m\<lparr>mydownload := (mydownload m)\<lparr>get_sent_list := p\<rparr>\<rparr>"
| "set_list Downloading p m = m\<lparr>mydownload := (mydownload m)\<lparr>downloading_list := p\<rparr>\<rparr>"
| "set_list Uploading p m = m\<lparr>myupload := (myupload m)\<lparr>uploading_list := p\<rparr>\<rparr>"
| "set_list Uploaded p m = m\<lparr>myupload := (myupload m)\<lparr>uploaded_list := p\<rparr>\<rparr>"

section \<open>Calls on the list variables\<close>

abbreviation lst :: "peer \<Rightarrow> list_var \<Rightarrow> ptr" where
  "lst s \<equiv> list_ptr (me s)"

definition put_list :: "list_var \<Rightarrow> ptr \<Rightarrow> peer \<Rightarrow> peer" where
  "put_list l p s = s\<lparr>me := set_list l p (me s)\<rparr>"

definition delete_in :: "list_var \<Rightarrow> ptr \<Rightarrow> peer \<Rightarrow> peer res" where
  "delete_in l node s =
     ebind (delete_node (hp s) (lst s l) node) (\<lambda>(h, p). Inr (put_list l p (s\<lparr>hp := h\<rparr>)))"

definition delete_hash_in :: "list_var \<Rightarrow> byte list \<Rightarrow> peer \<Rightarrow> peer res" where
  "delete_hash_in l hash s =
     ebind (delete_node_by_hash (hp s) (lst s l) hash) (\<lambda>(h, p). Inr (put_list l p (s\<lparr>hp := h\<rparr>)))"

definition move_in :: "list_var \<Rightarrow> list_var \<Rightarrow> ptr \<Rightarrow> peer \<Rightarrow> peer res" where
  "move_in dest src node s =
     ebind (move_node (hp s) (lst s dest) (lst s src) node) (\<lambda>(h, p, q).
     Inr (put_list dest p (put_list src q (s\<lparr>hp := h\<rparr>))))"

definition append_in :: "list_var \<Rightarrow> ptr \<Rightarrow> peer \<Rightarrow> peer res" where
  "append_in l node s =
     ebind (append_node (hp s) (lst s l) node) (\<lambda>(h, p). Inr (put_list l p (s\<lparr>hp := h\<rparr>)))"

definition clear_in :: "list_var \<Rightarrow> peer \<Rightarrow> peer res" where
  "clear_in l s =
     ebind (clear_hashchunk_list (hp s) (lst s l)) (\<lambda>(h, p, n). Inr (put_list l p (s\<lparr>hp := h\<rparr>)))"

definition new_node :: "sockaddr_in \<Rightarrow> byte list \<Rightarrow> int \<Rightarrow> peer \<Rightarrow> (ptr \<times> peer) res" where
  "new_node addr hash cid s =
     ebind (create_node (hp s) addr hash cid) (\<lambda>(h, p). Inr (p, s\<lparr>hp := h\<rparr>))"

definition set_node :: "ptr \<Rightarrow> (hash_chunk \<Rightarrow> hash_chunk) \<Rightarrow> peer \<Rightarrow> peer res" where
  "set_node p f s = ebind (store (hp s) p f) (\<lambda>h. Inr (s\<lparr>hp := h\<rparr>))"

text \<open>\<open>time(&node->timestamp)\<close>.\<close>

definition stamp_node :: "ptr \<Rightarrow> peer \<Rightarrow> peer res" where
  "stamp_node p s =
     (case time_now (wd s) of (t, w) \<Rightarrow> set_node p (\<lambda>n. n\<lparr>node_time := t\<rparr>) (s\<lparr>wd := w\<rparr>))"

definition upd_down :: "(Download_conn \<Rightarrow> Download_conn) \<Rightarrow> peer \<Rightarrow> peer" where
  "upd_down f s = s\<lparr>me := (me s)\<lparr>mydownload := f (mydownload (me s))\<rparr>\<rparr>"

definition upd_up :: "(Upload_conn \<Rightarrow> Upload_conn) \<Rightarrow> peer \<Rightarrow> peer" where
  "upd_up f s = s\<lparr>me := (me s)\<lparr>myupload := f (myupload (me s))\<rparr>\<rparr>"

definition add_downloads :: "int \<Rightarrow> peer \<Rightarrow> peer" where
  "add_downloads d = upd_down (\<lambda>c. c\<lparr>concurr_download_num := concurr_download_num c + d\<rparr>)"

definition add_found :: "int \<Rightarrow> peer \<Rightarrow> peer" where
  "add_found d = upd_down (\<lambda>c. c\<lparr>howmany_found := howmany_found c + d\<rparr>)"

definition add_uploads :: "int \<Rightarrow> peer \<Rightarrow> peer" where
  "add_uploads d = upd_up (\<lambda>c. c\<lparr>concurr_upload_num := concurr_upload_num c + d\<rparr>)"

section \<open>What the calls leave alone\<close>

lemma list_ptr_set_list [simp]: "list_ptr (set_list l p m) = (list_ptr m)(l := p)"
  by (rule ext) (case_tac x; cases l; simp)

lemma set_list_simps [simp]:
  "me_id (set_list l p m) = me_id m" "me_addr (set_list l p m) = me_addr m"
  "output_fd (mydownload (set_list l p m)) = output_fd (mydownload m)"
  "concurr_download_num (mydownload (set_list l p m)) = concurr_download_num (mydownload m)"
  "max_download_num (mydownload (set_list l p m)) = max_download_num (mydownload m)"
  "howmany_found (mydownload (set_list l p m)) = howmany_found (mydownload m)"
  "howmany_need (mydownload (set_list l p m)) = howmany_need (mydownload m)"
  "concurr_upload_num (myupload (set_list l p m)) = concurr_upload_num (myupload m)"
  "max_upload_num (myupload (set_list l p m)) = max_upload_num (myupload m)"
  by (cases l; simp)+

text \<open>Everything of the peer but the lists, the heap and the world.\<close>

definition scalars :: "peer \<Rightarrow> bt_config \<times> int \<times> int \<times> int \<times> int \<times> int \<times> int \<times> int \<times> int" where
  "scalars s = (let d = mydownload (me s); u = myupload (me s) in
     (config s, me_id (me s), output_fd d, concurr_download_num d, max_download_num d, howmany_found d,
      howmany_need d, concurr_upload_num u, max_upload_num u))"

lemma scalarsD:
  assumes "scalars s' = scalars s"
  shows "config s' = config s" "me_id (me s') = me_id (me s)"
    "output_fd (mydownload (me s')) = output_fd (mydownload (me s))"
    "concurr_download_num (mydownload (me s')) = concurr_download_num (mydownload (me s))"
    "max_download_num (mydownload (me s')) = max_download_num (mydownload (me s))"
    "howmany_found (mydownload (me s')) = howmany_found (mydownload (me s))"
    "howmany_need (mydownload (me s')) = howmany_need (mydownload (me s))"
    "concurr_upload_num (myupload (me s')) = concurr_upload_num (myupload (me s))"
    "max_upload_num (myupload (me s')) = max_upload_num (myupload (me s))"
  using assms by (simp_all add: scalars_def Let_def)

lemma put_list_simps [simp]:
  "config (put_list l p s) = config s" "hp (put_list l p s) = hp s" "wd (put_list l p s) = wd s"
  "lst (put_list l p s) = (lst s)(l := p)" "scalars (put_list l p s) = scalars s"
  by (simp_all add: put_list_def scalars_def Let_def)

lemma peer_update_simps [simp]:
  "scalars (s\<lparr>hp := h\<rparr>) = scalars s" "scalars (s\<lparr>wd := w\<rparr>) = scalars s"
  by (simp_all add: scalars_def Let_def)

lemma upd_simps [simp]:
  "config (upd_down f s) = config s" "hp (upd_down f s) = hp s" "wd (upd_down f s) = wd s"
  "config (upd_up g s) = config s" "hp (upd_up g s) = hp s" "wd (upd_up g s) = wd s"
  "mydownload (me (upd_down f s)) = f (mydownload (me s))" "myupload (me (upd_down f s)) = myupload (me s)"
  "mydownload (me (upd_up g s)) = mydownload (me s)" "myupload (me (upd_up g s)) = g (myupload (me s))"
  "haslist (me (upd_down f s)) = haslist (me s)" "haslist (me (upd_up g s)) = haslist (me s)"
  "me_id (me (upd_down f s)) = me_id (me s)" "me_id (me (upd_up g s)) = me_id (me s)"
  by (simp_all add: upd_down_def upd_up_def)

lemma counters_lst [simp]:
  "lst (add_downloads d s) = lst s" "lst (add_found d s) = lst s" "lst (add_uploads d s) = lst s"
  unfolding fun_eq_iff by (rule allI, case_tac x, simp_all add: add_downloads_def add_found_def add_uploads_def)+

lemma counters_simps [simp]:
  "config (add_downloads d s) = config s" "hp (add_downloads d s) = hp s" "wd (add_downloads d s) = wd s"
  "config (add_found d s) = config s" "hp (add_found d s) = hp s" "wd (add_found d s) = wd s"
  "config (add_uploads d s) = config s" "hp (add_uploads d s) = hp s" "wd (add_uploads d s) = wd s"
  "concurr_download_num (mydownload (me (add_downloads d s))) = concurr_download_num (mydownload (me s)) + d"
  "max_download_num (mydownload (me (add_downloads d s))) = max_download_num (mydownload (me s))"
  "myupload (me (add_downloads d s)) = myupload (me s)"
  "concurr_download_num (mydownload (me (add_found d s))) = concurr_download_num (mydownload (me s))"
  "max_download_num (mydownload (me (add_found d s))) = max_download_num (mydownload (me s))"
  "myupload (me (add_found d s)) = myupload (me s)"
  "mydownload (me (add_uploads d s)) = mydownload (me s)"
  "concurr_upload_num (myupload (me (add_uploads d s))) = concurr_upload_num (myupload (me s)) + d"
  "max_upload_num (myupload (me (add_uploads d s))) = max_upload_num (myupload (me s))"
  "haslist (me (add_downloads d s)) = haslist (me s)" "haslist (me (add_found d s)) = haslist (me s)"
  "haslist (me (add_uploads d s)) = haslist (me s)"
  by (simp_all add: add_downloads_def add_found_def add_uploads_def)

section \<open>The shape of the lists\<close>

definition shape :: "peer \<Rightarrow> (list_var \<Rightarrow> nat list) \<Rightarrow> bool" where
  "shape s xs \<longleftrightarrow> lists_ok (hp s) (lst s) xs \<and> hashes_ok (hp s)"

lemma shapeD:
  assumes "shape s xs"
  shows "lists_ok (hp s) (lst s) xs" "hashes_ok (hp s)" "l \<noteq> m \<Longrightarrow> set (xs l) \<inter> set (xs m) = {}"
    "distinct (xs l)" "a \<in> set (xs l) \<Longrightarrow> info (hp s) a \<noteq> None"
  using assms lists_okD [of "hp s" "lst s" xs] by (auto simp: shape_def)

lemma shape_cong: "shape s xs \<Longrightarrow> hp s' = hp s \<Longrightarrow> lst s' = lst s \<Longrightarrow> shape s' xs"
  by (simp add: shape_def)

lemma hashes_ok_sub: "hashes_ok h \<Longrightarrow> (\<And>a. info h' a = None \<or> info h' a = info h a) \<Longrightarrow> hashes_ok h'"
  unfolding hashes_ok_def by (metis option.distinct(1))

lemma delete_in_shape:
  assumes s: "shape s xs" and a: "a \<in> set (xs l)"
  shows "\<exists>s'. delete_in l (Some a) s = Inr s' \<and> shape s' (xs(l := remove1 a (xs l))) \<and>
    info (hp s') = (info (hp s))(a := None) \<and> scalars s' = scalars s \<and> wd s' = wd s"
proof -
  from lists_delete [OF shapeD(1) [OF s] a] obtain h p where d:
    "delete_node (hp s) (lst s l) (Some a) = Inr (h, p)"
    "lists_ok h ((lst s)(l := p)) (xs(l := remove1 a (xs l)))" "info h = (info (hp s))(a := None)" by blast
  have "hashes_ok h" using hashes_ok_sub [OF shapeD(2) [OF s], of h] d(3) by simp
  with d show ?thesis by (simp add: delete_in_def shape_def)
qed

lemma move_in_shape:
  assumes s: "shape s xs" and a: "a \<in> set (xs l)" and lm: "l \<noteq> m"
  shows "\<exists>s'. move_in m l (Some a) s = Inr s' \<and> shape s' (xs(l := remove1 a (xs l), m := a # xs m)) \<and>
    info (hp s') = info (hp s) \<and> scalars s' = scalars s \<and> wd s' = wd s"
proof -
  from lists_move [OF shapeD(1) [OF s] a lm] obtain h p where d:
    "move_node (hp s) (lst s m) (lst s l) (Some a) = Inr (h, Some a, p)"
    "lists_ok h ((lst s)(l := p, m := Some a)) (xs(l := remove1 a (xs l), m := a # xs m))" "info h = info (hp s)"
    by blast
  have "hashes_ok h" using hashes_ok_sub [OF shapeD(2) [OF s], of h] d(3) by simp
  with d show ?thesis by (simp add: move_in_def shape_def)
qed

lemma set_node_shape:
  assumes s: "shape s xs" and a: "info (hp s) a = Some n" and f: "\<And>n. next_node (f n) = next_node n"
    and g: "\<And>n. unlinked (f n) = f (unlinked n)" and h: "\<And>n. node_hash (f n) = node_hash n"
  shows "\<exists>s'. set_node (Some a) f s = Inr s' \<and> shape s' xs \<and> info (hp s') = (info (hp s))(a \<mapsto> f n) \<and>
    scalars s' = scalars s \<and> wd s' = wd s \<and> lst s' = lst s"
proof -
  from lists_store [OF shapeD(1) [OF s] a f g] obtain h' where d:
    "store (hp s) (Some a) f = Inr h'" "lists_ok h' (lst s) xs" "info h' = (info (hp s))(a \<mapsto> f n)" by blast
  have "hashes_ok h'" using shapeD(2) [OF s] a h by (auto simp: hashes_ok_def d(3))
  with d show ?thesis by (simp add: set_node_def shape_def)
qed

lemma unlinked_fields [simp]:
  "unlinked (n\<lparr>node_time := t\<rparr>) = (unlinked n)\<lparr>node_time := t\<rparr>"
  "unlinked (n\<lparr>congWin := c\<rparr>) = (unlinked n)\<lparr>congWin := c\<rparr>"
  "unlinked (n\<lparr>Recver := r\<rparr>) = (unlinked n)\<lparr>Recver := r\<rparr>"
  by (simp_all add: unlinked_def)

lemma stamp_node_shape:
  assumes s: "shape s xs" and a: "info (hp s) a = Some n"
  shows "\<exists>s' t. stamp_node (Some a) s = Inr s' \<and> shape s' xs \<and> info (hp s') = (info (hp s))(a \<mapsto> n\<lparr>node_time := t\<rparr>) \<and>
    scalars s' = scalars s \<and> wd s' = (wd s)\<lparr>ticks := Suc (ticks (wd s))\<rparr> \<and> lst s' = lst s \<and> t \<in> range (clock (wd s))"
proof -
  obtain t w where t: "time_now (wd s) = (t, w)" "w = (wd s)\<lparr>ticks := Suc (ticks (wd s))\<rparr>" "t \<in> range (clock (wd s))"
    by (simp add: time_now_def)
  have "shape (s\<lparr>wd := w\<rparr>) xs" using s by (simp add: shape_def)
  from set_node_shape [OF this, of a n "\<lambda>n. n\<lparr>node_time := t\<rparr>"] a t show ?thesis
    by (auto simp: stamp_node_def)
qed

lemma new_node_shape:
  assumes s: "shape s xs" and h: "20 \<le> length hash"
  shows "\<exists>s' a. new_node addr hash k s = Inr (Some a, s') \<and> shape s' xs \<and>
    info (hp s') = (info (hp s))(a \<mapsto> \<lparr>node_from = addr, node_hash = take 20 hash, chunkid = k,
              next_node = None, node_time = 0, congWin = None, Recver = None\<rparr>) \<and>
    info (hp s) a = None \<and> (\<forall>m. a \<notin> set (xs m)) \<and> scalars s' = scalars s \<and> wd s' = wd s \<and> lst s' = lst s"
proof -
  from lists_new [OF shapeD(1) [OF s] h, of addr k] obtain h' a where c:
    "create_node (hp s) addr hash k = Inr (h', Some a)" "lists_ok h' (lst s) xs"
    "info h' = (info (hp s))(a \<mapsto> \<lparr>node_from = addr, node_hash = take 20 hash, chunkid = k,
              next_node = None, node_time = 0, congWin = None, Recver = None\<rparr>)"
    "info (hp s) a = None" "\<forall>m. a \<notin> set (xs m)" by blast
  have "hashes_ok h'" using shapeD(2) [OF s] h by (auto simp: hashes_ok_def c(3))
  with c show ?thesis by (simp add: new_node_def shape_def)
qed

lemma append_in_shape:
  assumes s: "shape s xs" and a: "info (hp s) a \<noteq> None" "\<And>m. a \<notin> set (xs m)"
  shows "\<exists>s'. append_in l (Some a) s = Inr s' \<and> shape s' (xs(l := a # xs l)) \<and> info (hp s') = info (hp s) \<and>
    scalars s' = scalars s \<and> wd s' = wd s"
proof -
  from lists_append [OF shapeD(1) [OF s] a, of l] obtain h' where c:
    "append_node (hp s) (lst s l) (Some a) = Inr (h', Some a)"
    "lists_ok h' ((lst s)(l := Some a)) (xs(l := a # xs l))" "info h' = info (hp s)" by blast
  have "hashes_ok h'" using hashes_ok_sub [OF shapeD(2) [OF s], of h'] c(3) by simp
  with c show ?thesis by (simp add: append_in_def shape_def)
qed

lemma clear_in_shape:
  assumes s: "shape s xs"
  shows "\<exists>s'. clear_in l s = Inr s' \<and> shape s' (xs(l := [])) \<and>
    (\<forall>a. info (hp s') a = (if a \<in> set (xs l) then None else info (hp s) a)) \<and> scalars s' = scalars s \<and> wd s' = wd s \<and>
    lst s' = (lst s)(l := None)"
proof -
  from lists_clear [OF shapeD(1) [OF s], of l] obtain h' where c:
    "clear_hashchunk_list (hp s) (lst s l) = Inr (h', None, int (length (xs l)))"
    "lists_ok h' ((lst s)(l := None)) (xs(l := []))"
    "\<And>a. info h' a = (if a \<in> set (xs l) then None else info (hp s) a)" by blast
  have "hashes_ok h'" using hashes_ok_sub [OF shapeD(2) [OF s], of h'] c(3) by auto
  with c show ?thesis by (simp add: clear_in_def shape_def)
qed

text \<open>Deleting by hash removes the first node of the list that has it, which must exist.\<close>

lemma delete_hash_in_shape:
  assumes s: "shape s xs" and f: "find_node (hp s) (lst s l) hash = Inr (Some a)"
  shows "\<exists>s'. delete_hash_in l hash s = Inr s' \<and> shape s' (xs(l := remove1 a (xs l))) \<and>
    info (hp s') = (info (hp s))(a := None) \<and> scalars s' = scalars s \<and> wd s' = wd s"
proof -
  have a: "a \<in> set (xs l)" using find_node_in(1) [OF shapeD(1) [OF s] f] .
  from lists_delete [OF shapeD(1) [OF s] a] obtain h p where d:
    "delete_node (hp s) (lst s l) (Some a) = Inr (h, p)"
    "lists_ok h ((lst s)(l := p)) (xs(l := remove1 a (xs l)))" "info h = (info (hp s))(a := None)" by blast
  have ne: "lst s l \<noteq> None"
    using a lists_okD(2) [OF shapeD(1) [OF s], of l] by (cases "xs l") (auto simp: is_list_def)
  then obtain h1 where u: "unlink (hp s) (lst s l) (Some a) = Inr (h1, p)" "free_node h1 (Some a) = Inr h"
    using d(1) by (auto simp: delete_node_def ebind_eq_Inr)
  have il: "is_list h p (remove1 a (xs l))" using lists_okD(2) [OF d(2), of l] by simp
  have n: "length_of_list h p = Inr (int (length (remove1 a (xs l))))"
    using length_of_list_list [OF il lists_okD(1) [OF d(2)]] .
  have e: "(if int (length (remove1 a (xs l))) = 0 then None else p) = p"
    using il by (auto simp: is_list_def)
  have "delete_node_by_hash (hp s) (lst s l) hash = Inr (h, p)"
    using e by (auto simp: delete_node_by_hash_def f u n split: if_splits)
  moreover have "hashes_ok h" using hashes_ok_sub [OF shapeD(2) [OF s], of h] d(3) by simp
  ultimately show ?thesis using d by (simp add: delete_hash_in_def shape_def)
qed

lemma length_remove1_member: "a \<in> set xs \<Longrightarrow> length xs = Suc (length (remove1 a xs))"
  by (induction xs) auto

section \<open>The invariant of the peer\<close>

text \<open>
  What a node of each list owns: uploads have a window that satisfies its invariant,
  downloads a receiver for the hash of the node, all others neither. Chunk identifiers are
  small enough for the byte offset to fit an \<open>int\<close>.
\<close>

definition node_ok :: "list_var \<Rightarrow> hash_chunk \<Rightarrow> bool" where
  "node_ok l n \<longleftrightarrow> length (node_hash n) = 20 \<and> 0 \<le> chunkid n \<and> chunkid n < 4096 \<and>
     (if l = Uploading \<or> l = Uploaded then \<exists>W. congWin n = Some W \<and> win_inv W else congWin n = None) \<and>
     (if l = Downloading then \<exists>rs. Recver n = Some rs \<and> recv_inv rs \<and> recv_hash rs = node_hash n
      else Recver n = None)"

type_synonym contents = "nat \<Rightarrow> hash_chunk option"

definition nodes_ok :: "contents \<Rightarrow> (list_var \<Rightarrow> nat list) \<Rightarrow> bool" where
  "nodes_ok I xs \<longleftrightarrow> (\<forall>l. \<forall>a\<in>set (xs l). \<exists>n. I a = Some n \<and> node_ok l n)"

definition hash_of :: "contents \<Rightarrow> nat \<Rightarrow> byte list" where
  "hash_of I a = node_hash (the (I a))"

text \<open>What a request is for: the digest and the number of the chunk.\<close>

definition key_of :: "contents \<Rightarrow> nat \<Rightarrow> byte list \<times> int" where
  "key_of I a = (hash_of I a, chunkid (the (I a)))"

definition port_of :: "contents \<Rightarrow> nat \<Rightarrow> u16" where
  "port_of I a = sin_port (node_from (the (I a)))"

text \<open>The chunks offered, requested and being received; and the requests that are running.\<close>

definition claims :: "(list_var \<Rightarrow> nat list) \<Rightarrow> nat set" where
  "claims xs = set (xs To_send) \<union> set (xs Sent) \<union> set (xs Downloading)"

definition running :: "(list_var \<Rightarrow> nat list) \<Rightarrow> nat set" where
  "running xs = set (xs Sent) \<union> set (xs Downloading)"

text \<open>
  Every chunk is claimed at most once and only when it is needed, under the number it is needed at; every peer serves at most
  one of our requests, and we serve every peer at most once at a time.
\<close>

definition requests_ok :: "contents \<Rightarrow> (list_var \<Rightarrow> nat list) \<Rightarrow> bool" where
  "requests_ok I xs \<longleftrightarrow> inj_on (hash_of I) (claims xs) \<and> key_of I ` claims xs \<subseteq> key_of I ` set (xs Need) \<and>
     inj_on (port_of I) (running xs) \<and> inj_on (port_of I) (set (xs Uploading))"

lemma requests_ok_needed:
  assumes "requests_ok I xs"
  shows "hash_of I ` claims xs \<subseteq> hash_of I ` set (xs Need)"
proof -
  have "fst ` key_of I ` claims xs \<subseteq> fst ` key_of I ` set (xs Need)"
    by (rule image_mono) (use assms in \<open>simp add: requests_ok_def\<close>)
  then show ?thesis by (simp add: image_image key_of_def)
qed

definition counters_ok :: "peer \<Rightarrow> (list_var \<Rightarrow> nat list) \<Rightarrow> bool" where
  "counters_ok s xs \<longleftrightarrow>
     concurr_download_num (mydownload (me s)) = int (length (xs Sent) + length (xs Downloading)) \<and>
     concurr_download_num (mydownload (me s)) \<le> max_download_num (mydownload (me s)) \<and>
     int (length (xs Uploading)) \<le> concurr_upload_num (myupload (me s)) \<and>
     concurr_upload_num (myupload (me s)) \<le> max_upload_num (myupload (me s)) \<and> 0 \<le> max_conn (config s)"

definition peer_inv :: "peer \<Rightarrow> (list_var \<Rightarrow> nat list) \<Rightarrow> bool" where
  "peer_inv s xs \<longleftrightarrow> shape s xs \<and> nodes_ok (info (hp s)) xs \<and> requests_ok (info (hp s)) xs \<and> counters_ok s xs"

definition peer_ok :: "peer \<Rightarrow> bool" where
  "peer_ok s \<longleftrightarrow> (\<exists>xs. peer_inv s xs)"

lemma nodes_okD:
  assumes "nodes_ok I xs" and "a \<in> set (xs l)"
  obtains n where "I a = Some n" and "node_ok l n"
  using assms by (auto simp: nodes_ok_def)

text \<open>Changing nodes, as long as the nodes of every list stay in order.\<close>

lemma nodes_ok_sub:
  assumes "nodes_ok I xs" and "\<And>l. set (xs' l) \<subseteq> set (xs l)" and "\<And>l a. a \<in> set (xs' l) \<Longrightarrow> I' a = I a"
  shows "nodes_ok I' xs'"
  using assms by (fastforce simp: nodes_ok_def)

lemma nodes_ok_put:
  assumes "nodes_ok I xs" and "\<And>l. a \<in> set (xs' l) \<Longrightarrow> node_ok l n" and "\<And>l. set (xs' l) \<subseteq> insert a (set (xs l))"
  shows "nodes_ok (I(a \<mapsto> n)) xs'"
  using assms by (fastforce simp: nodes_ok_def)

lemma requests_ok_sub:
  assumes "requests_ok I xs"
    and "claims xs' \<subseteq> claims xs" "running xs' \<subseteq> running xs" "set (xs' Uploading) \<subseteq> set (xs Uploading)"
    and key: "\<And>a. a \<in> claims xs' \<Longrightarrow> key_of I' a = key_of I a" and "\<And>a. a \<in> running xs' \<Longrightarrow> port_of I' a = port_of I a"
    and "\<And>a. a \<in> set (xs' Uploading) \<Longrightarrow> port_of I' a = port_of I a"
    and "key_of I ` claims xs' \<subseteq> key_of I' ` set (xs' Need)"
  shows "requests_ok I' xs'"
proof -
  have "inj_on (hash_of I) (claims xs')" "inj_on (port_of I) (running xs')" "inj_on (port_of I) (set (xs' Uploading))"
    using assms(1-4) by (auto simp: requests_ok_def intro: inj_on_subset)
  moreover have "hash_of I' a = hash_of I a" if "a \<in> claims xs'" for a using key [OF that] by (simp add: key_of_def)
  ultimately have "inj_on (hash_of I') (claims xs')" "inj_on (port_of I') (running xs')"
    "inj_on (port_of I') (set (xs' Uploading))"
    using assms(5-7) by (simp_all cong: inj_on_cong)
  moreover have "key_of I' ` claims xs' \<subseteq> key_of I' ` set (xs' Need)" using assms(5,8) by simp
  ultimately show ?thesis by (simp add: requests_ok_def)
qed

text \<open>The port decides: \<open>find_node_by_addr\<close> never compares the addresses.\<close>

lemma same_addr_port: "same_addr a b \<longleftrightarrow> sin_port a = sin_port b"
proof -
  have "ntohs x = ntohs y \<longleftrightarrow> x = y" for x y by (metis ntohs_htons)
  then show ?thesis by (simp add: same_addr_def strcmp_inet_ntoa_def Let_def)
qed

lemma find_addr:
  assumes s: "shape s xs"
  obtains r where "find_node_by_addr (hp s) (lst s l) addr = Inr r"
    and "r = None \<longleftrightarrow> sin_port addr \<notin> port_of (info (hp s)) ` set (xs l)"
    and "\<And>a. r = Some a \<Longrightarrow> a \<in> set (xs l) \<and> port_of (info (hp s)) a = sin_port addr"
proof -
  let ?P = "\<lambda>a. same_addr (node_from (the (info (hp s) a))) addr"
  have f: "find_node_by_addr (hp s) (lst s l) addr = Inr (find ?P (xs l))"
    unfolding find_node_by_addr_info by (rule ls.find_law [OF shapeD(1) [OF s]])
  have P: "?P a \<longleftrightarrow> port_of (info (hp s)) a = sin_port addr" for a by (simp add: same_addr_port port_of_def)
  show ?thesis
  proof (rule that [OF f])
    show "find ?P (xs l) = None \<longleftrightarrow> sin_port addr \<notin> port_of (info (hp s)) ` set (xs l)"
      unfolding find_None_iff P by (auto simp: image_iff)
    show "a \<in> set (xs l) \<and> port_of (info (hp s)) a = sin_port addr" if "find ?P (xs l) = Some a" for a
      using that by (auto simp: find_Some_iff P)
  qed
qed

lemma find_hash_of:
  assumes s: "shape s xs" and len: "length hash = 20"
  obtains r where "find_node (hp s) (lst s l) hash = Inr r"
    and "r = None \<longleftrightarrow> hash \<notin> hash_of (info (hp s)) ` set (xs l)"
    and "\<And>a. r = Some a \<Longrightarrow> a \<in> set (xs l) \<and> hash_of (info (hp s)) a = hash"
proof -
  let ?P = "\<lambda>a. node_hash (the (info (hp s) a)) = take 20 hash"
  have f: "find_node (hp s) (lst s l) hash = Inr (find ?P (xs l))"
    unfolding find_node_info by (rule ls.find_law [OF shapeD(1) [OF s]])
  have P: "?P a \<longleftrightarrow> hash_of (info (hp s)) a = hash" for a using len by (simp add: hash_of_def)
  show ?thesis
  proof (rule that [OF f])
    show "find ?P (xs l) = None \<longleftrightarrow> hash \<notin> hash_of (info (hp s)) ` set (xs l)"
      unfolding find_None_iff P by (auto simp: image_iff)
    show "a \<in> set (xs l) \<and> hash_of (info (hp s)) a = hash" if "find ?P (xs l) = Some a" for a
      using that by (auto simp: find_Some_iff P)
  qed
qed

end
