(* ===== verification/PeerPackets.thy ===== *)
theory PeerPackets
  imports PeerState "HOL-Library.Sublist"
begin

text \<open>
  The packet half of \<^verbatim>\<open>peer.c\<close>: what the peer does with every packet that arrives, and the
  loop that takes the packets out of the receive buffer.
\<close>

section \<open>WHOHAS and IHAVE\<close>

definition IHav_sender :: "packet \<Rightarrow> ptr \<Rightarrow> sockaddr_in \<Rightarrow> peer \<Rightarrow> peer res" where
  "IHav_sender WhoHas_pack has toaddr s =
     ebind (form_IHav (hp s) WhoHas_pack has) (\<lambda>ihav_pack.
     if Chunkhash_Num ihav_pack > 0
     then ebind (send_pack (wd s) ihav_pack toaddr) (\<lambda>(_, w). Inr (s\<lparr>wd := w\<rparr>))
     else Inr s)"

fun WhoHas_loop :: "nat \<Rightarrow> ptr \<Rightarrow> bt_peer list \<Rightarrow> peer \<Rightarrow> peer res" where
  "WhoHas_loop fuel None ps s = Inr s"
| "WhoHas_loop 0 (Some a) ps s = Inl Hang"
| "WhoHas_loop (Suc fuel) (Some a) ps s =
     ebind (form_WhoHas (hp s) (mydownload (me s)) (Some a)) (\<lambda>(whohas_pack, curr).
     if Chunkhash_Num whohas_pack = 0 then WhoHas_loop fuel curr ps s
     else ebind (broadcast (wd s) whohas_pack ps (me_id (me s))) (\<lambda>(_, w).
          WhoHas_loop fuel curr ps (s\<lparr>wd := w\<rparr>)))"

definition WhoHas_sender :: "ptr \<Rightarrow> bt_peer list \<Rightarrow> peer \<Rightarrow> peer res" where
  "WhoHas_sender need ps s = WhoHas_loop (Suc (fresh (hp s))) need ps s"

text \<open>A chunk is wanted when it is needed and neither requested nor being received.\<close>

definition wanted :: "byte list \<Rightarrow> ptr \<Rightarrow> peer \<Rightarrow> bool res" where
  "wanted find_hash if_ineed s =
     ebind (find_node (hp s) (lst s Downloading) find_hash) (\<lambda>r1.
     if r1 \<noteq> None then Inr False
     else ebind (find_node (hp s) (lst s Sent) find_hash) (\<lambda>r2. Inr (r2 = None \<and> if_ineed \<noteq> None)))"

definition add_offer :: "sockaddr_in \<Rightarrow> byte list \<Rightarrow> ptr \<Rightarrow> peer \<Rightarrow> peer res" where
  "add_offer from_addr find_hash if_ineed s =
     ebind (load (hp s) if_ineed) (\<lambda>need.
     ebind (new_node from_addr find_hash (chunkid need) s) (\<lambda>(node, s1).
     append_in To_send node s1))"

text \<open>The peer at this address serves one of our requests already.\<close>

definition busy :: "sockaddr_in \<Rightarrow> peer \<Rightarrow> bool res" where
  "busy addr s =
     ebind (find_node_by_addr (hp s) (lst s Downloading) addr) (\<lambda>r1.
     if r1 \<noteq> None then Inr True
     else ebind (find_node_by_addr (hp s) (lst s Sent) addr) (\<lambda>r2. Inr (r2 \<noteq> None)))"

definition fill_one :: "sockaddr_in \<Rightarrow> byte list \<Rightarrow> peer \<Rightarrow> peer res" where
  "fill_one from_addr find_hash s =
     ebind (find_node (hp s) (lst s Need) find_hash) (\<lambda>if_ineed.
     ebind (find_node (hp s) (lst s To_send) find_hash) (\<lambda>if_stored.
     ebind (wanted find_hash if_ineed s) (\<lambda>want.
     if \<not> want then Inr s
     else if if_stored = None
     then ebind (add_offer from_addr find_hash if_ineed s) (\<lambda>s1. Inr (add_found 1 s1))
     else ebind (load (hp s) if_stored) (\<lambda>stored.
          if ntohs (sin_port from_addr) \<noteq> ntohs (sin_port (node_from stored))
          then ebind (busy (node_from stored) s) (\<lambda>b.
               if b then ebind (delete_in To_send if_stored s) (\<lambda>s1. add_offer from_addr find_hash if_ineed s1)
               else Inr s)
          else Inr s))))"

text \<open>The loop over the hashes of an IHAVE packet, by the number of turns left.\<close>

fun fill_loop :: "nat \<Rightarrow> nat \<Rightarrow> packet \<Rightarrow> sockaddr_in \<Rightarrow> peer \<Rightarrow> peer res" where
  "fill_loop 0 count ihav_pack from_addr s = Inr s"
| "fill_loop (Suc n) count ihav_pack from_addr s =
     ebind (payload_read ihav_pack (int (count * HASH_SIZE)) (int HASH_SIZE)) (\<lambda>find_hash.
     ebind (fill_one from_addr find_hash s) (\<lambda>s1.
     fill_loop n (count + 1) ihav_pack from_addr s1))"

definition fill_toget_list :: "packet \<Rightarrow> sockaddr_in \<Rightarrow> peer \<Rightarrow> peer res" where
  "fill_toget_list ihav_pack from_addr s = fill_loop (unat (Chunkhash_Num ihav_pack)) 0 ihav_pack from_addr s"

section \<open>GET, DATA and ACK\<close>

definition init_upload :: "packet \<Rightarrow> sockaddr_in \<Rightarrow> peer \<Rightarrow> (int \<times> peer) res" where
  "init_upload getpack to s =
     ebind (payload_read getpack 0 (int HASH_SIZE)) (\<lambda>hash.
     let s0 = add_uploads 1 s
     in ebind (find_node (hp s0) (lst s0 Has) hash) (\<lambda>uploading_chunk.
        if uploading_chunk = None then Inr (-1, s0)
        else ebind (load (hp s0) uploading_chunk) (\<lambda>chunk.
        ebind (new_node to hash (chunkid chunk) s0) (\<lambda>(new, s1).
        ebind (stamp_node new s1) (\<lambda>s2.
        ebind (append_in Uploading new s2) (\<lambda>s3.
        ebind (create_SW (wd s3) hash to) (\<lambda>(W, w).
        ebind (printWindow (Some W)) (\<lambda>_.
        ebind (send_onechunk (files w) W (chunkid chunk) (chunk_file (config s3))) (\<lambda>(_, W').
        ebind (set_node new (\<lambda>n. n\<lparr>congWin := Some W'\<rparr>) (s3\<lparr>wd := w\<rparr>)) (\<lambda>s4. Inr (1, s4)))))))))))"

definition init_download :: "ptr \<Rightarrow> peer \<Rightarrow> peer res" where
  "init_download down_conn s =
     ebind (move_in Downloading Sent down_conn s) (\<lambda>s1.
     ebind (stamp_node down_conn s1) (\<lambda>s2.
     ebind (load (hp s2) down_conn) (\<lambda>n.
     ebind (create_Recver (node_hash n)) (\<lambda>rs.
     set_node down_conn (\<lambda>n. n\<lparr>Recver := Some rs\<rparr>) s2))))"

text \<open>The calls that pass \<open>conn->Recver\<close> and \<open>conn->congWin\<close>.\<close>

definition receive_data :: "ptr \<Rightarrow> packet \<Rightarrow> sockaddr_in \<Rightarrow> peer \<Rightarrow> peer res" where
  "receive_data conn pack addr s =
     ebind (load (hp s) conn) (\<lambda>n. case Recver n of None \<Rightarrow> Inl NullDeref
     | Some rs \<Rightarrow> ebind (upon_receiving_datapack (wd s) pack rs addr) (\<lambda>(rs', w).
         set_node conn (\<lambda>n. n\<lparr>Recver := Some rs'\<rparr>) (s\<lparr>wd := w\<rparr>)))"

definition receive_ack :: "ptr \<Rightarrow> packet \<Rightarrow> peer \<Rightarrow> peer res" where
  "receive_ack conn pack s =
     ebind (load (hp s) conn) (\<lambda>n. case congWin n of None \<Rightarrow> Inl NullDeref
     | Some W \<Rightarrow> ebind (upon_receive_ACK pack W) (\<lambda>(_, W').
         set_node conn (\<lambda>n. n\<lparr>congWin := Some W'\<rparr>) s))"

definition handle_get :: "packet \<Rightarrow> sockaddr_in \<Rightarrow> peer \<Rightarrow> peer res" where
  "handle_get pack toaddr s =
     (if concurr_upload_num (myupload (me s)) < max_upload_num (myupload (me s))
      then ebind (find_node_by_addr (hp s) (lst s Uploading) toaddr) (\<lambda>running.
           if running \<noteq> None then Inr s
           else ebind (find_node_by_addr (hp s) (lst s Uploaded) toaddr) (\<lambda>if_uploaded.
                if if_uploaded = None then ebind (init_upload pack toaddr s) (\<lambda>(_, s'). Inr s')
                else ebind (load (hp s) if_uploaded) (\<lambda>n.
                     ebind (payload_read pack 0 20) (\<lambda>hash.
                     if node_hash n \<noteq> hash then ebind (init_upload pack toaddr s) (\<lambda>(_, s'). Inr s')
                     else Inr s))))
      else Inr s)"

definition handle_data :: "packet \<Rightarrow> sockaddr_in \<Rightarrow> peer \<Rightarrow> peer res" where
  "handle_data pack toaddr s =
     ebind (find_node_by_addr (hp s) (lst s Downloading) toaddr) (\<lambda>conn.
     if conn \<noteq> None
     then ebind (stamp_node conn s) (\<lambda>s1. receive_data conn pack toaddr s1)
     else ebind (find_node_by_addr (hp s) (lst s Sent) toaddr) (\<lambda>conn.
          if conn \<noteq> None
          then ebind (init_download conn s) (\<lambda>s1.
               ebind (print_hash_chunks (hp s1) conn) (\<lambda>_.
               ebind (print_pack pack) (\<lambda>_.
               receive_data conn pack toaddr s1)))
          else Inr s))"

definition handle_ack :: "packet \<Rightarrow> sockaddr_in \<Rightarrow> peer \<Rightarrow> peer res" where
  "handle_ack pack toaddr s =
     ebind (find_node_by_addr (hp s) (lst s Uploading) toaddr) (\<lambda>conn.
     if conn \<noteq> None
     then ebind (stamp_node conn s) (\<lambda>s1. receive_ack conn pack s1)
     else Inr s)"

definition dealwithincomepack :: "packet \<Rightarrow> sockaddr_in \<Rightarrow> peer \<Rightarrow> peer res" where
  "dealwithincomepack pack toaddr s =
     (if Packet_Type pack = 0 then IHav_sender pack (lst s Has) toaddr s
      else if Packet_Type pack = 1 then fill_toget_list pack toaddr s
      else if Packet_Type pack = 2 then handle_get pack toaddr s
      else if Packet_Type pack = 3 then handle_data pack toaddr s
      else if Packet_Type pack = 4 then handle_ack pack toaddr s
      else Inr s)"

section \<open>The receive buffer\<close>

function inbound_loop :: "buf \<Rightarrow> sockaddr_in \<Rightarrow> peer \<Rightarrow> (buf \<times> peer) res" where
  "inbound_loop b from s =
     (if buf_len b \<ge> int HEADER_LEN
      then ebind (get_firstpack b zero_packet) (\<lambda>(b', newcome_pack).
           ebind (dealwithincomepack newcome_pack from s) (\<lambda>s'. inbound_loop b' from s'))
      else Inr (b, s))"
  by pat_completeness auto
termination
  by (relation "measure (\<lambda>(b, from, s). nat (buf_len b))") (auto dest: get_firstpack_decreases simp: HEADER_LEN_def)

declare inbound_loop.simps [simp del]

text \<open>
  The outcome of \<open>recvfrom\<close> is a parameter. The address that an unsuccessful call leaves
  uninitialised is never used, because no packet is complete then.
\<close>

definition process_inbound_udp ::
  "(nat \<Rightarrow> byte) \<Rightarrow> datagram option \<Rightarrow> buf \<Rightarrow> peer \<Rightarrow> (buf \<times> peer) res" where
  "process_inbound_udp junk dgram b s =
     (case spiffy_recvfrom junk (router (wd s)) dgram (nat (int BUFLEN2 - buf_len b))
             \<lparr>sin_family = 0, sin_port = 0, sin_addr = 0\<rparr> of
        (recv, bytes, from) \<Rightarrow>
          ebind (mem_write (buf_bytes b) (buf_len b) bytes) (\<lambda>bs.
          inbound_loop (b\<lparr>buf_bytes := bs, buf_len := buf_len b + recv\<rparr>) from s))"

section \<open>What a packet leaves alone\<close>

text \<open>Configuration, files and clocks; the world may have sent datagrams and read its clock.\<close>

definition calm :: "world \<Rightarrow> world \<Rightarrow> bool" where
  "calm w w' \<longleftrightarrow> files w' = files w \<and> open_fds w' = open_fds w \<and> router w' = router w \<and> clock w' = clock w \<and>
     write_result w' = write_result w \<and> writes w' = writes w \<and> ticks w \<le> ticks w' \<and> prefix (sent w) (sent w')"

lemma calm_refl [simp]: "calm w w"
  by (simp add: calm_def)

lemma calm_trans: "calm w w1 \<Longrightarrow> calm w1 w2 \<Longrightarrow> calm w w2"
  by (auto simp: calm_def)

lemma calm_record [simp]: "calm w (record_sent w ds)"
  by (simp add: calm_def)

lemma calm_tick [simp]: "calm w (w\<lparr>ticks := Suc (ticks w)\<rparr>)"
  by (simp add: calm_def)

definition peer_frame :: "peer \<Rightarrow> peer \<Rightarrow> bool" where
  "peer_frame s s' \<longleftrightarrow> config s' = config s \<and> calm (wd s) (wd s')"

lemma peer_frame_refl [simp]: "peer_frame s s"
  by (simp add: peer_frame_def)

lemma peer_frame_trans: "peer_frame s s1 \<Longrightarrow> peer_frame s1 s2 \<Longrightarrow> peer_frame s s2"
  by (auto simp: peer_frame_def intro: calm_trans)

text \<open>Sending and reading the clock keep the invariant: it does not speak of the world.\<close>

lemma peer_inv_wd [simp]: "peer_inv (s\<lparr>wd := w\<rparr>) xs = peer_inv s xs"
  by (simp add: peer_inv_def shape_def counters_ok_def)

section \<open>Answering WHOHAS\<close>

definition having :: "peer \<Rightarrow> (list_var \<Rightarrow> nat list) \<Rightarrow> byte list list \<Rightarrow> byte list list" where
  "having s xs hs = filter (\<lambda>x. x \<in> hash_of (info (hp s)) ` set (xs Has)) hs"

lemma hash_of_hash_at: "hash_of (info h) = hash_at h"
  by (simp add: fun_eq_iff hash_of_def hash_at_def)

lemma IHav_sender_result:
  assumes s: "shape s xs" and c: "carries_hashes p hs"
  defines "mine \<equiv> having s xs hs"
  shows "IHav_sender p (lst s Has) to s =
    (if 50 < length mine then Inl OutOfBounds
     else Inr (if mine = [] then s
               else s\<lparr>wd := record_sent (wd s) (emitted (router (wd s)) to
                              (wire_bytes (hash_packet 1 (length mine) (concat mine))))\<rparr>))"
proof -
  have f: "form_IHav (hp s) p (lst s Has) =
      (if length mine \<le> 50 then Inr (hash_packet 1 (length mine) (concat mine)) else Inl OutOfBounds)"
    using form_IHav_result [OF shapeD(1) [OF s] c, of Has] by (simp add: mine_def having_def hash_of_hash_at)
  show ?thesis
  proof (cases "length mine \<le> 50")
    case False
    with f show ?thesis by (simp add: IHav_sender_def)
  next
    case True
    have n: "Chunkhash_Num (hash_packet 1 (length mine) (concat mine)) > 0 \<longleftrightarrow> mine \<noteq> []"
      using True by (cases mine) (auto simp: hash_packet_def zero_packet_def word_less_nat_alt unat_of_nat
          simp del: of_nat_Suc)
    have len: "\<forall>x\<in>set mine. length x = 20" using c by (auto simp: mine_def having_def carries_hashes_def)
    show ?thesis
    proof (cases "mine = []")
      case e: True
      with f n show ?thesis by (simp add: IHav_sender_def)
    next
      case ne: False
      have "wf_packet (hash_packet 1 (length mine) (concat mine))"
        using ne True length_concat_hashes [OF len] by (intro hash_packet_wf) (auto simp: HASH_SIZE_def)
      from send_pack_wf [OF this, of "wd s" to] f n True ne show ?thesis
        by (auto simp: IHav_sender_def)
    qed
  qed
qed

section \<open>Offers\<close>

lemma claims_member: "b \<in> claims xs \<Longrightarrow> \<exists>l. b \<in> set (xs l)"
  by (auto simp: claims_def)

text \<open>Nodes that agree in hash, number and sender are as good as each other.\<close>

lemma requests_ok_cong:
  assumes "\<And>a l. a \<in> set (xs l) \<Longrightarrow> key_of I' a = key_of I a \<and> port_of I' a = port_of I a"
  shows "requests_ok I' xs = requests_ok I xs"
proof -
  have h: "hash_of I' a = hash_of I a" if "a \<in> set (xs l)" for a l using assms [OF that] by (simp add: key_of_def)
  have "inj_on (hash_of I') (claims xs) = inj_on (hash_of I) (claims xs)"
    "inj_on (port_of I') (running xs) = inj_on (port_of I) (running xs)"
    "inj_on (port_of I') (set (xs Uploading)) = inj_on (port_of I) (set (xs Uploading))"
    using assms h by (intro inj_on_cong; auto simp: claims_def running_def)+
  moreover have "key_of I' ` claims xs = key_of I ` claims xs" "key_of I' ` set (xs Need) = key_of I ` set (xs Need)"
    using assms by (intro image_cong refl; auto simp: claims_def)+
  ultimately show ?thesis by (simp add: requests_ok_def)
qed

lemma node_ok_cong:
  "node_hash n' = node_hash n \<Longrightarrow> chunkid n' = chunkid n \<Longrightarrow> congWin n' = congWin n \<Longrightarrow> Recver n' = Recver n \<Longrightarrow>
   node_ok l n' = node_ok l n"
  by (simp add: node_ok_def)

lemma add_offer_inv:
  assumes i: "peer_inv s xs" and hash: "length hash = 20"
    and need: "n \<in> set (xs Need)" "hash_of (info (hp s)) n = hash"
    and new: "hash \<notin> hash_of (info (hp s)) ` claims xs"
  shows "\<exists>s' a. add_offer from hash (Some n) s = Inr s' \<and> peer_inv s' (xs(To_send := a # xs To_send)) \<and>
    hash_of (info (hp s')) a = hash \<and> port_of (info (hp s')) a = sin_port from \<and>
    (\<forall>l. \<forall>b\<in>set (xs l). info (hp s') b = info (hp s) b) \<and> peer_frame s s' \<and> scalars s' = scalars s \<and>
    (\<exists>c m. info (hp s) n = Some c \<and> info (hp s') a = Some m \<and> node_from m = from \<and> node_hash m = hash \<and> chunkid m = chunkid c)"
proof -
  let ?I = "info (hp s)"
  have s: "shape s xs" and nk: "nodes_ok ?I xs" and rq: "requests_ok ?I xs" and ck: "counters_ok s xs"
    using i by (auto simp: peer_inv_def)
  obtain c where c: "?I n = Some c" "node_ok Need c" using nk need(1) by (rule nodes_okD)
  from load_info [OF c(1)] obtain m where m: "load (hp s) (Some n) = Inr m" "chunkid m = chunkid c"
    by (metis unlinked_simps(3))
  have "20 \<le> length hash" using hash by simp
  from new_node_shape [OF s this, of "from" "chunkid c"] obtain s1 a where a:
    "new_node from hash (chunkid c) s = Inr (Some a, s1)" "shape s1 xs" "?I a = None" "\<And>m. a \<notin> set (xs m)"
    "info (hp s1) = ?I(a \<mapsto> \<lparr>node_from = from, node_hash = take 20 hash, chunkid = chunkid c,
              next_node = None, node_time = 0, congWin = None, Recver = None\<rparr>)"
    "scalars s1 = scalars s" "wd s1 = wd s" by blast
  let ?n = "\<lparr>node_from = from, node_hash = hash, chunkid = chunkid c,
              next_node = None, node_time = 0, congWin = None, Recver = None\<rparr>"
  have I1: "info (hp s1) = ?I(a \<mapsto> ?n)" using a(5) hash by simp
  have "info (hp s1) a \<noteq> None" by (simp add: I1)
  from append_in_shape [OF a(2) this a(4), of To_send] obtain s2 where s2:
    "append_in To_send (Some a) s1 = Inr s2" "shape s2 (xs(To_send := a # xs To_send))"
    "info (hp s2) = info (hp s1)" "scalars s2 = scalars s1" "wd s2 = wd s1" by blast
  let ?xs = "xs(To_send := a # xs To_send)"
  have I2: "info (hp s2) = ?I(a \<mapsto> ?n)" using s2(3) I1 by simp
  have h: "hash_of (info (hp s2)) b = (if b = a then hash else hash_of ?I b)"
    and p: "b \<noteq> a \<Longrightarrow> port_of (info (hp s2)) b = port_of ?I b" "b \<noteq> a \<Longrightarrow> key_of (info (hp s2)) b = key_of ?I b" for b
    by (simp_all add: I2 hash_of_def port_of_def key_of_def)
  have nk': "nodes_ok (info (hp s2)) ?xs"
    unfolding I2
  proof (rule nodes_ok_put [OF nk])
    show "node_ok l ?n" if "a \<in> set (?xs l)" for l
    proof -
      have "l = To_send" using that a(4) by (auto split: if_splits)
      then show ?thesis using c(2) hash by (simp add: node_ok_def)
    qed
  qed auto
  have cl: "claims ?xs = insert a (claims xs)" "running ?xs = running xs" "a \<notin> claims xs" "a \<notin> running xs"
    using a(4) by (auto simp: claims_def running_def)
  have "requests_ok (info (hp s2)) xs"
    using rq requests_ok_cong [of xs "info (hp s2)" ?I] a(4) p by metis
  moreover have "hash \<notin> hash_of (info (hp s2)) ` claims xs" "hash_of (info (hp s2)) n = hash"
    using new cl(3) need a(4) h by (auto simp: image_iff)
  moreover have "key_of (info (hp s2)) a = key_of (info (hp s2)) n"
    using need a(4) c(1) by (auto simp: key_of_def I2 hash_of_def)
  moreover have "hash_of (info (hp s2)) a = hash" by (simp add: h)
  ultimately have "requests_ok (info (hp s2)) ?xs"
    using need(1) cl by (auto simp: requests_ok_def inj_on_insert)
  moreover have "counters_ok s2 ?xs"
    using ck scalarsD [of s2 s] s2(4) a(6) by (simp add: counters_ok_def)
  ultimately have "peer_inv s2 ?xs" using s2(2) nk' by (simp add: peer_inv_def)
  moreover have "add_offer from hash (Some n) s = Inr s2"
    using m a(1) s2(1) by (simp add: add_offer_def)
  moreover have "peer_frame s s2" using s2 a(6,7) scalarsD(1) [of s2 s] by (simp add: peer_frame_def)
  moreover have "info (hp s2) b = ?I b" if "b \<in> set (xs l)" for l b
    using that a(4) by (auto simp: I2)
  moreover have "port_of (info (hp s2)) a = sin_port from" by (simp add: I2 port_of_def)
  moreover have "info (hp s2) a = Some ?n" "node_from ?n = from" "node_hash ?n = hash" "chunkid ?n = chunkid c" by (simp_all add: I2)
  ultimately show ?thesis
    using s2(4) a(6) h [of a] c(1) by (intro exI [of _ s2] exI [of _ a]) simp
qed

text \<open>Dropping a node that is not a needed chunk; the counters are the caller's business.\<close>

lemma delete_in_inv:
  assumes i: "peer_inv s xs" and a: "a \<in> set (xs l)" and l: "l \<noteq> Need"
  defines "xs' \<equiv> xs(l := remove1 a (xs l))"
  shows "\<exists>s'. delete_in l (Some a) s = Inr s' \<and> shape s' xs' \<and> nodes_ok (info (hp s')) xs' \<and>
    requests_ok (info (hp s')) xs' \<and> info (hp s') = (info (hp s))(a := None) \<and> scalars s' = scalars s \<and> wd s' = wd s"
proof -
  let ?I = "info (hp s)"
  have s: "shape s xs" and nk: "nodes_ok ?I xs" and rq: "requests_ok ?I xs"
    using i by (auto simp: peer_inv_def)
  from delete_in_shape [OF s a] obtain s' where d: "delete_in l (Some a) s = Inr s'" "shape s' xs'"
    "info (hp s') = ?I(a := None)" "scalars s' = scalars s" "wd s' = wd s" by (auto simp: xs'_def)
  have sub: "set (xs' m) \<subseteq> set (xs m) - {a}" for m
    using shapeD(3) [OF s, of l m] shapeD(4) [OF s, of l] a by (auto simp: xs'_def)
  have same: "info (hp s') b = ?I b" if "b \<in> set (xs' m)" for b m
    using that sub [of m] by (auto simp: d(3))
  have "nodes_ok (info (hp s')) xs'"
    by (rule nodes_ok_sub [OF nk]) (use sub same in blast)+
  moreover have "requests_ok (info (hp s')) xs'"
  proof (rule requests_ok_sub [OF rq])
    show "claims xs' \<subseteq> claims xs" "running xs' \<subseteq> running xs" "set (xs' Uploading) \<subseteq> set (xs Uploading)"
      using sub by (auto simp: claims_def running_def)
    show "key_of (info (hp s')) b = key_of ?I b" if "b \<in> claims xs'" for b
      using that same by (auto simp: claims_def key_of_def hash_of_def)
    show "port_of (info (hp s')) b = port_of ?I b" if "b \<in> running xs'" for b
      using that same by (auto simp: running_def port_of_def)
    show "port_of (info (hp s')) b = port_of ?I b" if "b \<in> set (xs' Uploading)" for b
      using that same by (auto simp: port_of_def)
    have "xs' Need = xs Need" using l by (simp add: xs'_def)
    then have "key_of (info (hp s')) ` set (xs' Need) = key_of ?I ` set (xs Need)"
      using same [of _ Need] by (intro image_cong) (auto simp: key_of_def hash_of_def)
    moreover have "key_of ?I ` claims xs' \<subseteq> key_of ?I ` claims xs" using sub by (auto simp: claims_def)
    ultimately show "key_of ?I ` claims xs' \<subseteq> key_of (info (hp s')) ` set (xs' Need)"
      using rq subset_trans [of "key_of ?I ` claims xs'" "key_of ?I ` claims xs" "key_of ?I ` set (xs Need)"]
      by (simp add: requests_ok_def)
  qed
  ultimately show ?thesis using d by blast
qed

lemma wanted_result:
  assumes s: "shape s xs" and hash: "length hash = 20"
  shows "wanted hash p s = Inr (p \<noteq> None \<and> hash \<notin> hash_of (info (hp s)) ` running xs)"
proof -
  obtain r1 where r1: "find_node (hp s) (lst s Downloading) hash = Inr r1"
    "r1 = None \<longleftrightarrow> hash \<notin> hash_of (info (hp s)) ` set (xs Downloading)"
    using find_hash_of [OF assms] by metis
  obtain r2 where r2: "find_node (hp s) (lst s Sent) hash = Inr r2"
    "r2 = None \<longleftrightarrow> hash \<notin> hash_of (info (hp s)) ` set (xs Sent)"
    using find_hash_of [OF assms] by metis
  show ?thesis using r1 r2 by (auto simp: wanted_def running_def)
qed

lemma busy_result:
  assumes s: "shape s xs"
  shows "busy addr s = Inr (sin_port addr \<in> port_of (info (hp s)) ` running xs)"
proof -
  obtain r1 where r1: "find_node_by_addr (hp s) (lst s Downloading) addr = Inr r1"
    "r1 = None \<longleftrightarrow> sin_port addr \<notin> port_of (info (hp s)) ` set (xs Downloading)"
    using find_addr [OF assms] by metis
  obtain r2 where r2: "find_node_by_addr (hp s) (lst s Sent) addr = Inr r2"
    "r2 = None \<longleftrightarrow> sin_port addr \<notin> port_of (info (hp s)) ` set (xs Sent)"
    using find_addr [OF assms] by metis
  show ?thesis using r1 r2 by (auto simp: busy_def running_def)
qed

text \<open>
  What one hash of an IHAVE packet does. A chunk that is needed is claimed afterwards, nothing
  that was claimed is lost, and only the list of offers changes.
\<close>

lemma fill_one_inv:
  assumes i: "peer_inv s xs" and hash: "length hash = 20"
  shows "\<exists>s' xs'. fill_one from hash s = Inr s' \<and> peer_inv s' xs' \<and> peer_frame s s' \<and>
    (\<forall>l. l \<noteq> To_send \<longrightarrow> xs' l = xs l \<and> (\<forall>b\<in>set (xs l). info (hp s') b = info (hp s) b)) \<and>
    hash_of (info (hp s')) ` claims xs' =
      hash_of (info (hp s)) ` claims xs \<union> ({hash} \<inter> hash_of (info (hp s)) ` set (xs Need))"
proof -
  let ?I = "info (hp s)"
  have s: "shape s xs" and rq: "requests_ok ?I xs" and ck: "counters_ok s xs" using i by (auto simp: peer_inv_def)
  obtain rn where rn: "find_node (hp s) (lst s Need) hash = Inr rn"
    "rn = None \<longleftrightarrow> hash \<notin> hash_of ?I ` set (xs Need)"
    "\<And>a. rn = Some a \<Longrightarrow> a \<in> set (xs Need) \<and> hash_of ?I a = hash" using find_hash_of [OF s hash] by metis
  obtain rt where rt: "find_node (hp s) (lst s To_send) hash = Inr rt"
    "rt = None \<longleftrightarrow> hash \<notin> hash_of ?I ` set (xs To_send)"
    "\<And>a. rt = Some a \<Longrightarrow> a \<in> set (xs To_send) \<and> hash_of ?I a = hash" using find_hash_of [OF s hash] by metis
  have w: "wanted hash rn s = Inr (rn \<noteq> None \<and> hash \<notin> hash_of ?I ` running xs)"
    by (rule wanted_result [OF s hash])
  have cl: "claims xs = set (xs To_send) \<union> running xs" by (auto simp: claims_def running_def)
  show ?thesis
  proof (cases "rn \<noteq> None \<and> hash \<notin> hash_of ?I ` running xs")
    case False
    then have "fill_one from hash s = Inr s" using rn(1) rt(1) w by (simp add: fill_one_def)
    moreover have "{hash} \<inter> hash_of ?I ` set (xs Need) \<subseteq> hash_of ?I ` claims xs"
      using False rn(2) cl by auto
    ultimately show ?thesis using i by (intro exI [of _ s] exI [of _ xs]) auto
  next
    case want: True
    then obtain n where n: "rn = Some n" "n \<in> set (xs Need)" "hash_of ?I n = hash" using rn(3) by auto
    show ?thesis
    proof (cases "rt = None")
      case True
      then have "hash \<notin> hash_of ?I ` claims xs" using want rt(2) cl by auto
      from add_offer_inv [OF i hash n(2,3) this, of "from"] obtain s1 a where o:
        "add_offer from hash (Some n) s = Inr s1" "peer_inv s1 (xs(To_send := a # xs To_send))"
        "hash_of (info (hp s1)) a = hash" "\<And>l b. b \<in> set (xs l) \<Longrightarrow> info (hp s1) b = ?I b" "peer_frame s s1"
        by blast
      have "fill_one from hash s = Inr (add_found 1 s1)"
        using rn(1) rt(1) w want n(1) o(1) True by (simp add: fill_one_def)
      moreover have "peer_inv (add_found 1 s1) (xs(To_send := a # xs To_send))"
        using o(2) by (simp add: peer_inv_def shape_def counters_ok_def)
      moreover have "hash_of (info (hp s1)) ` claims (xs(To_send := a # xs To_send)) = insert hash (hash_of ?I ` claims xs)"
        using o(3,4) by (force simp: claims_def hash_of_def)
      ultimately show ?thesis
        using o(4,5) n by (intro exI [of _ "add_found 1 s1"] exI [of _ "xs(To_send := a # xs To_send)"])
          (auto simp: peer_frame_def)
    next
      case False
      then obtain t where t: "rt = Some t" "t \<in> set (xs To_send)" "hash_of ?I t = hash" using rt(3) by auto
      obtain c where c: "?I t = Some c" using shapeD(5) [OF s t(2)] by auto
      from load_info [OF c] obtain m where m: "load (hp s) (Some t) = Inr m" "unlinked m = c" by blast
      have claimed: "hash \<in> hash_of ?I ` claims xs" using t(2,3) cl by auto
      show ?thesis
      proof (cases "ntohs (sin_port from) \<noteq> ntohs (sin_port (node_from m)) \<and> sin_port (node_from m) \<in> port_of ?I ` running xs")
        case False
        then have "fill_one from hash s = Inr s"
          using rn(1) rt(1) w want t(1) m(1) busy_result [OF s, of "node_from m"] by (auto simp: fill_one_def)
        with i claimed show ?thesis by (intro exI [of _ s] exI [of _ xs]) auto
      next
        case True
        from delete_in_inv [OF i t(2)] obtain s1 where d: "delete_in To_send (Some t) s = Inr s1"
          "shape s1 (xs(To_send := remove1 t (xs To_send)))"
          "nodes_ok (info (hp s1)) (xs(To_send := remove1 t (xs To_send)))"
          "requests_ok (info (hp s1)) (xs(To_send := remove1 t (xs To_send)))"
          "info (hp s1) = ?I(t := None)" "scalars s1 = scalars s" "wd s1 = wd s" by auto
        let ?ys = "xs(To_send := remove1 t (xs To_send))"
        have apart: "t \<notin> set (?ys l)" for l using t(2) shapeD(3) [OF s, of To_send l] shapeD(4) [OF s, of To_send] by auto
        have i1: "peer_inv s1 ?ys"
          using d ck scalarsD [OF d(6)] by (simp add: peer_inv_def counters_ok_def)
        have same: "hash_of (info (hp s1)) b = hash_of ?I b" if "b \<noteq> t" for b
          using that by (simp add: d(5) hash_of_def)
        have cl1: "claims ?ys = claims xs - {t}"
          using apart [of Sent] apart [of Downloading] t(2) shapeD(4) [OF s, of To_send] by (auto simp: claims_def)
        have "inj_on (hash_of ?I) (claims xs)" "t \<in> claims xs" using rq t(2) cl by (auto simp: requests_ok_def)
        then have "hash \<notin> hash_of ?I ` (claims xs - {t})" using t(3) by (auto simp: inj_on_def)
        then have new: "hash \<notin> hash_of (info (hp s1)) ` claims ?ys" using same by (auto simp: cl1 image_iff)
        have n1: "n \<in> set (?ys Need)" "hash_of (info (hp s1)) n = hash"
          using n same [of n] apart [of Need] by auto
        from add_offer_inv [OF i1 hash n1 new, of "from"] obtain s2 a where o:
          "add_offer from hash (Some n) s1 = Inr s2" "peer_inv s2 (?ys(To_send := a # ?ys To_send))"
          "hash_of (info (hp s2)) a = hash" "\<And>l b. b \<in> set (?ys l) \<Longrightarrow> info (hp s2) b = info (hp s1) b"
          "peer_frame s1 s2" by blast
        have "fill_one from hash s = Inr s2"
          using rn(1) rt(1) w want n(1) t(1) m(1) busy_result [OF s, of "node_from m"] True d(1) o(1)
          by (simp add: fill_one_def)
        moreover have "peer_frame s s2"
          using o(5) d(6,7) scalarsD(1) [OF d(6)] by (simp add: peer_frame_def)
        moreover have "info (hp s2) b = ?I b" if "b \<in> set (xs l)" "l \<noteq> To_send" for l b
          using o(4) [of b l] that apart [of l] by (auto simp: d(5))
        moreover have "hash_of (info (hp s2)) ` claims (?ys(To_send := a # ?ys To_send)) = hash_of ?I ` claims xs"
        proof -
          have "claims (?ys(To_send := a # ?ys To_send)) = insert a (claims ?ys)" by (auto simp: claims_def)
          moreover have "hash_of (info (hp s2)) b = hash_of ?I b" if b: "b \<in> claims ?ys" for b
          proof -
            obtain l where "b \<in> set (?ys l)" using claims_member [OF b] by blast
            then have "hash_of (info (hp s2)) b = hash_of (info (hp s1)) b" using o(4) by (simp only: hash_of_def)
            moreover have "b \<noteq> t" using b cl1 by auto
            ultimately show ?thesis using same by simp
          qed
          ultimately have "hash_of (info (hp s2)) ` claims (?ys(To_send := a # ?ys To_send)) =
              insert hash (hash_of ?I ` (claims xs - {t}))" using o(3) cl1 by (auto simp: image_iff)
          also have "\<dots> = hash_of ?I ` claims xs" using \<open>t \<in> claims xs\<close> t(3) by auto
          finally show ?thesis .
        qed
        ultimately show ?thesis
          using o(2) claimed by (intro exI [of _ s2] exI [of _ "?ys(To_send := a # ?ys To_send)"]) auto
      qed
    qed
  qed
qed

text \<open>The loop over all hashes of the packet.\<close>

lemma fill_loop_inv:
  assumes "peer_inv s xs" and c: "carries_hashes p hs" and "i + n = length hs"
  shows "\<exists>s' xs'. fill_loop n i p from s = Inr s' \<and> peer_inv s' xs' \<and> peer_frame s s' \<and>
    (\<forall>l. l \<noteq> To_send \<longrightarrow> xs' l = xs l \<and> (\<forall>b\<in>set (xs l). info (hp s') b = info (hp s) b)) \<and>
    hash_of (info (hp s')) ` claims xs' =
      hash_of (info (hp s)) ` claims xs \<union> (set (drop i hs) \<inter> hash_of (info (hp s)) ` set (xs Need))"
  using assms(1,3)
proof (induction n arbitrary: i s xs)
  case 0
  then show ?case by (intro exI [of _ s] exI [of _ xs]) simp
next
  case (Suc n)
  then have lt: "i < length hs" by simp
  have rd: "payload_read p (int (i * HASH_SIZE)) (int HASH_SIZE) = Inr (hs ! i)"
    by (rule payload_read_hash [OF c lt])
  have "length (hs ! i) = 20" using c lt by (simp add: carries_hashes_def)
  from fill_one_inv [OF Suc.prems(1) this, of "from"] obtain s1 xs1 where f: "fill_one from (hs ! i) s = Inr s1"
    "peer_inv s1 xs1" "peer_frame s s1"
    "\<And>l. l \<noteq> To_send \<Longrightarrow> xs1 l = xs l \<and> (\<forall>b\<in>set (xs l). info (hp s1) b = info (hp s) b)"
    "hash_of (info (hp s1)) ` claims xs1 =
      hash_of (info (hp s)) ` claims xs \<union> ({hs ! i} \<inter> hash_of (info (hp s)) ` set (xs Need))" by metis
  have "Suc i + n = length hs" using Suc.prems(2) by simp
  from Suc.IH [OF f(2) this] obtain s2 xs2 where g: "fill_loop n (Suc i) p from s1 = Inr s2"
    "peer_inv s2 xs2" "peer_frame s1 s2"
    "\<And>l. l \<noteq> To_send \<Longrightarrow> xs2 l = xs1 l \<and> (\<forall>b\<in>set (xs1 l). info (hp s2) b = info (hp s1) b)"
    "hash_of (info (hp s2)) ` claims xs2 =
      hash_of (info (hp s1)) ` claims xs1 \<union> (set (drop (Suc i) hs) \<inter> hash_of (info (hp s1)) ` set (xs1 Need))"
    by metis
  have "hash_of (info (hp s1)) ` set (xs1 Need) = hash_of (info (hp s)) ` set (xs Need)"
    using f(4) [of Need] by (auto simp: hash_of_def image_iff)
  moreover have "set (drop i hs) = insert (hs ! i) (set (drop (Suc i) hs))"
    unfolding Cons_nth_drop_Suc [OF lt, symmetric] by simp
  ultimately have "hash_of (info (hp s2)) ` claims xs2 =
      hash_of (info (hp s)) ` claims xs \<union> (set (drop i hs) \<inter> hash_of (info (hp s)) ` set (xs Need))"
    using f(5) g(5) by auto
  moreover have "fill_loop (Suc n) i p from s = Inr s2" using rd f(1) g(1) by simp
  ultimately show ?case
    using g(2) f(4) g(4) peer_frame_trans [OF f(3) g(3)] by (intro exI [of _ s2] exI [of _ xs2]) auto
qed

section \<open>Writing to nodes\<close>

lemma set_node_inv:
  assumes i: "peer_inv s xs" and a: "a \<in> set (xs l)" "info (hp s) a = Some n"
    and f: "\<And>n. next_node (f n) = next_node n" "\<And>n. unlinked (f n) = f (unlinked n)"
      "\<And>n. node_hash (f n) = node_hash n" "\<And>n. node_from (f n) = node_from n"
      "\<And>n. chunkid (f n) = chunkid n"
    and ok: "node_ok l (f n)"
  shows "\<exists>s'. set_node (Some a) f s = Inr s' \<and> peer_inv s' xs \<and> info (hp s') = (info (hp s))(a \<mapsto> f n) \<and>
    scalars s' = scalars s \<and> wd s' = wd s \<and> lst s' = lst s"
proof -
  have s: "shape s xs" and nk: "nodes_ok (info (hp s)) xs" and rq: "requests_ok (info (hp s)) xs"
    and ck: "counters_ok s xs" using i by (auto simp: peer_inv_def)
  from set_node_shape [OF s a(2) f(1-3)] obtain s' where d: "set_node (Some a) f s = Inr s'" "shape s' xs"
    "info (hp s') = (info (hp s))(a \<mapsto> f n)" "scalars s' = scalars s" "wd s' = wd s" "lst s' = lst s" by blast
  have "nodes_ok (info (hp s')) xs"
    unfolding d(3)
  proof (rule nodes_ok_put [OF nk])
    show "node_ok m (f n)" if "a \<in> set (xs m)" for m
      using that a(1) shapeD(3) [OF s, of l m] ok by (cases "m = l") auto
  qed auto
  moreover have "requests_ok (info (hp s')) xs"
    using rq requests_ok_cong [of xs "info (hp s')" "info (hp s)"] f(3-5) a(2)
    by (simp add: d(3) key_of_def hash_of_def port_of_def)
  moreover have "counters_ok s' xs" using ck scalarsD [OF d(4)] by (simp add: counters_ok_def)
  ultimately show ?thesis using d by (auto simp: peer_inv_def)
qed

lemma stamp_node_inv:
  assumes i: "peer_inv s xs" and a: "a \<in> set (xs l)"
  shows "\<exists>s' t n. stamp_node (Some a) s = Inr s' \<and> peer_inv s' xs \<and> info (hp s) a = Some n \<and> node_ok l n \<and>
    info (hp s') = (info (hp s))(a \<mapsto> n\<lparr>node_time := t\<rparr>) \<and> peer_frame s s' \<and> lst s' = lst s \<and> scalars s' = scalars s \<and>
    wd s' = (wd s)\<lparr>ticks := Suc (ticks (wd s))\<rparr> \<and> t \<in> range (clock (wd s))"
proof -
  have "nodes_ok (info (hp s)) xs" using i by (simp add: peer_inv_def)
  then obtain n where n: "info (hp s) a = Some n" "node_ok l n" using a by (rule nodes_okD)
  obtain t w where t: "time_now (wd s) = (t, w)" "w = (wd s)\<lparr>ticks := Suc (ticks (wd s))\<rparr>" "t \<in> range (clock (wd s))"
    by (simp add: time_now_def)
  have i1: "peer_inv (s\<lparr>wd := w\<rparr>) xs" using i by simp
  have "node_ok l (n\<lparr>node_time := t\<rparr>)" using n(2) by (simp add: node_ok_def)
  from set_node_inv [OF i1 a, of n "\<lambda>n. n\<lparr>node_time := t\<rparr>"] this n obtain s' where
    "set_node (Some a) (\<lambda>n. n\<lparr>node_time := t\<rparr>) (s\<lparr>wd := w\<rparr>) = Inr s'" "peer_inv s' xs"
    "info (hp s') = (info (hp s))(a \<mapsto> n\<lparr>node_time := t\<rparr>)" "scalars s' = scalars s" "wd s' = w" "lst s' = lst s"
    by auto
  moreover from this have "peer_frame s s'" using scalarsD(1) [of s' s] t(2) by (simp add: peer_frame_def)
  ultimately show ?thesis using t n by (auto simp: stamp_node_def)
qed

section \<open>GET\<close>

text \<open>The first line of the master chunk file names the data file to read from.\<close>

definition upload_source :: "peer \<Rightarrow> bool" where
  "upload_source s \<longleftrightarrow> (case files (wd s) (chunk_file (config s)) of None \<Rightarrow> False
     | Some master \<Rightarrow> ok (read_master_line master))"

lemma upload_source_frame: "peer_frame s s' \<Longrightarrow> upload_source s' = upload_source s"
  by (simp add: upload_source_def peer_frame_def calm_def)

lemma start_window:
  assumes "20 \<le> length hash" and "upload_source s" and "files w = files (wd s)" and "0 \<le> k" "k < 4096"
  shows "\<exists>W0 r W. create_SW w hash to = Inr (W0, w\<lparr>ticks := Suc (ticks w)\<rparr>) \<and> win_hash W0 = take 20 hash \<and>
    send_onechunk (files w) W0 k (chunk_file (config s)) = Inr (r, W) \<and> win_inv W \<and> dst W = to \<and>
    (\<forall>master name datafile. files w (chunk_file (config s)) = Some master \<longrightarrow> read_master_line master = Inr name \<longrightarrow>
       files w name = Some datafile \<longrightarrow> r = 1 \<and> filled (chunk_image datafile k) W0 512 W \<and> LPA W = 0 \<and> LPS W = 0)"
proof -
  from create_SW_result [OF assms(1), of w to] obtain W0 where c:
    "create_SW w hash to = Inr (W0, w\<lparr>ticks := Suc (ticks w)\<rparr>)" "win_hash W0 = take 20 hash" "LPA W0 = 0" "LPS W0 = 0"
    "LPR W0 = 1" "sendable W0 = 1" "congwin_size W0 = 1" "ssthresh W0 = 64" "dst W0 = to" by auto
  have i0: "win_inv W0" using c is_f32_1 by (auto simp: win_inv_def win_base_def)
  obtain master name where m: "files w (chunk_file (config s)) = Some master" "read_master_line master = Inr name"
    using assms(2,3) by (auto simp: upload_source_def ok_iff split: option.splits)
  show ?thesis
  proof (cases "files w name")
    case None
    then have "send_onechunk (files w) W0 k (chunk_file (config s)) = Inr (-1, W0)"
      using m by (simp add: send_onechunk_def)
    with c i0 m None show ?thesis by auto
  next
    case (Some datafile)
    from send_onechunk_fills [OF m Some assms(4,5) c(5)] obtain W where W:
      "send_onechunk (files w) W0 k (chunk_file (config s)) = Inr (1, W)" "filled (chunk_image datafile k) W0 512 W" by blast
    have "win_inv W" using filled_inv [OF W(2)] c by simp
    moreover have "dst W = to" "LPA W = 0" "LPS W = 0" using W(2) c by (auto simp: filled_def)
    ultimately show ?thesis using c W m Some by auto
  qed
qed

text \<open>
  What a GET that is accepted does: a new upload at the head of the list, with a window for
  the chunk. One for a chunk the peer does not have only raises the count of uploads.
\<close>

definition loaded :: "peer \<Rightarrow> int \<Rightarrow> Window \<Rightarrow> bool" where
  "loaded s k W \<longleftrightarrow> (\<forall>master name datafile. files (wd s) (chunk_file (config s)) = Some master \<longrightarrow>
     read_master_line master = Inr name \<longrightarrow> files (wd s) name = Some datafile \<longrightarrow>
     (\<exists>W0. filled (chunk_image datafile k) W0 512 W) \<and> LPA W = 0 \<and> LPS W = 0)"

lemma init_upload_inv:
  assumes i: "peer_inv s xs" and src: "upload_source s"
    and room: "concurr_upload_num (myupload (me s)) < max_upload_num (myupload (me s))"
    and port: "sin_port to \<notin> port_of (info (hp s)) ` set (xs Uploading)"
    and pl: "payload_read p 0 (int HASH_SIZE) = Inr hash" and len: "length hash = 20"
  shows "\<exists>r s' xs'. init_upload p to s = Inr (r, s') \<and> peer_inv s' xs' \<and> peer_frame s s' \<and>
    concurr_upload_num (myupload (me s')) = concurr_upload_num (myupload (me s)) + 1 \<and>
    (if hash \<in> hash_of (info (hp s)) ` set (xs Has)
     then r = 1 \<and> (\<exists>a n W. xs' = xs(Uploading := a # xs Uploading) \<and> info (hp s') a = Some n \<and>
            node_from n = to \<and> node_hash n = hash \<and> congWin n = Some W \<and> win_inv W \<and> dst W = to \<and>
            node_time n \<in> range (clock (wd s)) \<and> sent (wd s') = sent (wd s) \<and>
            (\<exists>h\<in>set (xs Has). \<exists>c. info (hp s) h = Some c \<and> node_hash c = hash \<and> loaded s (chunkid c) W))
     else r = -1 \<and> xs' = xs)"
proof -
  let ?I = "info (hp s)" and ?s0 = "add_uploads 1 s"
  have s: "shape s xs" and nk: "nodes_ok ?I xs" and rq: "requests_ok ?I xs" and ck: "counters_ok s xs"
    using i by (auto simp: peer_inv_def)
  have s0: "shape ?s0 xs" using s by (simp add: shape_def)
  have i0: "peer_inv ?s0 xs" using i ck room by (auto simp: peer_inv_def shape_def counters_ok_def)
  obtain rh where rh: "find_node (hp ?s0) (lst ?s0 Has) hash = Inr rh"
    "rh = None \<longleftrightarrow> hash \<notin> hash_of ?I ` set (xs Has)"
    "\<And>a. rh = Some a \<Longrightarrow> a \<in> set (xs Has) \<and> hash_of ?I a = hash" using find_hash_of [OF s0 len] by (metis counters_simps(8))
  show ?thesis
  proof (cases rh)
    case None
    then show ?thesis
      using rh i0 pl by (intro exI [of _ "-1"] exI [of _ ?s0] exI [of _ xs]) (simp add: init_upload_def Let_def peer_frame_def)
  next
    case (Some h)
    then obtain c where c: "?I h = Some c" "node_ok Has c" using rh(3) nodes_okD [OF nk] by metis
    have cid: "0 \<le> chunkid c" "chunkid c < 4096" using c(2) by (auto simp: node_ok_def)
    from load_info [OF c(1)] obtain m where m: "load (hp s) (Some h) = Inr m" "chunkid m = chunkid c"
      by (metis unlinked_simps(3))
    have "20 \<le> length hash" using len by simp
    from new_node_shape [OF s0 this, of to "chunkid c"] obtain s1 a where a:
      "new_node to hash (chunkid c) ?s0 = Inr (Some a, s1)" "shape s1 xs" "?I a = None" "\<And>m. a \<notin> set (xs m)"
      "info (hp s1) = ?I(a \<mapsto> \<lparr>node_from = to, node_hash = take 20 hash, chunkid = chunkid c,
              next_node = None, node_time = 0, congWin = None, Recver = None\<rparr>)"
      "scalars s1 = scalars ?s0" "wd s1 = wd s" "lst s1 = lst s" by auto
    let ?n = "\<lparr>node_from = to, node_hash = hash, chunkid = chunkid c,
              next_node = None, node_time = 0, congWin = None, Recver = None\<rparr>"
    have I1: "info (hp s1) = ?I(a \<mapsto> ?n)" using a(5) len by simp
    then have "info (hp s1) a = Some ?n" by simp
    from stamp_node_shape [OF a(2) this] obtain s2 t where s2: "stamp_node (Some a) s1 = Inr s2" "shape s2 xs"
      "info (hp s2) = ?I(a \<mapsto> ?n\<lparr>node_time := t\<rparr>)" "scalars s2 = scalars s1"
      "wd s2 = (wd s)\<lparr>ticks := Suc (ticks (wd s))\<rparr>" "t \<in> range (clock (wd s))" using I1 a(7) by auto
    have "info (hp s2) a \<noteq> None" by (simp add: s2(3))
    from append_in_shape [OF s2(2) this a(4), of Uploading] obtain s3 where s3:
      "append_in Uploading (Some a) s2 = Inr s3" "shape s3 (xs(Uploading := a # xs Uploading))"
      "info (hp s3) = ?I(a \<mapsto> ?n\<lparr>node_time := t\<rparr>)" "scalars s3 = scalars s2" "wd s3 = wd s2" using s2(3) by auto
    have sc: "scalars s3 = scalars ?s0" using s3(4) s2(4) a(6) by simp
    have cfg: "config s3 = config s" using scalarsD(1) [OF sc] by simp
    have "files (wd s3) = files (wd s)" by (simp add: s3(5) s2(5))
    from start_window [OF \<open>20 \<le> length hash\<close> src this cid, of to] obtain W0 r W where W:
      "create_SW (wd s3) hash to = Inr (W0, (wd s3)\<lparr>ticks := Suc (ticks (wd s3))\<rparr>)" "win_hash W0 = take 20 hash"
      "send_onechunk (files (wd s3)) W0 (chunkid c) (chunk_file (config s)) = Inr (r, W)" "win_inv W" "dst W = to"
      "loaded s (chunkid c) W" using \<open>files (wd s3) = files (wd s)\<close> unfolding loaded_def by metis
    let ?w = "(wd s3)\<lparr>ticks := Suc (ticks (wd s3))\<rparr>" and ?xs = "xs(Uploading := a # xs Uploading)"
    let ?n3 = "?n\<lparr>node_time := t, congWin := Some W\<rparr>"
    have pw: "printWindow (Some W0) = Inr ()"
      using binary2hex_result [of "win_hash W0" "replicate 41 0" "[]"] W(2) len by (simp add: printWindow_def)
    have "shape (s3\<lparr>wd := ?w\<rparr>) ?xs" using s3(2) by (simp add: shape_def)
    from set_node_shape [OF this, of a "?n\<lparr>node_time := t\<rparr>" "\<lambda>n. n\<lparr>congWin := Some W\<rparr>"] obtain s4 where s4:
      "set_node (Some a) (\<lambda>n. n\<lparr>congWin := Some W\<rparr>) (s3\<lparr>wd := ?w\<rparr>) = Inr s4" "shape s4 ?xs"
      "info (hp s4) = ?I(a \<mapsto> ?n3)" "scalars s4 = scalars s3" "wd s4 = ?w" using s3(3) by auto
    have nk4: "nodes_ok (info (hp s4)) ?xs"
      unfolding s4(3)
    proof (rule nodes_ok_put [OF nk])
      show "node_ok l ?n3" if "a \<in> set (?xs l)" for l
      proof -
        have "l = Uploading" using that a(4) by (auto split: if_splits)
        then show ?thesis using cid len W(4) by (simp add: node_ok_def)
      qed
    qed auto
    have same: "key_of (info (hp s4)) b = key_of ?I b \<and> port_of (info (hp s4)) b = port_of ?I b" if "b \<noteq> a" for b
      using that by (simp add: s4(3) key_of_def hash_of_def port_of_def)
    have "requests_ok (info (hp s4)) xs"
      using rq requests_ok_cong [of xs "info (hp s4)" ?I] a(4) same by metis
    moreover have "port_of (info (hp s4)) a = sin_port to" by (simp add: s4(3) port_of_def)
    moreover have "port_of (info (hp s4)) ` set (xs Uploading) = port_of ?I ` set (xs Uploading)"
      using a(4) same by (intro image_cong refl) metis
    ultimately have "requests_ok (info (hp s4)) ?xs"
      using port a(4) by (simp add: requests_ok_def claims_def running_def inj_on_insert)
    moreover have "counters_ok s4 ?xs"
      using ck room scalarsD [of s4 ?s0] s4(4) sc by (auto simp: counters_ok_def)
    ultimately have "peer_inv s4 ?xs" using s4(2) nk4 by (simp add: peer_inv_def)
    moreover have "init_upload p to s = Inr (1, s4)"
      using pl rh(1) Some m a(1) s2(1) s3(1) W pw s4(1) cfg by (simp add: init_upload_def)
    moreover have "peer_frame s s4" using scalarsD(1) [of s4 ?s0] s4(4) sc s4(5) s3(5) s2(5) by (simp add: peer_frame_def calm_def)
    moreover have "concurr_upload_num (myupload (me s4)) = concurr_upload_num (myupload (me s)) + 1"
      using scalarsD(8) [of s4 ?s0] s4(4) sc by simp
    moreover have "hash \<in> hash_of ?I ` set (xs Has)" using rh(2) Some by simp
    moreover have "\<exists>h\<in>set (xs Has). \<exists>c. ?I h = Some c \<and> node_hash c = hash \<and> loaded s (chunkid c) W"
      using rh(3) [OF Some] c(1) W(6) by (auto simp: hash_of_def)
    then have "\<exists>a n W. ?xs = xs(Uploading := a # xs Uploading) \<and> info (hp s4) a = Some n \<and>
            node_from n = to \<and> node_hash n = hash \<and> congWin n = Some W \<and> win_inv W \<and> dst W = to \<and>
            node_time n \<in> range (clock (wd s)) \<and> sent (wd s4) = sent (wd s) \<and>
            (\<exists>h\<in>set (xs Has). \<exists>c. ?I h = Some c \<and> node_hash c = hash \<and> loaded s (chunkid c) W)"
      using W(4,5) s2(6) by (intro exI [of _ a] exI [of _ ?n3] exI [of _ W] conjI) (simp_all add: s4(3,5) s3(5) s2(5))
    ultimately show ?thesis by (intro exI [of _ 1] exI [of _ s4] exI [of _ ?xs]) simp
  qed
qed

text \<open>A GET may be turned down: too many uploads, one running, or the same chunk just served.\<close>

lemma handle_get_inv:
  assumes i: "peer_inv s xs" and src: "upload_source s" and pl: "payload p = Some bs" "20 \<le> length bs"
  shows "\<exists>s' xs'. handle_get p to s = Inr s' \<and> peer_inv s' xs' \<and> peer_frame s s'"
proof -
  have s: "shape s xs" using i by (simp add: peer_inv_def)
  obtain r1 where r1: "find_node_by_addr (hp s) (lst s Uploading) to = Inr r1"
    "r1 = None \<longleftrightarrow> sin_port to \<notin> port_of (info (hp s)) ` set (xs Uploading)" using find_addr [OF s] by metis
  obtain r2 where r2: "find_node_by_addr (hp s) (lst s Uploaded) to = Inr r2"
    "\<And>a. r2 = Some a \<Longrightarrow> a \<in> set (xs Uploaded)" using find_addr [OF s] by metis
  have rd: "payload_read p 0 (int HASH_SIZE) = Inr (take 20 bs)" "payload_read p 0 20 = Inr (take 20 bs)"
    using pl by (simp_all add: payload_read_def mem_read_def HASH_SIZE_def)
  show ?thesis
  proof (cases "concurr_upload_num (myupload (me s)) < max_upload_num (myupload (me s)) \<and> r1 = None")
    case False
    with i r1 show ?thesis by (intro exI [of _ s] exI [of _ xs]) (auto simp: handle_get_def)
  next
    case True
    then have "sin_port to \<notin> port_of (info (hp s)) ` set (xs Uploading)" using r1(2) by simp
    from init_upload_inv [OF i src _ this rd(1)] True pl(2) obtain r s' xs' where u:
      "init_upload p to s = Inr (r, s')" "peer_inv s' xs'" "peer_frame s s'" by auto
    show ?thesis
    proof (cases r2)
      case None
      with True r1(1) r2(1) u show ?thesis by (auto simp: handle_get_def)
    next
      case (Some a)
      then obtain c where "info (hp s) a = Some c" using shapeD(5) [OF s r2(2)] by auto
      from load_info [OF this] obtain m where "load (hp s) (Some a) = Inr m" by blast
      with True Some r1(1) r2(1) u rd(2) i show ?thesis
        by (cases "node_hash m = take 20 bs") (auto simp: handle_get_def intro: exI [of _ s])
    qed
  qed
qed

section \<open>DATA\<close>

lemma receive_calm:
  assumes "recv_inv rs" and "upon_receiving_datapack w p rs addr = Inr (rs', w')"
  shows "calm w w'"
proof -
  let ?seq = "sint (Seq_Num p)"
  consider "\<not> recv_window rs ?seq" | "recv_window rs ?seq" "?seq \<noteq> NPE rs" | "recv_window rs ?seq" "?seq = NPE rs"
    by blast
  then show ?thesis
  proof cases
    case 1
    with receive_ignored [OF 1 assms(1)] assms(2) show ?thesis by simp
  next
    case 2
    with receive_out_of_order [OF assms(1) 2(1) refl 2(2)] assms(2) show ?thesis by auto
  next
    case 3
    then have "NPE rs \<le> 512" by (simp add: recv_window_def)
    from receive_in_order [OF assms(1) this 3(2), of w addr] assms(2) show ?thesis by auto
  qed
qed

lemma receive_data_inv:
  assumes i: "peer_inv s xs" and a: "a \<in> set (xs Downloading)"
  shows "\<exists>s' rs rs' w n. receive_data (Some a) p addr s = Inr s' \<and> peer_inv s' xs \<and> peer_frame s s' \<and>
    info (hp s) a = Some n \<and> Recver n = Some rs \<and> upon_receiving_datapack (wd s) p rs addr = Inr (rs', w) \<and>
    wd s' = w \<and> info (hp s') = (info (hp s))(a \<mapsto> n\<lparr>Recver := Some rs'\<rparr>) \<and> scalars s' = scalars s"
proof -
  have "nodes_ok (info (hp s)) xs" using i by (simp add: peer_inv_def)
  then obtain n where n: "info (hp s) a = Some n" "node_ok Downloading n" using a by (rule nodes_okD)
  obtain rs where rs: "Recver n = Some rs" "recv_inv rs" "recv_hash rs = node_hash n" using n(2) by (auto simp: node_ok_def)
  from load_info [OF n(1)] obtain m where m: "load (hp s) (Some a) = Inr m" "Recver m = Some rs"
    using rs(1) by (metis unlinked_simps(6))
  from receive_inv [OF rs(2), of "wd s" p addr] obtain rs' w where r:
    "upon_receiving_datapack (wd s) p rs addr = Inr (rs', w)" "recv_inv rs'" "recv_hash rs' = recv_hash rs" by blast
  have "node_ok Downloading (n\<lparr>Recver := Some rs'\<rparr>)" using n(2) rs r by (simp add: node_ok_def)
  moreover have "peer_inv (s\<lparr>wd := w\<rparr>) xs" using i by simp
  ultimately obtain s' where "set_node (Some a) (\<lambda>n. n\<lparr>Recver := Some rs'\<rparr>) (s\<lparr>wd := w\<rparr>) = Inr s'"
    "peer_inv s' xs" "info (hp s') = (info (hp s))(a \<mapsto> n\<lparr>Recver := Some rs'\<rparr>)" "scalars s' = scalars s" "wd s' = w"
    using set_node_inv [of "s\<lparr>wd := w\<rparr>" xs a Downloading n "\<lambda>n. n\<lparr>Recver := Some rs'\<rparr>"] a n(1) by auto
  moreover from this have "peer_frame s s'"
    using receive_calm [OF rs(2) r(1)] scalarsD(1) [of s' s] by (simp add: peer_frame_def)
  ultimately show ?thesis using m r(1) n(1) rs(1) by (auto simp: receive_data_def)
qed

text \<open>The first DATA packet of a request turns it into a download with a new receiver.\<close>

lemma init_download_inv:
  assumes i: "peer_inv s xs" and a: "a \<in> set (xs Sent)"
  shows "\<exists>s' n t rs. init_download (Some a) s = Inr s' \<and>
    peer_inv s' (xs(Sent := remove1 a (xs Sent), Downloading := a # xs Downloading)) \<and> peer_frame s s' \<and>
    info (hp s) a = Some n \<and> create_Recver (node_hash n) = Inr rs \<and>
    info (hp s') = (info (hp s))(a \<mapsto> n\<lparr>node_time := t, Recver := Some rs\<rparr>) \<and> scalars s' = scalars s \<and>
    wd s' = (wd s)\<lparr>ticks := Suc (ticks (wd s))\<rparr> \<and> t \<in> range (clock (wd s))"
proof -
  let ?I = "info (hp s)" and ?xs = "xs(Sent := remove1 a (xs Sent), Downloading := a # xs Downloading)"
  have s: "shape s xs" and nk: "nodes_ok ?I xs" and rq: "requests_ok ?I xs" and ck: "counters_ok s xs"
    using i by (auto simp: peer_inv_def)
  obtain n where n: "?I a = Some n" "node_ok Sent n" using nk a by (rule nodes_okD)
  from move_in_shape [OF s a, of Downloading] obtain s1 where s1: "move_in Downloading Sent (Some a) s = Inr s1"
    "shape s1 ?xs" "info (hp s1) = ?I" "scalars s1 = scalars s" "wd s1 = wd s" by auto
  have "info (hp s1) a = Some n" using n(1) s1(3) by simp
  from stamp_node_shape [OF s1(2) this] obtain s2 t where s2: "stamp_node (Some a) s1 = Inr s2" "shape s2 ?xs"
    "info (hp s2) = ?I(a \<mapsto> n\<lparr>node_time := t\<rparr>)" "scalars s2 = scalars s1"
    "wd s2 = (wd s)\<lparr>ticks := Suc (ticks (wd s))\<rparr>" "t \<in> range (clock (wd s))" using s1(3,5) by auto
  have I2: "info (hp s2) a = Some (n\<lparr>node_time := t\<rparr>)" by (simp add: s2(3))
  from load_info [OF I2] obtain m where m: "load (hp s2) (Some a) = Inr m" "node_hash m = node_hash n"
    using unlinked_simps(2) by (metis hash_chunk.ext_inject hash_chunk.surjective hash_chunk.update_convs(5))
  have len: "length (node_hash n) = 20" using n(2) by (simp add: node_ok_def)
  then have "20 \<le> length (node_hash n)" by simp
  from create_Recver_inv [OF this] obtain rs where rs: "create_Recver (node_hash n) = Inr rs" "recv_inv rs"
    "recv_hash rs = node_hash n" using len by auto
  from set_node_shape [OF s2(2) I2, of "\<lambda>n. n\<lparr>Recver := Some rs\<rparr>"] obtain s3 where s3:
    "set_node (Some a) (\<lambda>n. n\<lparr>Recver := Some rs\<rparr>) s2 = Inr s3" "shape s3 ?xs"
    "info (hp s3) = ?I(a \<mapsto> n\<lparr>node_time := t, Recver := Some rs\<rparr>)" "scalars s3 = scalars s2" "wd s3 = wd s2"
    using s2(3) by auto
  have apart: "a \<notin> set (?xs l)" if "l \<noteq> Downloading" for l
    using that a shapeD(3) [OF s, of Sent l] shapeD(4) [OF s, of Sent] by auto
  have "nodes_ok (info (hp s3)) ?xs"
    unfolding s3(3)
  proof (rule nodes_ok_put [OF nk])
    show "node_ok l (n\<lparr>node_time := t, Recver := Some rs\<rparr>)" if "a \<in> set (?xs l)" for l
      using apart [of l] that n(2) rs by (cases "l = Downloading") (auto simp: node_ok_def)
  qed (use set_remove1_subset [of a "xs Sent"] in auto)
  moreover have "requests_ok (info (hp s3)) ?xs"
  proof -
    have "claims ?xs = claims xs" "running ?xs = running xs"
      using a shapeD(4) [OF s, of Sent] by (auto simp: claims_def running_def)
    then have "requests_ok ?I ?xs" using rq by (simp add: requests_ok_def)
    then show ?thesis
      using requests_ok_cong [of ?xs "info (hp s3)" ?I] n(1) by (simp add: s3(3) key_of_def hash_of_def port_of_def)
  qed
  moreover have "counters_ok s3 ?xs"
  proof -
    have "length (xs Sent) = Suc (length (remove1 a (xs Sent)))" by (rule length_remove1_member [OF a])
    then show ?thesis using ck scalarsD [of s3 s] s3(4) s2(4) s1(4) by (simp add: counters_ok_def)
  qed
  moreover have "init_download (Some a) s = Inr s3"
    using s1(1) s2(1) m rs(1) s3(1) by (simp add: init_download_def)
  moreover have "peer_frame s s3" using scalarsD(1) [of s3 s] s3(4,5) s2(4,5) s1(4) by (simp add: peer_frame_def)
  moreover have "scalars s3 = scalars s" "wd s3 = (wd s)\<lparr>ticks := Suc (ticks (wd s))\<rparr>" using s3(4,5) s2(4,5) s1(4) by simp_all
  ultimately show ?thesis using s3(2,3) s2(6) n(1) rs(1) by (auto simp: peer_inv_def)
qed

text \<open>The debugging output of \<open>dealwithincomepack\<close> touches nothing it should not.\<close>

lemma print_loop_ok:
  assumes "lseg h p ys None" and "length ys \<le> fuel"
    and "\<And>a. a \<in> set ys \<Longrightarrow> \<exists>n. info h a = Some n \<and> node_ok Downloading n"
  shows "print_loop fuel h p = Inr ()"
  using assms
proof (induction ys arbitrary: p fuel)
  case Nil
  then show ?case by simp
next
  case (Cons y ys)
  then obtain k m where k: "fuel = Suc k" "p = Some y" "nodes h y = Some m" "lseg h (next_node m) ys None"
    by (cases fuel) auto
  obtain n where n: "info h y = Some n" "node_ok Downloading n" using Cons.prems(3) [of y] by auto
  have m: "unlinked m = n" using n(1) k(3) by (simp add: info_def)
  have len: "length (node_hash m) = 20" and w: "congWin m = None"
    using n(2) m by (auto simp: node_ok_def)
  obtain rs where rs: "Recver m = Some rs" "recv_hash rs = node_hash m" using n(2) m by (auto simp: node_ok_def)
  have hex: "\<exists>r. binary2hex (node_hash m) 20 (replicate 41 0) = Inr r"
    using binary2hex_result [of "node_hash m" "replicate 41 0" "[]"] len by simp
  have "print_loop k h (next_node m) = Inr ()" using Cons k by auto
  with k hex w rs show ?case by (auto simp: load_def printWindow_def printRecvState_def)
qed

lemma print_downloads:
  assumes i: "peer_inv s xs"
  shows "print_hash_chunks (hp s) (lst s Downloading) = Inr ()"
proof -
  have ok: "lists_ok (hp s) (lst s) xs" and nk: "nodes_ok (info (hp s)) xs"
    using i by (auto simp: peer_inv_def shape_def)
  have l: "is_list (hp s) (lst s Downloading) (xs Downloading)" using lists_okD(2) [OF ok] .
  have "length (xs Downloading) \<le> Suc (fresh (hp s))" using is_list_length [OF l lists_okD(1) [OF ok]] by simp
  with l nk show ?thesis
    unfolding print_hash_chunks_def is_list_def by (intro print_loop_ok) (auto simp: nodes_ok_def)
qed

lemma handle_data_running:
  assumes i: "peer_inv s xs" and f: "find_node_by_addr (hp s) (lst s Downloading) to = Inr (Some a)" "a \<in> set (xs Downloading)"
  shows "\<exists>s' n rs rs' w w' t. handle_data p to s = Inr s' \<and> peer_inv s' xs \<and> peer_frame s s' \<and> scalars s' = scalars s \<and>
    info (hp s) a = Some n \<and> Recver n = Some rs \<and> upon_receiving_datapack w p rs to = Inr (rs', w') \<and>
    w = (wd s)\<lparr>ticks := Suc (ticks (wd s))\<rparr> \<and> wd s' = w' \<and> t \<in> range (clock (wd s)) \<and>
    info (hp s') = (info (hp s))(a \<mapsto> n\<lparr>node_time := t, Recver := Some rs'\<rparr>)"
proof -
  from stamp_node_inv [OF i f(2)] obtain s1 t n where s1: "stamp_node (Some a) s = Inr s1" "peer_inv s1 xs" "peer_frame s s1"
    "info (hp s) a = Some n" "info (hp s1) = (info (hp s))(a \<mapsto> n\<lparr>node_time := t\<rparr>)" "scalars s1 = scalars s"
    "wd s1 = (wd s)\<lparr>ticks := Suc (ticks (wd s))\<rparr>" "t \<in> range (clock (wd s))" by blast
  from receive_data_inv [OF s1(2) f(2), of p to] obtain s2 rs rs' w n1 where s2: "receive_data (Some a) p to s1 = Inr s2"
    "peer_inv s2 xs" "peer_frame s1 s2" "info (hp s1) a = Some n1" "Recver n1 = Some rs"
    "upon_receiving_datapack (wd s1) p rs to = Inr (rs', w)" "wd s2 = w"
    "info (hp s2) = (info (hp s1))(a \<mapsto> n1\<lparr>Recver := Some rs'\<rparr>)" "scalars s2 = scalars s1" by blast
  have n1: "n1 = n\<lparr>node_time := t\<rparr>" using s2(4) s1(5) by simp
  have "handle_data p to s = Inr s2" using f(1) s1(1) s2(1) by (simp add: handle_data_def)
  moreover have "Recver n = Some rs" using s2(5) n1 by simp
  moreover have "info (hp s2) = (info (hp s))(a \<mapsto> n\<lparr>node_time := t, Recver := Some rs'\<rparr>)"
    using s2(8) s1(5) n1 by simp
  ultimately show ?thesis
    using s1(4,7,8) s2(2,6,7,9) s1(6) peer_frame_trans [OF s1(3) s2(3)] by metis
qed

lemma handle_data_first:
  assumes i: "peer_inv s xs" and c: "Chunkhash_Num p = 0"
    and f: "find_node_by_addr (hp s) (lst s Downloading) to = Inr None"
      "find_node_by_addr (hp s) (lst s Sent) to = Inr (Some a)" "a \<in> set (xs Sent)"
  defines "xs' \<equiv> xs(Sent := remove1 a (xs Sent), Downloading := a # xs Downloading)"
  shows "\<exists>s' n rs rs' w w' t. handle_data p to s = Inr s' \<and> peer_inv s' xs' \<and> peer_frame s s' \<and> scalars s' = scalars s \<and>
    info (hp s) a = Some n \<and> create_Recver (node_hash n) = Inr rs \<and> upon_receiving_datapack w p rs to = Inr (rs', w') \<and>
    w = (wd s)\<lparr>ticks := Suc (ticks (wd s))\<rparr> \<and> wd s' = w' \<and> t \<in> range (clock (wd s)) \<and>
    info (hp s') = (info (hp s))(a \<mapsto> n\<lparr>node_time := t, Recver := Some rs'\<rparr>)"
proof -
  from init_download_inv [OF i f(3)] obtain s1 n t rs where s1: "init_download (Some a) s = Inr s1" "peer_inv s1 xs'"
    "peer_frame s s1" "info (hp s) a = Some n" "create_Recver (node_hash n) = Inr rs"
    "info (hp s1) = (info (hp s))(a \<mapsto> n\<lparr>node_time := t, Recver := Some rs\<rparr>)" "scalars s1 = scalars s"
    "wd s1 = (wd s)\<lparr>ticks := Suc (ticks (wd s))\<rparr>" "t \<in> range (clock (wd s))" unfolding xs'_def by blast
  have "a \<in> set (xs' Downloading)" by (simp add: xs'_def)
  from receive_data_inv [OF s1(2) this, of p to] obtain s2 rs0 rs' w n1 where s2: "receive_data (Some a) p to s1 = Inr s2"
    "peer_inv s2 xs'" "peer_frame s1 s2" "info (hp s1) a = Some n1" "Recver n1 = Some rs0"
    "upon_receiving_datapack (wd s1) p rs0 to = Inr (rs', w)" "wd s2 = w"
    "info (hp s2) = (info (hp s1))(a \<mapsto> n1\<lparr>Recver := Some rs'\<rparr>)" "scalars s2 = scalars s1" by blast
  have n1: "n1 = n\<lparr>node_time := t, Recver := Some rs\<rparr>" "rs0 = rs" using s2(4,5) s1(6) by auto
  have I: "info (hp s2) = (info (hp s))(a \<mapsto> n\<lparr>node_time := t, Recver := Some rs'\<rparr>)"
    using s2(8) s1(6) n1(1) by simp
  have "shape s1 xs'" using s1(2) by (simp add: peer_inv_def)
  from lists_okD(2) [OF shapeD(1) [OF this], of Downloading] have "lst s1 Downloading = Some a" by (simp add: is_list_def xs'_def)
  then have "print_hash_chunks (hp s1) (Some a) = Inr ()" using print_downloads [OF s1(2)] by simp
  moreover have "print_pack p = Inr ()"
    using c binary2hex_result [of "[]" "replicate 2000 0" "[]"] by (simp add: print_pack_def payload_read_def)
  ultimately have "handle_data p to s = Inr s2" using s1(1) s2(1) f(1,2) by (simp add: handle_data_def)
  with s1(4,5,8,9) s2(2,6,7,9) s1(7) I n1(2) peer_frame_trans [OF s1(3) s2(3)] show ?thesis by metis
qed

lemma handle_data_inv:
  assumes i: "peer_inv s xs" and c: "Chunkhash_Num p = 0"
  shows "\<exists>s' xs'. handle_data p to s = Inr s' \<and> peer_inv s' xs' \<and> peer_frame s s'"
proof -
  have s: "shape s xs" using i by (simp add: peer_inv_def)
  obtain r1 where r1: "find_node_by_addr (hp s) (lst s Downloading) to = Inr r1"
    "\<And>a. r1 = Some a \<Longrightarrow> a \<in> set (xs Downloading)" using find_addr [OF s] by metis
  obtain r2 where r2: "find_node_by_addr (hp s) (lst s Sent) to = Inr r2"
    "\<And>a. r2 = Some a \<Longrightarrow> a \<in> set (xs Sent)" using find_addr [OF s] by metis
  consider a where "r1 = Some a" | a where "r1 = None" "r2 = Some a" | "r1 = None" "r2 = None" by (cases r1; cases r2) auto
  then show ?thesis
  proof cases
    case 1
    with handle_data_running [OF i, of to a p] r1 show ?thesis by auto
  next
    case 2
    with handle_data_first [OF i c, of to a] r1(1) r2 show ?thesis by auto
  next
    case 3
    with r1(1) r2(1) i show ?thesis by (auto simp: handle_data_def intro: exI [of _ s])
  qed
qed

section \<open>ACK\<close>

text \<open>The acknowledgement is for a packet of the window it will be applied to.\<close>

definition ack_fits :: "packet \<Rightarrow> sockaddr_in \<Rightarrow> peer \<Rightarrow> bool" where
  "ack_fits p to s \<longleftrightarrow> (case find_node_by_addr (hp s) (lst s Uploading) to of Inr (Some a) \<Rightarrow>
       (case info (hp s) a of Some n \<Rightarrow> (case congWin n of Some W \<Rightarrow> ack_ok W p | None \<Rightarrow> True) | None \<Rightarrow> True)
     | _ \<Rightarrow> True)"

lemma handle_ack_running:
  assumes i: "peer_inv s xs" and f: "find_node_by_addr (hp s) (lst s Uploading) to = Inr (Some a)" "a \<in> set (xs Uploading)"
    and n: "info (hp s) a = Some n" "congWin n = Some W" and k: "ack_ok W p"
  shows "\<exists>s' t x V. handle_ack p to s = Inr s' \<and> peer_inv s' xs \<and> peer_frame s s' \<and>
    upon_receive_ACK p W = Inr (x, V) \<and> wd s' = (wd s)\<lparr>ticks := Suc (ticks (wd s))\<rparr> \<and> t \<in> range (clock (wd s)) \<and>
    info (hp s') = (info (hp s))(a \<mapsto> n\<lparr>node_time := t, congWin := Some V\<rparr>)"
proof -
  from stamp_node_inv [OF i f(2)] obtain s1 t where s1: "stamp_node (Some a) s = Inr s1" "peer_inv s1 xs"
    "node_ok Uploading n" "info (hp s1) = (info (hp s))(a \<mapsto> n\<lparr>node_time := t\<rparr>)" "peer_frame s s1"
    "wd s1 = (wd s)\<lparr>ticks := Suc (ticks (wd s))\<rparr>" "t \<in> range (clock (wd s))" using n(1) by auto
  have "win_inv W" using s1(3) n(2) by (auto simp: node_ok_def)
  from upon_receive_ACK_inv [OF this k] obtain x V where V: "upon_receive_ACK p W = Inr (x, V)" "win_inv V" by blast
  have I1: "info (hp s1) a = Some (n\<lparr>node_time := t\<rparr>)" by (simp add: s1(4))
  from load_info [OF I1] obtain m where m: "load (hp s1) (Some a) = Inr m" "congWin m = Some W"
    using n(2) unlinked_simps(5)
    by (metis hash_chunk.ext_inject hash_chunk.surjective hash_chunk.update_convs(5))
  have "node_ok Uploading (n\<lparr>node_time := t, congWin := Some V\<rparr>)" using s1(3) V(2) by (simp add: node_ok_def)
  with set_node_inv [OF s1(2) f(2) I1, of "\<lambda>n. n\<lparr>congWin := Some V\<rparr>"] obtain s2 where s2:
    "set_node (Some a) (\<lambda>n. n\<lparr>congWin := Some V\<rparr>) s1 = Inr s2" "peer_inv s2 xs" "scalars s2 = scalars s1" "wd s2 = wd s1"
    "info (hp s2) = (info (hp s1))(a \<mapsto> n\<lparr>node_time := t, congWin := Some V\<rparr>)" by auto
  have "handle_ack p to s = Inr s2" using f(1) s1(1) m V(1) s2(1) by (simp add: handle_ack_def receive_ack_def)
  moreover have "peer_frame s s2" using s1(5) scalarsD(1) [OF s2(3)] s2(4) by (simp add: peer_frame_def)
  ultimately show ?thesis using s2(2,4,5) V(1) s1(4,6,7) by (simp; blast)
qed

lemma handle_ack_inv:
  assumes i: "peer_inv s xs" and fits: "ack_fits p to s"
  shows "\<exists>s'. handle_ack p to s = Inr s' \<and> peer_inv s' xs \<and> peer_frame s s'"
proof -
  have s: "shape s xs" and nk: "nodes_ok (info (hp s)) xs" using i by (auto simp: peer_inv_def)
  obtain r where r: "find_node_by_addr (hp s) (lst s Uploading) to = Inr r"
    "\<And>a. r = Some a \<Longrightarrow> a \<in> set (xs Uploading)" using find_addr [OF s] by metis
  show ?thesis
  proof (cases r)
    case None
    with r(1) i show ?thesis by (auto simp: handle_ack_def)
  next
    case (Some a)
    note a = r(2) [OF Some]
    obtain n where n: "info (hp s) a = Some n" "node_ok Uploading n" using nk a by (rule nodes_okD)
    obtain W where W: "congWin n = Some W" using n(2) by (auto simp: node_ok_def)
    have "ack_ok W p" using fits r(1) Some n(1) W by (simp add: ack_fits_def)
    with handle_ack_running [OF i _ a n(1) W] r(1) Some show ?thesis by blast
  qed
qed

end
