(* ===== verification/PeerServe.thy ===== *)
theory PeerServe
  imports PeerPackets
begin

text \<open>
  The packet handlers together: any sequence of packets that the peer can handle keeps its
  invariant, the WHOHAS packets ask for exactly the open chunks, and a datagram is taken
  apart into the packets it is made of.
\<close>

section \<open>Any packet\<close>

text \<open>
  The packets the peer can handle: WHOHAS and IHAVE whose payload holds the hashes they
  announce, at most fifty for WHOHAS; GET with a whole hash; DATA as the parser makes it;
  ACK for a packet of the window. Other types are ignored.
\<close>

definition has_hashes :: "packet \<Rightarrow> bool" where
  "has_hashes p \<longleftrightarrow> Chunkhash_Num p = 0 \<or>
     (case payload p of None \<Rightarrow> False | Some bs \<Rightarrow> 20 * unat (Chunkhash_Num p) \<le> length bs)"

definition packet_adm :: "peer \<Rightarrow> packet \<times> sockaddr_in \<Rightarrow> bool" where
  "packet_adm s e = (case e of (p, addr) \<Rightarrow>
     if Packet_Type p = 0 then has_hashes p \<and> Chunkhash_Num p \<le> 50
     else if Packet_Type p = 1 then has_hashes p
     else if Packet_Type p = 2 then (case payload p of None \<Rightarrow> False | Some bs \<Rightarrow> 20 \<le> length bs)
     else if Packet_Type p = 3 then Chunkhash_Num p = 0
     else if Packet_Type p = 4 then ack_fits p addr s
     else True)"

definition packet_step :: "peer \<Rightarrow> packet \<times> sockaddr_in \<Rightarrow> peer res" where
  "packet_step s e = dealwithincomepack (fst e) (snd e) s"

lemma packet_step_pair [simp]: "packet_step s (p, addr) = dealwithincomepack p addr s"
  by (simp add: packet_step_def)

definition serving :: "peer \<Rightarrow> peer \<Rightarrow> bool" where
  "serving s0 s \<longleftrightarrow> peer_ok s \<and> upload_source s \<and> peer_frame s0 s"

lemma has_hashes_list:
  assumes "has_hashes p"
  obtains hs where "carries_hashes p hs"
proof -
  have "unat (Chunkhash_Num p) = 0 \<or> (\<exists>bs. payload p = Some bs \<and> 20 * unat (Chunkhash_Num p) \<le> length bs)"
    using assms by (auto simp: has_hashes_def unat_eq_0 split: option.splits)
  from carries_hashes_exists [OF this] that show ?thesis by blast
qed

lemma dealwith_inv:
  assumes i: "peer_inv s xs" and src: "upload_source s" and adm: "packet_adm s (p, addr)"
  shows "\<exists>s' xs'. dealwithincomepack p addr s = Inr s' \<and> peer_inv s' xs' \<and> peer_frame s s'"
proof -
  have s: "shape s xs" using i by (simp add: peer_inv_def)
  consider (whohas) "Packet_Type p = 0" | (ihave) "Packet_Type p = 1" | (get) "Packet_Type p = 2"
    | (data) "Packet_Type p = 3" | (ack) "Packet_Type p = 4"
    | (other) "Packet_Type p \<noteq> 0" "Packet_Type p \<noteq> 1" "Packet_Type p \<noteq> 2" "Packet_Type p \<noteq> 3" "Packet_Type p \<noteq> 4"
    by blast
  then show ?thesis
  proof cases
    case whohas
    then have h: "has_hashes p" "Chunkhash_Num p \<le> 50" using adm by (auto simp: packet_adm_def)
    obtain hs where c: "carries_hashes p hs" using h(1) by (rule has_hashes_list)
    have "unat (Chunkhash_Num p) \<le> unat (50 :: byte)" using h(2) by (simp only: word_le_nat_alt)
    then have "length hs \<le> 50" using c by (simp add: carries_hashes_def)
    moreover have "length (having s xs hs) \<le> length hs" by (simp add: having_def)
    ultimately have "\<not> 50 < length (having s xs hs)" by simp
    with IHav_sender_result [OF s c, of addr] i whohas show ?thesis
      by (cases "having s xs hs = []") (auto simp: dealwithincomepack_def peer_frame_def)
  next
    case ihave
    then have "has_hashes p" using adm by (simp add: packet_adm_def)
    then obtain hs where c: "carries_hashes p hs" by (rule has_hashes_list)
    then have "0 + unat (Chunkhash_Num p) = length hs" by (simp add: carries_hashes_def)
    from fill_loop_inv [OF i c this, of addr] ihave show ?thesis
      unfolding dealwithincomepack_def fill_toget_list_def by auto
  next
    case get
    then obtain bs where "payload p = Some bs" "20 \<le> length bs"
      using adm by (auto simp: packet_adm_def split: option.splits)
    from handle_get_inv [OF i src this, of addr] get show ?thesis by (simp add: dealwithincomepack_def)
  next
    case data
    then have "Chunkhash_Num p = 0" using adm by (simp add: packet_adm_def)
    from handle_data_inv [OF i this, of addr] data show ?thesis by (simp add: dealwithincomepack_def)
  next
    case ack
    then have "ack_fits p addr s" using adm by (simp add: packet_adm_def)
    from handle_ack_inv [OF i this] ack show ?thesis by (auto simp: dealwithincomepack_def)
  next
    case other
    then have "dealwithincomepack p addr s = Inr s" by (simp add: dealwithincomepack_def)
    with i show ?thesis by auto
  qed
qed

interpretation pk: safe_machine packet_step packet_adm "serving s0" for s0
proof unfold_locales
  fix s and e :: "packet \<times> sockaddr_in" assume a: "serving s0 s" "packet_adm s e"
  obtain p addr where e: "e = (p, addr)" by (cases e)
  obtain xs where i: "peer_inv s xs" "upload_source s" "peer_frame s0 s" using a(1) by (auto simp: serving_def peer_ok_def)
  have "packet_adm s (p, addr)" using a(2) e by simp
  from dealwith_inv [OF i(1,2) this] obtain s' xs' where d:
    "dealwithincomepack p addr s = Inr s'" "peer_inv s' xs'" "peer_frame s s'" by blast
  have "serving s0 s'"
    using d i upload_source_frame [OF d(3)] peer_frame_trans [OF i(3) d(3)] by (auto simp: serving_def peer_ok_def)
  with d(1) show "\<exists>s'. packet_step s e = Inr s' \<and> serving s0 s'" by (simp add: packet_step_def e)
qed

section \<open>Asking for chunks\<close>

text \<open>
  \<open>WhoHas_sender\<close> terminates, and its packets together ask for every needed chunk that nobody
  has offered, in list order.
\<close>

lemma hash_packet_num:
  assumes "n \<le> 255"
  shows "Chunkhash_Num (hash_packet t n bs) = 0 \<longleftrightarrow> n = 0"
proof -
  have "unat (of_nat n :: byte) = n" using assms by (simp add: unat_of_nat take_bit_nat_eq_self)
  then show ?thesis by (auto simp: hash_packet_def zero_packet_def unat_eq_0 [symmetric])
qed

definition whohas_packets :: "byte list list list \<Rightarrow> packet list" where
  "whohas_packets groups = map (\<lambda>hs. hash_packet 0 (length hs) (concat hs)) groups"

definition broadcasts :: "spiffy_globals \<Rightarrow> int \<Rightarrow> bt_peer list \<Rightarrow> packet list \<Rightarrow> datagram list" where
  "broadcasts g myid ps pks = concat (map (\<lambda>p.
     concat (map (\<lambda>q. emitted g (peer_addr q) (wire_bytes p)) (filter (\<lambda>q. peer_id q \<noteq> myid) ps))) pks)"

lemma record_sent_append: "record_sent (record_sent w a) b = record_sent w (a @ b)"
  by (simp add: record_sent_def)

lemma record_sent_Nil: "record_sent w [] = w"
  by (simp add: record_sent_def)

lemma broadcasts_Cons:
  "broadcasts g myid ps (p # pks) =
     concat (map (\<lambda>q. emitted g (peer_addr q) (wire_bytes p)) (filter (\<lambda>q. peer_id q \<noteq> myid) ps)) @ broadcasts g myid ps pks"
  by (simp add: broadcasts_def)

text \<open>The needed chunks that no offer, request or download claims.\<close>

definition unclaimed_in :: "peer \<Rightarrow> (list_var \<Rightarrow> nat list) \<Rightarrow> byte list list \<Rightarrow> byte list list" where
  "unclaimed_in s xs hs = filter (\<lambda>x. x \<notin> hash_of (info (hp s)) ` claims xs) hs"

lemma WhoHas_loop_result:
  assumes s: "shape s xs" and "is_list (hp s) p ys" and "length ys \<le> fuel"
  shows "\<exists>groups. WhoHas_loop fuel p ps (s\<lparr>wd := w\<rparr>) =
      Inr (s\<lparr>wd := record_sent w (broadcasts (router w) (me_id (me s)) ps (whohas_packets groups))\<rparr>) \<and>
    concat groups = unclaimed_in s xs (map (hash_of (info (hp s))) ys) \<and> (\<forall>g\<in>set groups. g \<noteq> [] \<and> length g \<le> 50)"
  using assms(2,3)
proof (induction fuel arbitrary: p ys w)
  case 0
  then show ?case
    by (intro exI [of _ "[]"])
       (simp add: is_list_def whohas_packets_def broadcasts_def record_sent_Nil unclaimed_in_def)
next
  case (Suc fuel)
  show ?case
  proof (cases p)
    case None
    then have "ys = []" using Suc.prems(1) by (cases ys) (auto simp: is_list_def)
    with None show ?thesis
      by (intro exI [of _ "[]"]) (simp add: whohas_packets_def broadcasts_def record_sent_Nil unclaimed_in_def)
  next
    case (Some a)
    then have ne: "ys \<noteq> []" using Suc.prems(1) by (auto simp: is_list_def)
    let ?d = "mydownload (me s)"
    have "lst s To_send = get_tosend_quene ?d" "lst s Sent = get_sent_list ?d" "lst s Downloading = downloading_list ?d"
      by simp_all
    from form_WhoHas_result [OF shapeD(1,2) [OF s] this Suc.prems(1)] obtain us vs q where f:
      "ys = us @ vs" "is_list (hp s) q vs" "us \<noteq> []"
      "let hs = unclaimed_in s xs (map (hash_of (info (hp s))) us) in
         form_WhoHas (hp s) ?d p = Inr (hash_packet 0 (length hs) (concat hs), q) \<and> length hs \<le> 50"
      using ne unfolding unclaimed_in_def claimed_def hash_of_hash_at claims_def
      by (auto simp: Let_def image_Un Un_assoc)
    let ?hs = "unclaimed_in s xs (map (hash_of (info (hp s))) us)"
    have hs: "form_WhoHas (hp s) ?d p = Inr (hash_packet 0 (length ?hs) (concat ?hs), q)" "length ?hs \<le> 50"
      using f(4) by (simp_all add: Let_def)
    have le: "length vs \<le> fuel" using Suc.prems(2) f(1,3) by (cases us) auto
    have num: "Chunkhash_Num (hash_packet 0 (length ?hs) (concat ?hs)) = 0 \<longleftrightarrow> ?hs = []"
      using hash_packet_num [of "length ?hs" 0] hs(2) by simp
    have split: "unclaimed_in s xs (map (hash_of (info (hp s))) ys) =
        ?hs @ unclaimed_in s xs (map (hash_of (info (hp s))) vs)" by (simp add: f(1) unclaimed_in_def)
    show ?thesis
    proof (cases "?hs = []")
      case True
      from Suc.IH [OF f(2) le, of w] obtain groups where g: "WhoHas_loop fuel q ps (s\<lparr>wd := w\<rparr>) =
          Inr (s\<lparr>wd := record_sent w (broadcasts (router w) (me_id (me s)) ps (whohas_packets groups))\<rparr>)"
        "concat groups = unclaimed_in s xs (map (hash_of (info (hp s))) vs)" "\<forall>g\<in>set groups. g \<noteq> [] \<and> length g \<le> 50"
        by blast
      have "WhoHas_loop (Suc fuel) p ps (s\<lparr>wd := w\<rparr>) = WhoHas_loop fuel q ps (s\<lparr>wd := w\<rparr>)"
        using hs num True Some by simp
      with g True show ?thesis unfolding split by auto
    next
      case False
      have len: "\<forall>x\<in>set ?hs. length x = 20"
        using is_list_allocated [OF Suc.prems(1)] shapeD(2) [OF s] f(1)
        by (fastforce simp: unclaimed_in_def hash_of_def hashes_ok_def info_def)
      have wf: "wf_packet (hash_packet 0 (length ?hs) (concat ?hs))"
        using False hs(2) length_concat_hashes [OF len] by (intro hash_packet_wf) (auto simp: HASH_SIZE_def)
      let ?p = "hash_packet 0 (length ?hs) (concat ?hs)"
      let ?b = "concat (map (\<lambda>q. emitted (router w) (peer_addr q) (wire_bytes ?p)) (filter (\<lambda>q. peer_id q \<noteq> me_id (me s)) ps))"
      have b: "broadcast w ?p ps (me_id (me s)) = Inr (1, record_sent w ?b)" by (rule broadcast_wf [OF wf])
      from Suc.IH [OF f(2) le, of "record_sent w ?b"] obtain groups where g:
        "WhoHas_loop fuel q ps (s\<lparr>wd := record_sent w ?b\<rparr>) =
          Inr (s\<lparr>wd := record_sent (record_sent w ?b) (broadcasts (router w) (me_id (me s)) ps (whohas_packets groups))\<rparr>)"
        "concat groups = unclaimed_in s xs (map (hash_of (info (hp s))) vs)" "\<forall>g\<in>set groups. g \<noteq> [] \<and> length g \<le> 50"
        by auto
      have "WhoHas_loop (Suc fuel) p ps (s\<lparr>wd := w\<rparr>) = WhoHas_loop fuel q ps (s\<lparr>wd := record_sent w ?b\<rparr>)"
        using hs(1) num False Some b by simp
      with g False hs(2) show ?thesis
        unfolding split
        by (intro exI [of _ "?hs # groups"]) (simp add: whohas_packets_def broadcasts_Cons record_sent_append)
    qed
  qed
qed

lemma WhoHas_sender_result:
  assumes s: "shape s xs"
  shows "\<exists>groups. WhoHas_sender (lst s Need) ps s =
      Inr (s\<lparr>wd := record_sent (wd s) (broadcasts (router (wd s)) (me_id (me s)) ps (whohas_packets groups))\<rparr>) \<and>
    concat groups = unclaimed_in s xs (map (hash_of (info (hp s))) (xs Need)) \<and>
    (\<forall>g\<in>set groups. g \<noteq> [] \<and> length g \<le> 50)"
proof -
  note l = lists_okD(2) [OF shapeD(1) [OF s], of Need]
  have "length (xs Need) \<le> Suc (fresh (hp s))" using is_list_length [OF l lists_okD(1) [OF shapeD(1) [OF s]]] by simp
  from WhoHas_loop_result [OF s l this, of ps "wd s"] show ?thesis by (simp add: WhoHas_sender_def)
qed

section \<open>Datagrams\<close>

text \<open>A buffer that holds whole packets and less than a header after them.\<close>

lemma inbound_loop_holds:
  assumes "list_all wf_packet ps" and "holds b (concat (map wire_bytes ps) @ r)" and "length r < 16"
  shows "\<exists>b'. holds b' r \<and> inbound_loop b from s =
    ebind (run_steps packet_step s (map (\<lambda>p. (as_received p, from)) ps)) (\<lambda>s'. Inr (b', s'))"
  using assms
proof (induction ps arbitrary: b s)
  case Nil
  then have "\<not> buf_len b \<ge> int HEADER_LEN" by (simp add: holds_def HEADER_LEN_def)
  with Nil show ?case by (subst inbound_loop.simps) auto
next
  case (Cons p ps)
  then have p: "wf_packet p" "holds b (wire_bytes p @ concat (map wire_bytes ps) @ r)" by simp_all
  from get_firstpack_holds [OF p] obtain b1 where b1:
    "get_firstpack b zero_packet = Inr (b1, as_received p)" "holds b1 (concat (map wire_bytes ps) @ r)"
    by (auto simp: as_received_def)
  have "16 \<le> length (wire_bytes p)" by (simp add: wire_bytes_def)
  then have ge: "buf_len b \<ge> int HEADER_LEN" using p(2) by (simp add: holds_def HEADER_LEN_def)
  have step: "inbound_loop b from s = ebind (dealwithincomepack (as_received p) from s) (inbound_loop b1 from)"
    using ge b1(1) by (subst inbound_loop.simps) simp
  show ?case
  proof (cases "dealwithincomepack (as_received p) from s")
    case (Inl e)
    obtain b' where "holds b' r" using Cons.IH [of b1 s] Cons.prems b1(2) by auto
    with Inl step show ?thesis by auto
  next
    case (Inr s1)
    from Cons.IH [of b1 s1] Cons.prems b1(2) obtain b' where "holds b' r"
      "inbound_loop b1 from s1 = ebind (run_steps packet_step s1 (map (\<lambda>p. (as_received p, from)) ps)) (\<lambda>s'. Inr (b', s'))"
      by auto
    with Inr step show ?thesis by auto
  qed
qed

text \<open>The bytes of a datagram land behind what the buffer holds already.\<close>

lemma holds_extend:
  assumes h: "holds b r" and len: "length r + length msg \<le> BUFLEN2" "length msg \<le> length bytes"
      "length bytes \<le> BUFLEN2 - length r" and t: "take (length msg) bytes = msg"
  shows "\<exists>bs. mem_write (buf_bytes b) (buf_len b) bytes = Inr bs \<and>
    holds (b\<lparr>buf_bytes := bs, buf_len := buf_len b + int (length msg)\<rparr>) (r @ msg)"
proof -
  let ?B = "buf_bytes b"
  have B: "length ?B = BUFLEN2" "buf_len b = int (length r)" "take (length r) ?B = r" using h by (auto simp: holds_def)
  show ?thesis
  proof (cases "bytes = []")
    case True
    with len(2) have "msg = []" by simp
    with True h show ?thesis by (auto simp: mem_write_def holds_def)
  next
    case False
    let ?bs = "r @ bytes @ drop (length r + length bytes) ?B"
    have "mem_write ?B (buf_len b) bytes = Inr ?bs"
      using False B len by (auto simp: mem_write_def)
    moreover have "take (length (r @ msg)) ?bs = r @ msg"
      using t len(2) by simp
    ultimately show ?thesis using B len by (auto simp: holds_def)
  qed
qed

lemma plain_datagram:
  assumes "\<not> giSpiffyEnabled (router (wd s))" and "holds b r" and "length r + length msg \<le> BUFLEN2"
  shows "\<exists>b1. holds b1 (r @ msg) \<and> process_inbound_udp junk (Some (src, msg)) b s = inbound_loop b1 src s"
proof -
  have bl: "buf_len b = int (length r)" using assms(2) by (simp add: holds_def)
  have cap: "nat (int BUFLEN2 - buf_len b) = BUFLEN2 - length r" using assms(3) by (simp add: bl)
  have tk: "take (BUFLEN2 - length r) msg = msg" using assms(3) by simp
  have "length msg \<le> BUFLEN2 - length r" using assms(3) by simp
  from holds_extend [OF assms(2,3) order_refl this] obtain bs where
    "mem_write (buf_bytes b) (buf_len b) msg = Inr bs"
    "holds (b\<lparr>buf_bytes := bs, buf_len := buf_len b + int (length msg)\<rparr>) (r @ msg)" by auto
  then show ?thesis
    using assms(1) cap tk by (auto simp: process_inbound_udp_def spiffy_recvfrom_def plain_recvfrom_def)
qed

text \<open>Through the router the source is the sender named in the router's header.\<close>

lemma router_datagram:
  assumes g: "giSpiffyEnabled (router (wd s))" and h: "holds b r" and len: "length r + length msg \<le> BUFLEN2"
    and "giSpiffyEnabled g'" and "sin_family to = AF_INET"
  shows "\<exists>b1. holds b1 (r @ msg) \<and> process_inbound_udp junk (Some (src, snd (hd (emitted g' to msg)))) b s =
    inbound_loop b1 \<lparr>sin_family = AF_INET, sin_port = gsSrcPort g', sin_addr = glSrcAddr g'\<rparr> s"
proof -
  have bl: "buf_len b = int (length r)" using h by (simp add: holds_def)
  have cap: "nat (int BUFLEN2 - buf_len b) = BUFLEN2 - length r" using len by (simp add: bl)
  have fit: "length msg \<le> BUFLEN2 - length r" using len by simp
  from spiffy_loopback [OF assms(4,5) g fit, of junk src] obtain bytes where r:
    "spiffy_recvfrom junk (router (wd s)) (Some (src, snd (hd (emitted g' to msg)))) (BUFLEN2 - length r)
       \<lparr>sin_family = 0, sin_port = 0, sin_addr = 0\<rparr> =
      (int (length msg), bytes, \<lparr>sin_family = AF_INET, sin_port = gsSrcPort g', sin_addr = glSrcAddr g'\<rparr>)"
    "length bytes = BUFLEN2 - length r" "take (length msg) bytes = msg" by blast
  from holds_extend [OF h len, of bytes] r fit obtain bs where
    "mem_write (buf_bytes b) (buf_len b) bytes = Inr bs"
    "holds (b\<lparr>buf_bytes := bs, buf_len := buf_len b + int (length msg)\<rparr>) (r @ msg)" by auto
  with r(1) cap show ?thesis by (auto simp: process_inbound_udp_def)
qed

text \<open>
  A datagram that brings the bytes \<open>msg\<close> from \<open>src\<close>: directly, or wrapped by a peer with the
  router settings \<open>g'\<close> when this peer uses the router.
\<close>

definition arrival :: "spiffy_globals \<Rightarrow> sockaddr_in \<times> byte list \<Rightarrow> sockaddr_in \<Rightarrow> byte list \<Rightarrow> bool" where
  "arrival g d src msg \<longleftrightarrow> (if giSpiffyEnabled g
     then \<exists>g' to. giSpiffyEnabled g' \<and> sin_family to = AF_INET \<and> snd d = snd (hd (emitted g' to msg)) \<and>
            src = \<lparr>sin_family = AF_INET, sin_port = gsSrcPort g', sin_addr = glSrcAddr g'\<rparr>
     else d = (src, msg))"

lemma arrival_datagram:
  assumes "arrival (router (wd s)) d src msg" and "holds b r" and "length r + length msg \<le> BUFLEN2"
  shows "\<exists>b1. holds b1 (r @ msg) \<and> process_inbound_udp junk (Some d) b s = inbound_loop b1 src s"
proof (cases "giSpiffyEnabled (router (wd s))")
  case True
  with assms(1) obtain g' to where g: "giSpiffyEnabled g'" "sin_family to = AF_INET"
    "snd d = snd (hd (emitted g' to msg))" "src = \<lparr>sin_family = AF_INET, sin_port = gsSrcPort g', sin_addr = glSrcAddr g'\<rparr>"
    by (auto simp: arrival_def)
  have "d = (fst d, snd (hd (emitted g' to msg)))" using g(3) by (cases d) simp
  with router_datagram [OF True assms(2,3) g(1,2), of junk "fst d"] g(4) show ?thesis by metis
next
  case False
  with assms plain_datagram [OF False assms(2,3)] show ?thesis by (simp add: arrival_def)
qed

text \<open>
  A packet whose length field promises more than arrived takes the count below zero, and the
  next datagram is written in front of the buffer.
\<close>

lemma negative_buffer_faults:
  assumes "buf_len b < 0" and "msg \<noteq> []"
  shows "process_inbound_udp junk (Some (src, msg)) b s = Inl OutOfBounds"
proof -
  obtain recv bytes "from" where r: "spiffy_recvfrom junk (router (wd s)) (Some (src, msg)) (nat (int BUFLEN2 - buf_len b))
      \<lparr>sin_family = 0, sin_port = 0, sin_addr = 0\<rparr> = (recv, bytes, from)" by (cases rule: prod_cases3)
  have "0 < nat (int BUFLEN2 - buf_len b)" using assms(1) by simp
  with r assms(2) have "bytes \<noteq> []"
    by (auto simp: spiffy_recvfrom_def plain_recvfrom_def Let_def split: if_splits)
  with r assms(1) show ?thesis by (simp add: process_inbound_udp_def mem_write_def)
qed

text \<open>The count only says whether there is a header; what is cut off does not depend on it.\<close>

lemma get_firststream_recount:
  assumes "get_firststream b = Inr (x, b')" and "int HEADER_LEN \<le> buf_len b" and "int HEADER_LEN \<le> m"
  shows "get_firststream (b\<lparr>buf_len := m\<rparr>) = Inr (x, b'\<lparr>buf_len := buf_len b' - buf_len b + m\<rparr>)"
  using assms by (auto simp: get_firststream_def Let_def ebind_eq_Inr)

lemma get_firstpack_recount:
  assumes "get_firstpack b p0 = Inr (b', p)" and "int HEADER_LEN \<le> buf_len b" and "int HEADER_LEN \<le> m"
  shows "get_firstpack (b\<lparr>buf_len := m\<rparr>) p0 = Inr (b'\<lparr>buf_len := buf_len b' - buf_len b + m\<rparr>, p)"
proof -
  obtain x b1 where x: "get_firststream b = Inr (x, b1)"
    using assms(1) by (cases "get_firststream b") (auto simp: get_firstpack_def)
  from get_firststream_recount [OF this assms(2,3)] assms(1) x show ?thesis
    by (cases x) (auto simp: get_firstpack_def ebind_eq_Inr)
qed

section \<open>A peer\<close>

text \<open>
  A peer that has one chunk, needs two, has requested one of them from port 5 and is sending
  its own chunk to port 7.
\<close>

definition sample_addr_of :: "u16 \<Rightarrow> sockaddr_in" where
  "sample_addr_of port = \<lparr>sin_family = AF_INET, sin_port = port, sin_addr = 8\<rparr>"

definition sample_node :: "u16 \<Rightarrow> byte \<Rightarrow> int \<Rightarrow> ptr \<Rightarrow> Window option \<Rightarrow> hash_chunk" where
  "sample_node port b k nxt W = \<lparr>node_from = sample_addr_of port, node_hash = replicate 20 b, chunkid = k,
     next_node = nxt, node_time = 100, congWin = W, Recver = None\<rparr>"

definition sample_heap :: heap where
  "sample_heap = \<lparr>nodes = [0 \<mapsto> sample_node 1 1 0 None None, 1 \<mapsto> sample_node 1 2 1 (Some 2) None,
     2 \<mapsto> sample_node 1 3 2 None None, 3 \<mapsto> sample_node 5 2 1 None None,
     4 \<mapsto> sample_node 7 1 0 None (Some (sample_window 1 1 9 2))], fresh = 5\<rparr>"

definition sample_config :: bt_config where
  "sample_config = bt_init\<lparr>chunk_file := [109], has_chunk_file := [104], max_conn := 3, identity := 1,
     peers := [\<lparr>peer_id = 1, peer_addr = sample_addr_of 1\<rparr>, \<lparr>peer_id = 2, peer_addr = sample_addr_of 5\<rparr>]\<rparr>"

definition sample_peer :: peer where
  "sample_peer = \<lparr>config = sample_config,
     me = \<lparr>me_id = 1, me_addr = sample_addr_of 1, haslist = Some 0,
       mydownload = \<lparr>output_fd = 7, concurr_download_num = 1, max_download_num = 3, howmany_found = 1,
         howmany_need = 2, needlist = Some 1, get_tosend_quene = None, get_tosend_tail = None,
         get_sent_list = Some 3, downloading_list = None\<rparr>,
       myupload = \<lparr>concurr_upload_num = 1, max_upload_num = 3, uploading_list = Some 4, uploaded_list = None\<rparr>\<rparr>,
     hp = sample_heap, wd = quiet_world\<lparr>files := sample_fs\<rparr>\<rparr>"

definition sample_lists :: "list_var \<Rightarrow> nat list" where
  "sample_lists l = (case l of Has \<Rightarrow> [0] | Need \<Rightarrow> [1, 2] | Sent \<Rightarrow> [3] | Uploading \<Rightarrow> [4] | _ \<Rightarrow> [])"

lemma sample_lists_simps [simp]:
  "sample_lists Has = [0]" "sample_lists Need = [1, 2]" "sample_lists To_send = []" "sample_lists Sent = [3]"
  "sample_lists Downloading = []" "sample_lists Uploading = [4]" "sample_lists Uploaded = []"
  by (simp_all add: sample_lists_def)

lemma sample_info:
  "info sample_heap 0 = Some (sample_node 1 1 0 None None)" "info sample_heap 1 = Some (sample_node 1 2 1 None None)"
  "info sample_heap (Suc 0) = Some (sample_node 1 2 1 None None)"
  "info sample_heap 2 = Some (sample_node 1 3 2 None None)" "info sample_heap 3 = Some (sample_node 5 2 1 None None)"
  "info sample_heap 4 = Some (sample_node 7 1 0 None (Some (sample_window 1 1 9 2)))"
  by (simp_all add: info_def sample_heap_def sample_node_def unlinked_def)

lemma sample_hash: "hash_of (info sample_heap) 0 = replicate 20 1" "hash_of (info sample_heap) 1 = replicate 20 2"
  "hash_of (info sample_heap) (Suc 0) = replicate 20 2"
  "hash_of (info sample_heap) 2 = replicate 20 3" "hash_of (info sample_heap) 3 = replicate 20 2"
  by (simp_all add: hash_of_def sample_info sample_node_def)

lemma sample_shape: "shape sample_peer sample_lists"
proof -
  have "is_list sample_heap (lst sample_peer l) (sample_lists l)" for l
    by (cases l) (simp_all add: is_list_def sample_peer_def sample_heap_def sample_node_def)
  moreover have "\<forall>l m. l \<noteq> m \<longrightarrow> set (sample_lists l) \<inter> set (sample_lists m) = {}" by code_simp
  moreover have "heap_ok sample_heap" by (simp add: heap_ok_def sample_heap_def)
  moreover have "hashes_ok sample_heap"
    by (auto simp: hashes_ok_def sample_heap_def info_def sample_node_def unlinked_def split: if_splits)
  ultimately show ?thesis by (simp add: shape_def lists_ok_def sample_peer_def)
qed

lemma sample_inv: "peer_inv sample_peer sample_lists"
proof -
  have w: "win_inv (sample_window 1 1 9 2)" using sample_window_inv [of 1 1 9 2] by simp
  have "\<exists>n. info sample_heap a = Some n \<and> node_ok l n" if "a \<in> set (sample_lists l)" for a l
    using that w by (cases l) (auto simp: sample_info node_ok_def sample_node_def)
  then have "nodes_ok (info sample_heap) sample_lists" by (simp add: nodes_ok_def)
  moreover have "requests_ok (info sample_heap) sample_lists"
    by (simp add: requests_ok_def claims_def running_def key_of_def hash_of_def sample_info sample_node_def)
  moreover have "counters_ok sample_peer sample_lists"
    by (simp add: counters_ok_def sample_peer_def sample_config_def)
  ultimately show ?thesis using sample_shape by (simp add: peer_inv_def sample_peer_def)
qed

lemma sample_source: "upload_source sample_peer"
  by (simp add: upload_source_def sample_peer_def sample_config_def sample_fs_simps)

lemma sample_peer_simps:
  "hp sample_peer = sample_heap" "router (wd sample_peer) = router quiet_world" "sent (wd sample_peer) = []"
  "config sample_peer = sample_config" "me_id (me sample_peer) = 1"
  by (simp_all add: sample_peer_def quiet_world_def)

section \<open>Properties\<close>


definition sample_request :: "byte \<Rightarrow> byte list \<Rightarrow> packet" where
  "sample_request t hash = hash_packet t 1 hash"


text \<open>
  C18. A WHOHAS packet is answered with one IHAVE packet that lists exactly those requested
  hashes that the peer has, in the order of the request, and with nothing when there are
  none. When it has more than fifty of them, the answer overflows its buffer.
\<close>

theorem whohas_answered:
  assumes "peer_inv s xs" and "Packet_Type p = 0" and "carries_hashes p hs"
  shows "dealwithincomepack p addr s =
    (let mine = filter (\<lambda>x. x \<in> hash_of (info (hp s)) ` set (xs Has)) hs in
     if 50 < length mine then Inl OutOfBounds
     else Inr (if mine = [] then s
               else s\<lparr>wd := record_sent (wd s) (emitted (router (wd s)) addr
                              (wire_bytes (hash_packet 1 (length mine) (concat mine))))\<rparr>))"
proof -
  have "shape s xs" using assms(1) by (simp add: peer_inv_def)
  from IHav_sender_result [OF this assms(3), of addr] assms(2) show ?thesis
    by (simp add: dealwithincomepack_def having_def Let_def)
qed

theorem whohas_answered_witness:
  "\<exists>w. dealwithincomepack (sample_request 0 (replicate 20 1)) (sample_addr_of 5) sample_peer = Inr (sample_peer\<lparr>wd := w\<rparr>) \<and>
    sent w = [(sample_addr_of 5, wire_bytes (hash_packet 1 1 (replicate 20 1)))]"
proof -
  have c: "carries_hashes (sample_request 0 (replicate 20 1)) [replicate 20 1]"
    by (simp add: carries_hashes_def sample_request_def hash_packet_def zero_packet_def)
  have t: "Packet_Type (sample_request 0 (replicate 20 1)) = 0" by (simp add: sample_request_def hash_packet_def)
  show ?thesis
    using whohas_answered [OF sample_inv t c, of "sample_addr_of 5"]
    by (simp add: sample_peer_simps sample_hash quiet_world_simps(1)) (rule exI, rule conjI, rule refl, simp add: sample_peer_simps)
qed

text \<open>
  C19. After an IHAVE packet every offered chunk that is needed is claimed (to be requested,
  requested or being received), every claim from before is kept, nothing else is claimed,
  and no list but the queue of offers changes.
\<close>

theorem ihave_claims_needed:
  assumes "peer_inv s xs" and "Packet_Type p = 1" and "carries_hashes p hs"
  shows "\<exists>s' xs'. dealwithincomepack p addr s = Inr s' \<and> peer_inv s' xs' \<and> (\<forall>l. l \<noteq> To_send \<longrightarrow> xs' l = xs l) \<and>
    hash_of (info (hp s')) ` claims xs' =
      hash_of (info (hp s)) ` claims xs \<union> (set hs \<inter> hash_of (info (hp s)) ` set (xs Need))"
proof -
  have "0 + unat (Chunkhash_Num p) = length hs" using assms(3) by (simp add: carries_hashes_def)
  from fill_loop_inv [OF assms(1,3) this, of addr] assms(2) show ?thesis
    unfolding dealwithincomepack_def fill_toget_list_def by auto
qed

theorem ihave_claims_needed_witness:
  "\<exists>s' xs'. dealwithincomepack (sample_request 1 (replicate 20 3)) (sample_addr_of 9) sample_peer = Inr s' \<and>
    hash_of (info (hp s')) ` claims xs' = {replicate 20 2, replicate 20 3}"
proof -
  have c: "carries_hashes (sample_request 1 (replicate 20 3)) [replicate 20 3]"
    by (simp add: carries_hashes_def sample_request_def hash_packet_def zero_packet_def)
  have t: "Packet_Type (sample_request 1 (replicate 20 3)) = 1" by (simp add: sample_request_def hash_packet_def)
  from ihave_claims_needed [OF sample_inv t c, of "sample_addr_of 9"] show ?thesis
    by (auto simp: sample_peer_simps claims_def sample_hash insert_commute)
qed

text \<open>
  C21. A GET for a chunk that the peer has, from a host that is neither being served nor was
  served before, while there is room for an upload, starts exactly one upload: a new node
  for that host and hash at the head of the list with a window addressed to the host.
\<close>

theorem get_starts_upload:
  assumes "peer_inv s xs" and "upload_source s" and "Packet_Type p = 2" and "payload p = Some (hash @ t)" "length hash = 20"
    and "concurr_upload_num (myupload (me s)) < max_upload_num (myupload (me s))"
    and "sin_port addr \<notin> port_of (info (hp s)) ` (set (xs Uploading) \<union> set (xs Uploaded))"
    and "hash \<in> hash_of (info (hp s)) ` set (xs Has)"
  shows "\<exists>s' a n W. dealwithincomepack p addr s = Inr s' \<and> peer_inv s' (xs(Uploading := a # xs Uploading)) \<and>
    concurr_upload_num (myupload (me s')) = concurr_upload_num (myupload (me s)) + 1 \<and>
    info (hp s') a = Some n \<and> node_from n = addr \<and> node_hash n = hash \<and> congWin n = Some W \<and> win_inv W \<and> dst W = addr"
proof -
  have s: "shape s xs" using assms(1) by (simp add: peer_inv_def)
  have rd: "payload_read p 0 (int HASH_SIZE) = Inr hash"
    using assms(4,5) by (simp add: payload_read_def mem_read_def HASH_SIZE_def)
  have port: "sin_port addr \<notin> port_of (info (hp s)) ` set (xs Uploading)" using assms(7) by auto
  from init_upload_inv [OF assms(1,2,6) port rd assms(5)] assms(8) obtain s' a n W where u:
    "init_upload p addr s = Inr (1, s')" "peer_inv s' (xs(Uploading := a # xs Uploading))"
    "concurr_upload_num (myupload (me s')) = concurr_upload_num (myupload (me s)) + 1"
    "info (hp s') a = Some n" "node_from n = addr" "node_hash n = hash" "congWin n = Some W" "win_inv W" "dst W = addr"
    by auto
  obtain r1 where "find_node_by_addr (hp s) (lst s Uploading) addr = Inr r1"
    "r1 = None \<longleftrightarrow> sin_port addr \<notin> port_of (info (hp s)) ` set (xs Uploading)" using find_addr [OF s] by metis
  moreover obtain r2 where "find_node_by_addr (hp s) (lst s Uploaded) addr = Inr r2"
    "r2 = None \<longleftrightarrow> sin_port addr \<notin> port_of (info (hp s)) ` set (xs Uploaded)" using find_addr [OF s] by metis
  ultimately have "find_node_by_addr (hp s) (lst s Uploading) addr = Inr None"
    "find_node_by_addr (hp s) (lst s Uploaded) addr = Inr None"
    using assms(7) by (simp_all add: image_Un)
  then have "dealwithincomepack p addr s = Inr s'"
    using assms(3,6) u(1) by (simp add: dealwithincomepack_def handle_get_def)
  with u show ?thesis by blast
qed

theorem get_starts_upload_witness:
  "\<exists>s' a n. dealwithincomepack (sample_request 2 (replicate 20 1)) (sample_addr_of 9) sample_peer = Inr s' \<and>
    info (hp s') a = Some n \<and> node_hash n = replicate 20 1 \<and> concurr_upload_num (myupload (me s')) = 2"
proof -
  have p: "Packet_Type (sample_request 2 (replicate 20 1)) = 2"
    "payload (sample_request 2 (replicate 20 1)) = Some (replicate 20 1 @ [])" "length (replicate 20 (1::byte)) = 20"
    by (simp_all add: sample_request_def hash_packet_def)
  have n: "concurr_upload_num (myupload (me sample_peer)) < max_upload_num (myupload (me sample_peer))"
    by (simp add: sample_peer_def)
  have a: "sin_port (sample_addr_of 9) \<notin> port_of (info (hp sample_peer)) ` (set (sample_lists Uploading) \<union> set (sample_lists Uploaded))"
    by (simp add: sample_peer_simps port_of_def sample_info sample_node_def sample_addr_of_def)
  have h: "replicate 20 1 \<in> hash_of (info (hp sample_peer)) ` set (sample_lists Has)"
    by (simp add: sample_peer_simps sample_hash)
  have "concurr_upload_num (myupload (me sample_peer)) = 1" by (simp add: sample_peer_def)
  with get_starts_upload [OF sample_inv sample_source p n a h] show ?thesis by fastforce
qed

lemma get_unknown:
  assumes i: "peer_inv s xs" and t: "Packet_Type p = 2" and pl: "payload p = Some (hash @ r)" "length hash = 20"
    and room: "concurr_upload_num (myupload (me s)) < max_upload_num (myupload (me s))"
    and port: "sin_port addr \<notin> port_of (info (hp s)) ` (set (xs Uploading) \<union> set (xs Uploaded))"
    and unknown: "hash \<notin> hash_of (info (hp s)) ` set (xs Has)"
  shows "dealwithincomepack p addr s = Inr (add_uploads 1 s)" "peer_inv (add_uploads 1 s) xs"
proof -
  have s: "shape s xs" using i by (simp add: peer_inv_def)
  have rd: "payload_read p 0 (int HASH_SIZE) = Inr hash"
    using pl by (simp add: payload_read_def mem_read_def HASH_SIZE_def)
  have "shape (add_uploads 1 s) xs" using s by (simp add: shape_def)
  then obtain rh where "find_node (hp s) (lst s Has) hash = Inr rh" "rh = None \<longleftrightarrow> hash \<notin> hash_of (info (hp s)) ` set (xs Has)"
    using find_hash_of [OF s pl(2)] by metis
  with unknown rd have u: "init_upload p addr s = Inr (-1, add_uploads 1 s)" by (simp add: init_upload_def Let_def)
  obtain r1 where "find_node_by_addr (hp s) (lst s Uploading) addr = Inr r1"
    "r1 = None \<longleftrightarrow> sin_port addr \<notin> port_of (info (hp s)) ` set (xs Uploading)" using find_addr [OF s] by metis
  moreover obtain r2 where "find_node_by_addr (hp s) (lst s Uploaded) addr = Inr r2"
    "r2 = None \<longleftrightarrow> sin_port addr \<notin> port_of (info (hp s)) ` set (xs Uploaded)" using find_addr [OF s] by metis
  ultimately show "dealwithincomepack p addr s = Inr (add_uploads 1 s)"
    using port room t u by (simp add: image_Un dealwithincomepack_def handle_get_def)
  show "peer_inv (add_uploads 1 s) xs" using i room by (auto simp: peer_inv_def shape_def counters_ok_def)
qed

lemma add_uploads_add: "add_uploads a (add_uploads b s) = add_uploads (b + a) s"
  by (simp add: add_uploads_def upd_up_def)

text \<open>
  C29. A GET for a chunk that the peer does not have is counted as an upload that nothing ever
  takes off the count: after as many of them as there is room, every GET is turned down.
\<close>

theorem unknown_gets_exhaust_uploads:
  assumes "peer_inv s xs" and "Packet_Type p = 2" and "payload p = Some (hash @ r)" "length hash = 20"
    and "sin_port addr \<notin> port_of (info (hp s)) ` (set (xs Uploading) \<union> set (xs Uploaded))"
    and "hash \<notin> hash_of (info (hp s)) ` set (xs Has)"
    and "max_upload_num (myupload (me s)) = concurr_upload_num (myupload (me s)) + int n"
  shows "run_steps packet_step s (replicate n (p, addr)) = Inr (add_uploads (int n) s) \<and>
    (\<forall>q to. Packet_Type q = 2 \<longrightarrow> dealwithincomepack q to (add_uploads (int n) s) = Inr (add_uploads (int n) s))"
  using assms
proof (induction n arbitrary: s)
  case 0
  then show ?case by (simp add: dealwithincomepack_def handle_get_def add_uploads_def upd_up_def)
next
  case (Suc n)
  then have room: "concurr_upload_num (myupload (me s)) < max_upload_num (myupload (me s))" by simp
  note g = get_unknown [OF Suc.prems(1-4) room Suc.prems(5,6)]
  have f: "info (hp (add_uploads 1 s)) = info (hp s)" by simp
  have m: "max_upload_num (myupload (me (add_uploads 1 s))) = concurr_upload_num (myupload (me (add_uploads 1 s))) + int n"
    using Suc.prems(7) by simp
  have e: "add_uploads (int n) (add_uploads 1 s) = add_uploads (int (Suc n)) s" by (simp add: add_uploads_add)
  have "packet_step s (p, addr) = Inr (add_uploads 1 s)" using g(1) by (simp add: packet_step_def)
  then show ?case
    using Suc.IH [OF g(2) Suc.prems(2-4) Suc.prems(5,6) [folded f] m] unfolding e by simp
qed

theorem unknown_gets_exhaust_uploads_witness:
  "dealwithincomepack (sample_request 2 (replicate 20 1)) (sample_addr_of 9) (add_uploads 2 sample_peer) = Inr (add_uploads 2 sample_peer)"
proof -
  let ?p = "sample_request 2 (replicate 20 9)"
  have p: "Packet_Type ?p = 2" "payload ?p = Some (replicate 20 9 @ [])" "length (replicate 20 (9::byte)) = 20"
    by (simp_all add: sample_request_def hash_packet_def)
  have a: "sin_port (sample_addr_of 9) \<notin> port_of (info (hp sample_peer)) ` (set (sample_lists Uploading) \<union> set (sample_lists Uploaded))"
    by (simp add: sample_peer_simps port_of_def sample_info sample_node_def sample_addr_of_def)
  have h: "replicate 20 9 \<notin> hash_of (info (hp sample_peer)) ` set (sample_lists Has)"
    by (simp add: sample_peer_simps sample_hash)
  have m: "max_upload_num (myupload (me sample_peer)) = concurr_upload_num (myupload (me sample_peer)) + int 2"
    by (simp add: sample_peer_def)
  have "Packet_Type (sample_request 2 (replicate 20 1)) = 2" by (simp add: sample_request_def hash_packet_def)
  with unknown_gets_exhaust_uploads [OF sample_inv p a h m] show ?thesis by simp
qed



text \<open>
  C17. \<open>WhoHas_sender\<close> terminates and asks for exactly the needed chunks that no offer, request
  or download claims, in the order of the list, in packets of one to fifty hashes, each
  broadcast to every other peer.
\<close>

theorem whohas_asks_open_chunks:
  assumes "peer_inv s xs"
  shows "\<exists>groups. WhoHas_sender (lst s Need) ps s =
      Inr (s\<lparr>wd := record_sent (wd s) (broadcasts (router (wd s)) (me_id (me s)) ps (whohas_packets groups))\<rparr>) \<and>
    concat groups = filter (\<lambda>x. x \<notin> hash_of (info (hp s)) ` claims xs) (map (hash_of (info (hp s))) (xs Need)) \<and>
    (\<forall>g\<in>set groups. g \<noteq> [] \<and> length g \<le> 50)"
proof -
  have "shape s xs" using assms by (simp add: peer_inv_def)
  from WhoHas_sender_result [OF this, of ps] show ?thesis by (simp add: unclaimed_in_def)
qed

theorem whohas_asks_open_chunks_witness:
  "\<exists>groups s'. WhoHas_sender (Some 1) (peers sample_config) sample_peer = Inr s' \<and> concat groups = [replicate 20 3] \<and>
    sent (wd s') = broadcasts (router quiet_world) 1 (peers sample_config) (whohas_packets groups)"
proof -
  have "lst sample_peer Need = Some 1" by (simp add: sample_peer_def)
  with whohas_asks_open_chunks [OF sample_inv, of "peers sample_config"] show ?thesis
    by (auto simp: sample_peer_simps claims_def sample_hash)
qed

text \<open>
  C16. A datagram, sent directly or through the router, whose bytes, behind those left over from
  earlier ones, are some packets and less than a header: exactly those packets are handled,
  in order and as sent by the host that sent them, and the rest stays in the buffer for the
  next datagram.
\<close>

theorem datagram_packets_in_order:
  assumes "holds b r" and "r @ msg = concat (map wire_bytes ps) @ r'" and "list_all wf_packet ps"
    and "length r' < 16" and "length r + length msg \<le> BUFLEN2" and "arrival (router (wd s)) d src msg"
  shows "\<exists>b'. holds b' r' \<and> process_inbound_udp junk (Some d) b s =
    ebind (run_steps packet_step s (map (\<lambda>p. (as_received p, src)) ps)) (\<lambda>s'. Inr (b', s'))"
proof -
  obtain b1 where "holds b1 (concat (map wire_bytes ps) @ r')" "process_inbound_udp junk (Some d) b s = inbound_loop b1 src s"
    using arrival_datagram [OF assms(6,1,5), of junk] unfolding assms(2) by auto
  with inbound_loop_holds [OF assms(3) this(1) assms(4), of src s] show ?thesis by auto
qed

theorem datagram_packets_in_order_witness:
  "\<exists>b' s'. process_inbound_udp (\<lambda>_. 0) (Some (sample_addr_of 9, wire_bytes (form_ACK_pack 1) @ [7])) zero_buf sample_peer
      = Inr (b', s') \<and> holds b' [7]"
proof -
  have h: "holds zero_buf []" by (simp add: holds_def zero_buf_def)
  have w: "list_all wf_packet [form_ACK_pack 1]"
    by (simp add: form_ACK_pack_wf)
  have l: "length [] + length (wire_bytes (form_ACK_pack 1) @ [7]) \<le> BUFLEN2"
    using length_wire_bytes [OF form_ACK_pack_wf [of 1]] by (simp add: BUFLEN2_def form_ACK_pack_def HEADER_LEN_def)
  have g: "arrival (router (wd sample_peer)) (sample_addr_of 9, wire_bytes (form_ACK_pack 1) @ [7])
      (sample_addr_of 9) (wire_bytes (form_ACK_pack 1) @ [7])"
    by (simp add: arrival_def sample_peer_simps quiet_world_def)
  obtain s' where "dealwithincomepack (as_received (form_ACK_pack 1)) (sample_addr_of 9) sample_peer = Inr s'"
  proof -
    have t: "Packet_Type (as_received (form_ACK_pack 1)) = 4" by (simp add: as_received_def form_ACK_pack_def)
    obtain r where r: "find_node_by_addr (hp sample_peer) (lst sample_peer Uploading) (sample_addr_of 9) = Inr r"
      "r = None \<longleftrightarrow> sin_port (sample_addr_of 9) \<notin> port_of (info (hp sample_peer)) ` set (sample_lists Uploading)"
      using find_addr [OF sample_shape] by metis
    then have "r = None"
      by (simp add: sample_peer_simps port_of_def sample_info sample_node_def sample_addr_of_def)
    with r(1) t that show ?thesis by (simp add: dealwithincomepack_def handle_ack_def)
  qed
  with datagram_packets_in_order [OF h _ w _ l g, of "[7]" "\<lambda>_. 0"] show ?thesis by auto
qed

text \<open>
  C30. A datagram that ends inside a packet is not kept until the rest arrives: the packet is
  completed with the bytes that lie behind it in the buffer from before and handled, the
  count of the buffer becomes negative, and the next datagram is written in front of it.
\<close>

theorem truncated_datagram_breaks_buffer:
  assumes "wf_packet p" and "16 \<le> n" "n < length (wire_bytes p)" and "length (wire_bytes p) \<le> BUFLEN2"
    and "holds b []" and "take (length (wire_bytes p) - n) (drop n (buf_bytes b)) = drop n (wire_bytes p)"
    and "\<not> giSpiffyEnabled (router (wd s))" and "msg \<noteq> []"
  shows "\<exists>b'. process_inbound_udp junk (Some (src, take n (wire_bytes p))) b s =
      ebind (dealwithincomepack (as_received p) src s) (\<lambda>s'. Inr (b', s')) \<and>
    buf_len b' < 0 \<and> (\<forall>s'. process_inbound_udp junk (Some (src', msg)) b' s' = Inl OutOfBounds)"
proof -
  let ?w = "wire_bytes p" and ?B = "buf_bytes b"
  let ?b1 = "b\<lparr>buf_bytes := take n ?w @ drop n ?B, buf_len := int n\<rparr>"
  have B: "length ?B = BUFLEN2" "buf_len b = 0" using assms(5) by (auto simp: holds_def)
  have "mem_write ?B 0 (take n ?w) = Inr (take n ?w @ drop n ?B)" using assms(3,4) B by (auto simp: mem_write_def)
  moreover have "nat (int BUFLEN2 - buf_len b) = BUFLEN2" "take BUFLEN2 (take n ?w) = take n ?w" using B assms(3,4) by simp_all
  ultimately have pr: "process_inbound_udp junk (Some (src, take n ?w)) b s = inbound_loop ?b1 src s"
    using assms(3,4,7) B by (simp add: process_inbound_udp_def spiffy_recvfrom_def plain_recvfrom_def min_def)
  let ?f = "?b1\<lparr>buf_len := int (length ?w)\<rparr>"
  have "take (length ?w) (take n ?w @ drop n ?B) = ?w" using assms(3,6) by (simp add: min_def)
  then have "holds ?f (?w @ [])" using assms(3,4) B by (simp add: holds_def)
  from get_firstpack_holds [OF assms(1) this] obtain b2 where b2:
    "get_firstpack ?f zero_packet = Inr (b2, as_received p)" "buf_len b2 = 0" by (auto simp: as_received_def holds_def)
  have g: "get_firstpack ?b1 zero_packet = Inr (b2\<lparr>buf_len := int n - int (length ?w)\<rparr>, as_received p)"
    using get_firstpack_recount [OF b2(1), of "int n"] b2(2) assms(2,3) by (simp add: HEADER_LEN_def)
  let ?b' = "b2\<lparr>buf_len := int n - int (length ?w)\<rparr>"
  have stop: "inbound_loop ?b' src = (\<lambda>s'. Inr (?b', s'))"
    using assms(3) by (intro ext, subst inbound_loop.simps) (simp add: HEADER_LEN_def)
  have "inbound_loop ?b1 src s = ebind (dealwithincomepack (as_received p) src s) (\<lambda>s'. Inr (?b', s'))"
    using assms(2) g by (subst inbound_loop.simps) (simp add: HEADER_LEN_def stop cong: ebind_cong)
  moreover have "buf_len ?b' < 0" using assms(3) by simp
  ultimately show ?thesis using pr negative_buffer_faults [of ?b' msg] assms(8) by metis
qed

theorem truncated_datagram_breaks_buffer_witness:
  "\<exists>p b'. process_inbound_udp (\<lambda>_. 0) (Some (sample_addr_of 9, take 20 (wire_bytes p))) zero_buf sample_peer =
      Inr (b', sample_peer) \<and> process_inbound_udp (\<lambda>_. 0) (Some (sample_addr_of 9, drop 20 (wire_bytes p))) b' sample_peer =
      Inl OutOfBounds"
proof -
  let ?p = "hash_packet 0 1 (replicate 20 0)"
  have wf: "wf_packet ?p" by (rule hash_packet_wf) (simp_all add: HASH_SIZE_def)
  have wb: "wire_bytes ?p = wire_header ?p @ [1, 0, 0, 0] @ replicate 20 0"
    by (simp add: wire_bytes_def overhead_def body_def hash_packet_def zero_packet_def)
  have n: "16 \<le> (20::nat)" "20 < length (wire_bytes ?p)" "length (wire_bytes ?p) \<le> BUFLEN2"
    unfolding wb by (simp_all add: BUFLEN2_def)
  have h: "holds zero_buf []" by (simp add: holds_def zero_buf_def)
  have st: "take (length (wire_bytes ?p) - 20) (drop 20 (buf_bytes zero_buf)) = drop 20 (wire_bytes ?p)"
    unfolding wb by (simp add: zero_buf_def BUFLEN2_def)
  have g: "\<not> giSpiffyEnabled (router (wd sample_peer))" by (simp add: sample_peer_simps quiet_world_def)
  have c: "carries_hashes (as_received ?p) [replicate 20 0]"
    by (simp add: carries_hashes_def as_received_def hash_packet_def zero_packet_def)
  have "having sample_peer sample_lists [replicate 20 0] = []" by (simp add: having_def sample_peer_simps sample_hash)
  then have "IHav_sender (as_received ?p) (lst sample_peer Has) (sample_addr_of 9) sample_peer = Inr sample_peer"
    using IHav_sender_result [OF sample_shape c, of "sample_addr_of 9"] by simp
  moreover have "Packet_Type (as_received ?p) = 0" by (simp add: as_received_def hash_packet_def)
  ultimately have "dealwithincomepack (as_received ?p) (sample_addr_of 9) sample_peer = Inr sample_peer"
    by (simp add: dealwithincomepack_def)
  moreover have "drop 20 (wire_bytes ?p) \<noteq> []" using n(2) by simp
  ultimately show ?thesis
    using truncated_datagram_breaks_buffer [OF wf n h st g, of "drop 20 (wire_bytes ?p)" "\<lambda>_. 0" "sample_addr_of 9" "sample_addr_of 9"]
    by auto
qed

end
