(* ===== verification/PeerRequests.thy ===== *)
theory PeerRequests
  imports PeerServe
begin

text \<open>
  The requests of \<^verbatim>\<open>peer.c\<close>: GET packets for the chunks that other peers have offered, and
  the requests that are dropped when no data comes.
\<close>

section \<open>Dropping and sending requests\<close>

text \<open>\<open>check_timeout\<close> with \<open>list\<close> the address of the list of sent requests, as it is called.\<close>

fun timeout_loop :: "nat \<Rightarrow> int \<Rightarrow> ptr \<Rightarrow> int \<Rightarrow> peer \<Rightarrow> (int \<times> peer) res" where
  "timeout_loop fuel currtm None count s = Inr (count, s)"
| "timeout_loop 0 currtm (Some a) count s = Inl Hang"
| "timeout_loop (Suc fuel) currtm (Some a) count s =
     ebind (load (hp s) (Some a)) (\<lambda>n.
     let elapse = currtm - node_time n
     in if elapse > 5 * TIMEOUT_SEC
        then ebind (delete_in Sent (Some a) s) (\<lambda>s1.
             timeout_loop fuel currtm (next_node n) (count + 1) (add_found (-1) (add_downloads (-1) s1)))
        else timeout_loop fuel currtm (next_node n) count s)"

definition check_timeout :: "peer \<Rightarrow> (int \<times> peer) res" where
  "check_timeout s =
     (case time_now (wd s) of (currtm, w) \<Rightarrow>
        timeout_loop (Suc (fresh (hp s))) currtm (lst s Sent) 0 (s\<lparr>wd := w\<rparr>))"

definition send_get :: "ptr \<Rightarrow> peer \<Rightarrow> peer res" where
  "send_get node s =
     ebind (move_in Sent To_send node s) (\<lambda>s1.
     ebind (stamp_node node s1) (\<lambda>s2.
     ebind (load (hp s2) node) (\<lambda>n.
     ebind (form_GET n) (\<lambda>get_pack.
     ebind (send_pack (wd s2) get_pack (node_from n)) (\<lambda>(_, w). Inr (s2\<lparr>wd := w\<rparr>))))))"

text \<open>
  The loop of \<open>pick_tosend_GET\<close>. The list heads it compares with are copied before the loop
  and not updated when a node is moved.
\<close>

fun pick_loop :: "nat \<Rightarrow> ptr \<Rightarrow> ptr \<Rightarrow> int \<Rightarrow> ptr \<Rightarrow> int \<Rightarrow> peer \<Rightarrow> (int \<times> peer) res" where
  "pick_loop fuel sent_list download_list maxpick_num None count s = Inr (count, s)"
| "pick_loop 0 sent_list download_list maxpick_num (Some a) count s =
     (if count < maxpick_num then Inl Hang else Inr (count, s))"
| "pick_loop (Suc fuel) sent_list download_list maxpick_num (Some a) count s =
     (if count < maxpick_num
      then ebind (load (hp s) (Some a)) (\<lambda>n.
           ebind (find_node_by_addr (hp s) sent_list (node_from n)) (\<lambda>r1.
           ebind (if r1 = None then find_node_by_addr (hp s) download_list (node_from n) else Inr r1) (\<lambda>r2.
           ebind (if r2 = None then send_get (Some a) s else Inr s) (\<lambda>s1.
           ebind (load (hp s1) (Some a)) (\<lambda>n1.
           pick_loop fuel sent_list download_list maxpick_num (next_node n1)
             (if r2 = None then count + 1 else count) s1)))))
      else Inr (count, s))"

definition pick_tosend_GET :: "int \<Rightarrow> peer \<Rightarrow> (int \<times> peer) res" where
  "pick_tosend_GET maxpick_num s =
     pick_loop (Suc (fresh (hp s))) (lst s Sent) (lst s Downloading) maxpick_num (lst s To_send) 0 s"

definition GET_sender :: "peer \<Rightarrow> (int \<times> peer) res" where
  "GET_sender s =
     (let max_send = max_download_num (mydownload (me s)) - concurr_download_num (mydownload (me s))
      in if max_send = 0 then Inr (0, s)
         else ebind (pick_tosend_GET max_send s) (\<lambda>(curr_down, s1).
              Inr (curr_down, add_downloads curr_down s1)))"

section \<open>Walking a list that changes\<close>

text \<open>
  The loops of \<open>peer.c\<close> keep a cursor into a list while they move or delete its nodes. The
  cursor is determined by the nodes still ahead of it.
\<close>

definition first_of :: "nat list \<Rightarrow> ptr" where
  "first_of ys = (case ys of [] \<Rightarrow> None | y # _ \<Rightarrow> Some y)"

lemma first_of_simps [simp]: "first_of [] = None" "first_of (y # ys) = Some y"
  by (simp_all add: first_of_def)

lemma lseg_first: "lseg h p xs None \<Longrightarrow> p = first_of xs"
  by (cases xs) auto

lemma cursor_start: "shape s xs \<Longrightarrow> lst s l = first_of (xs l)"
  using lists_okD(2) [OF shapeD(1), of s xs l] by (simp add: is_list_def lseg_first)

lemma cursor_list: "is_list h p (us @ ys) \<Longrightarrow> is_list h (first_of ys) ys"
  by (auto simp: is_list_def lseg_append dest: lseg_first)

lemma cursor_next:
  assumes "shape s xs" and "xs l = us @ a # ys"
  obtains m where "load (hp s) (Some a) = Inr m" and "next_node m = first_of ys" and "info (hp s) a = Some (unlinked m)"
proof -
  have "is_list (hp s) (Some a) (a # ys)"
    using cursor_list [of "hp s" "lst s l" us "a # ys"] lists_okD(2) [OF shapeD(1) [OF assms(1)], of l] assms(2) by simp
  then obtain m where "nodes (hp s) a = Some m" "lseg (hp s) (next_node m) ys None" by (auto simp: is_list_def)
  then show ?thesis using that lseg_first [of "hp s" "next_node m" ys] by (simp add: load_def info_def)
qed

lemma distinct_allocated:
  assumes "shape s xs" and "distinct as" and "set as \<subseteq> (\<Union>l. set (xs l))"
  shows "length as \<le> fresh (hp s)"
proof -
  have "a < fresh (hp s)" if "a \<in> set as" for a
  proof -
    have "a \<in> (\<Union>l. set (xs l))" using that assms(3) by blast
    then obtain l where "a \<in> set (xs l)" by blast
    then have "info (hp s) a \<noteq> None" using shapeD(5) [OF assms(1)] by blast
    then show ?thesis using lists_okD(1) [OF shapeD(1) [OF assms(1)]] by (auto simp: heap_ok_def info_def)
  qed
  then have "card (set as) \<le> card {..<fresh (hp s)}" by (intro card_mono) auto
  with distinct_card [OF assms(2)] show ?thesis by simp
qed

lemma remove1_middle: "distinct (us @ a # ys) \<Longrightarrow> remove1 a (us @ a # ys) = us @ ys"
  by (simp add: remove1_append)

section \<open>Requests that time out\<close>

text \<open>A request still has time at the reading \<open>t\<close> of the clock.\<close>

definition pending :: "contents \<Rightarrow> int \<Rightarrow> nat \<Rightarrow> bool" where
  "pending I t a \<longleftrightarrow> t - node_time (the (I a)) \<le> 5 * TIMEOUT_SEC"

text \<open>Dropping one request, with the two counters that go down.\<close>

lemma drop_request_inv:
  assumes i: "peer_inv s xs" and a: "a \<in> set (xs l)" and l: "l = Sent \<or> l = Downloading"
  shows "\<exists>s1. delete_in l (Some a) s = Inr s1 \<and>
    peer_inv (add_found (-1) (add_downloads (-1) s1)) (xs(l := remove1 a (xs l))) \<and>
    info (hp s1) = (info (hp s))(a := None) \<and> scalars s1 = scalars s \<and> wd s1 = wd s"
proof -
  have ck: "counters_ok s xs" using i by (simp add: peer_inv_def)
  have "l \<noteq> Need" using l by auto
  from delete_in_inv [OF i a this] obtain s1 where d: "delete_in l (Some a) s = Inr s1"
    "shape s1 (xs(l := remove1 a (xs l)))" "nodes_ok (info (hp s1)) (xs(l := remove1 a (xs l)))"
    "requests_ok (info (hp s1)) (xs(l := remove1 a (xs l)))" "info (hp s1) = (info (hp s))(a := None)"
    "scalars s1 = scalars s" "wd s1 = wd s" by auto
  have n: "int (length (xs l)) = int (length (remove1 a (xs l))) + 1"
    using length_remove1_member [OF a] by simp
  have "counters_ok (add_found (-1) (add_downloads (-1) s1)) (xs(l := remove1 a (xs l)))"
    using ck l n scalarsD [OF d(6)] by (auto simp: counters_ok_def)
  moreover have "shape (add_found (-1) (add_downloads (-1) s1)) (xs(l := remove1 a (xs l)))"
    using d(2) by (simp add: shape_def)
  ultimately show ?thesis using d by (auto simp: peer_inv_def)
qed

lemma timeout_loop_inv:
  assumes "peer_inv s xs" and "xs Sent = us @ ys" and "length ys \<le> fuel"
  shows "\<exists>s'. timeout_loop fuel t (first_of ys) c s =
      Inr (c + int (length (filter (\<lambda>a. \<not> pending (info (hp s)) t a) ys)), s') \<and>
    peer_inv s' (xs(Sent := us @ filter (pending (info (hp s)) t) ys)) \<and>
    (\<forall>a. info (hp s') a = (if a \<in> set ys \<and> \<not> pending (info (hp s)) t a then None else info (hp s) a)) \<and>
    config s' = config s \<and> wd s' = wd s"
  using assms
proof (induction ys arbitrary: us c s fuel xs)
  case Nil
  then show ?case using fun_upd_triv [of xs Sent] by (cases fuel) (auto intro: exI [of _ s])
next
  case (Cons a ys)
  obtain k where k: "fuel = Suc k" "length ys \<le> k" using Cons.prems(3) by (cases fuel) auto
  have s: "shape s xs" using Cons.prems(1) by (simp add: peer_inv_def)
  obtain m where m: "load (hp s) (Some a) = Inr m" "next_node m = first_of ys" "info (hp s) a = Some (unlinked m)"
    by (rule cursor_next [OF s Cons.prems(2)])
  have p: "pending (info (hp s)) t a \<longleftrightarrow> \<not> t - node_time m > 5 * TIMEOUT_SEC"
    by (auto simp: pending_def m(3))
  have dist: "distinct (us @ a # ys)" using shapeD(4) [OF s, of Sent] Cons.prems(2) by simp
  show ?case
  proof (cases "pending (info (hp s)) t a")
    case True
    have "xs Sent = (us @ [a]) @ ys" using Cons.prems(2) by simp
    from Cons.IH [OF Cons.prems(1) this k(2), of c] obtain s' where
      "timeout_loop k t (first_of ys) c s = Inr (c + int (length (filter (\<lambda>a. \<not> pending (info (hp s)) t a) ys)), s')"
      "peer_inv s' (xs(Sent := (us @ [a]) @ filter (pending (info (hp s)) t) ys))"
      "\<forall>b. info (hp s') b = (if b \<in> set ys \<and> \<not> pending (info (hp s)) t b then None else info (hp s) b)"
      "config s' = config s" "wd s' = wd s" by blast
    moreover have "timeout_loop fuel t (first_of (a # ys)) c s = timeout_loop k t (first_of ys) c s"
      using k(1) m p True by simp
    ultimately show ?thesis using True by (intro exI [of _ s']) (auto simp: fun_upd_def)
  next
    case False
    have a: "a \<in> set (xs Sent)" using Cons.prems(2) by simp
    from drop_request_inv [OF Cons.prems(1) a] obtain s1 where s1: "delete_in Sent (Some a) s = Inr s1"
      "peer_inv (add_found (-1) (add_downloads (-1) s1)) (xs(Sent := remove1 a (xs Sent)))"
      "info (hp s1) = (info (hp s))(a := None)" "scalars s1 = scalars s" "wd s1 = wd s" by auto
    let ?s1 = "add_found (-1) (add_downloads (-1) s1)" and ?xs = "xs(Sent := us @ ys)"
    have i1: "peer_inv ?s1 ?xs" using s1(2) remove1_middle [OF dist] by (simp add: Cons.prems(2))
    have same: "pending (info (hp ?s1)) t b = pending (info (hp s)) t b" if "b \<in> set ys" for b
      using that dist by (auto simp: pending_def s1(3))
    have f: "filter (pending (info (hp ?s1)) t) ys = filter (pending (info (hp s)) t) ys"
      "filter (\<lambda>a. \<not> pending (info (hp ?s1)) t a) ys = filter (\<lambda>a. \<not> pending (info (hp s)) t a) ys"
      using same by (auto intro: filter_cong)
    have "?xs Sent = us @ ys" by simp
    from Cons.IH [OF i1 this k(2), of "c + 1"] obtain s' where r:
      "timeout_loop k t (first_of ys) (c + 1) ?s1 = Inr (c + 1 + int (length (filter (\<lambda>a. \<not> pending (info (hp s)) t a) ys)), s')"
      "peer_inv s' (?xs(Sent := us @ filter (pending (info (hp s)) t) ys))"
      "\<forall>b. info (hp s') b = (if b \<in> set ys \<and> \<not> pending (info (hp ?s1)) t b then None else info (hp ?s1) b)"
      "config s' = config ?s1" "wd s' = wd ?s1" unfolding f by blast
    have step: "timeout_loop fuel t (first_of (a # ys)) c s = timeout_loop k t (first_of ys) (c + 1) ?s1"
      using k(1) m p False s1(1) by simp
    have "info (hp s') b = (if b \<in> set (a # ys) \<and> \<not> pending (info (hp s)) t b then None else info (hp s) b)" for b
      using r(3) same [of b] False dist by (cases "b = a") (auto simp: s1(3))
    moreover have "peer_inv s' (xs(Sent := us @ filter (pending (info (hp s)) t) (a # ys)))"
      using r(2) False by simp
    moreover have "timeout_loop fuel t (first_of (a # ys)) c s =
        Inr (c + int (length (filter (\<lambda>a. \<not> pending (info (hp s)) t a) (a # ys))), s')"
      using r(1) False unfolding step by simp
    moreover have "config s' = config s" "wd s' = wd s" using r(4,5) scalarsD(1) [OF s1(4)] s1(5) by simp_all
    ultimately show ?thesis by blast
  qed
qed

text \<open>
  \<open>check_timeout\<close> drops exactly the requests that are older than ten seconds and keeps the
  invariant.
\<close>

lemma check_timeout_inv:
  assumes i: "peer_inv s xs"
  defines "keep \<equiv> pending (info (hp s)) (fst (time_now (wd s)))"
  shows "\<exists>s'. check_timeout s = Inr (int (length (filter (\<lambda>a. \<not> keep a) (xs Sent))), s') \<and>
    peer_inv s' (xs(Sent := filter keep (xs Sent))) \<and>
    (\<forall>a. info (hp s') a = (if a \<in> set (xs Sent) \<and> \<not> keep a then None else info (hp s) a)) \<and> peer_frame s s' \<and>
    wd s' = snd (time_now (wd s))"
proof -
  obtain t w where t: "time_now (wd s) = (t, w)" "w = (wd s)\<lparr>ticks := Suc (ticks (wd s))\<rparr>" by (simp add: time_now_def)
  have i1: "peer_inv (s\<lparr>wd := w\<rparr>) xs" using i by simp
  have s: "shape s xs" using i by (simp add: peer_inv_def)
  have "length (xs Sent) \<le> fresh (hp s)" using shapeD(4) [OF s] by (intro distinct_allocated [OF s]) auto
  then have "length (xs Sent) \<le> Suc (fresh (hp s))" by simp
  from timeout_loop_inv [OF i1 _ this, of "[]" t 0] obtain s' where
    "timeout_loop (Suc (fresh (hp s))) t (first_of (xs Sent)) 0 (s\<lparr>wd := w\<rparr>) =
      Inr (int (length (filter (\<lambda>a. \<not> pending (info (hp s)) t a) (xs Sent))), s')"
    "peer_inv s' (xs(Sent := filter (pending (info (hp s)) t) (xs Sent)))"
    "\<forall>a. info (hp s') a = (if a \<in> set (xs Sent) \<and> \<not> pending (info (hp s)) t a then None else info (hp s) a)"
    "config s' = config s" "wd s' = w" by auto
  then show ?thesis
    using t cursor_start [OF s, of Sent] by (auto simp: check_timeout_def keep_def peer_frame_def)
qed

section \<open>Sending requests\<close>

text \<open>Moving an offer to the requests, stamping it and sending its GET packet.\<close>

lemma send_get_inv:
  assumes i: "peer_inv s xs" and a: "a \<in> set (xs To_send)"
    and free: "port_of (info (hp s)) a \<notin> port_of (info (hp s)) ` running xs"
    and room: "concurr_download_num (mydownload (me s)) < max_download_num (mydownload (me s))"
  defines "xs' \<equiv> xs(To_send := remove1 a (xs To_send), Sent := a # xs Sent)"
  shows "\<exists>s' n t p. send_get (Some a) s = Inr s' \<and> peer_inv (add_downloads 1 s') xs' \<and> peer_frame s s' \<and>
    info (hp s) a = Some n \<and> info (hp s') = (info (hp s))(a \<mapsto> n\<lparr>node_time := t\<rparr>) \<and> form_GET n = Inr p \<and>
    sent (wd s') = sent (wd s) @ emitted (router (wd s)) (node_from n) (wire_bytes p)"
proof -
  let ?I = "info (hp s)"
  have s: "shape s xs" and nk: "nodes_ok ?I xs" and rq: "requests_ok ?I xs" and ck: "counters_ok s xs"
    using i by (auto simp: peer_inv_def)
  obtain n where n: "?I a = Some n" "node_ok To_send n" using nk a by (rule nodes_okD)
  from move_in_shape [OF s a, of Sent] obtain s1 where s1: "move_in Sent To_send (Some a) s = Inr s1"
    "shape s1 xs'" "info (hp s1) = ?I" "scalars s1 = scalars s" "wd s1 = wd s" by (auto simp: xs'_def)
  have "info (hp s1) a = Some n" using n(1) s1(3) by simp
  from stamp_node_shape [OF s1(2) this] obtain s2 t where s2: "stamp_node (Some a) s1 = Inr s2" "shape s2 xs'"
    "info (hp s2) = ?I(a \<mapsto> n\<lparr>node_time := t\<rparr>)" "scalars s2 = scalars s1"
    "wd s2 = (wd s)\<lparr>ticks := Suc (ticks (wd s))\<rparr>" using s1(3,5) by auto
  have "info (hp s2) a = Some (n\<lparr>node_time := t\<rparr>)" by (simp add: s2(3))
  then obtain m where m: "load (hp s2) (Some a) = Inr m" "unlinked m = n\<lparr>node_time := t\<rparr>"
    using load_info by blast
  have mf: "node_hash m = node_hash n" "node_from m = node_from n"
    using m(2) unlinked_simps(1,2) [of m] by simp_all
  have len: "length (node_hash n) = 20" using n(2) by (simp add: node_ok_def)
  obtain p where p: "form_GET n = Inr p" "wf_packet p" using form_GET_result [OF len] by blast
  have pm: "form_GET m = Inr p" using p(1) mf by (simp add: form_GET_def)
  from send_pack_wf [OF p(2), of "wd s2" "node_from n"] obtain ret where ret:
    "send_pack (wd s2) p (node_from n) = Inr (ret, record_sent (wd s2) (emitted (router (wd s2)) (node_from n) (wire_bytes p)))"
    by blast
  let ?s3 = "s2\<lparr>wd := record_sent (wd s2) (emitted (router (wd s2)) (node_from n) (wire_bytes p))\<rparr>"
  have run: "send_get (Some a) s = Inr ?s3" using s1(1) s2(1) m(1) pm ret mf by (simp add: send_get_def)
  have apart: "a \<notin> set (xs' l)" if "l \<noteq> Sent" for l
    using that a shapeD(3) [OF s, of To_send l] shapeD(4) [OF s, of To_send] by (auto simp: xs'_def)
  have nk3: "nodes_ok (info (hp ?s3)) xs'"
  proof -
    have "nodes_ok (?I(a \<mapsto> n\<lparr>node_time := t\<rparr>)) xs'"
    proof (rule nodes_ok_put [OF nk])
      show "node_ok l (n\<lparr>node_time := t\<rparr>)" if "a \<in> set (xs' l)" for l
        using apart [of l] that n(2) by (cases "l = Sent") (auto simp: node_ok_def)
    qed (use set_remove1_subset [of a "xs To_send"] in \<open>auto simp: xs'_def\<close>)
    then show ?thesis by (simp add: s2(3))
  qed
  have rq3: "requests_ok (info (hp ?s3)) xs'"
  proof -
    have "claims xs' = claims xs" "running xs' = insert a (running xs)"
      using a shapeD(4) [OF s, of To_send] by (auto simp: claims_def running_def xs'_def)
    moreover have "a \<notin> running xs"
      using a shapeD(3) [OF s, of To_send Sent] shapeD(3) [OF s, of To_send Downloading] by (auto simp: running_def)
    ultimately have "requests_ok ?I xs'" using rq free by (simp add: requests_ok_def inj_on_insert xs'_def)
    then show ?thesis
      using requests_ok_cong [of xs' "info (hp ?s3)" ?I] n(1) by (simp add: s2(3) key_of_def hash_of_def port_of_def)
  qed
  have "counters_ok (add_downloads 1 ?s3) xs'"
    using ck room scalarsD [of s2 s] s2(4) s1(4) by (auto simp: counters_ok_def xs'_def)
  moreover have "shape (add_downloads 1 ?s3) xs'" using s2(2) by (simp add: shape_def)
  ultimately have inv: "peer_inv (add_downloads 1 ?s3) xs'" using nk3 rq3 by (simp add: peer_inv_def)
  have "peer_frame s ?s3" using scalarsD(1) [of s2 s] s2(4,5) s1(4) by (simp add: peer_frame_def calm_def)
  moreover have "sent (wd ?s3) = sent (wd s) @ emitted (router (wd s)) (node_from n) (wire_bytes p)"
    by (simp add: s2(5))
  moreover have "info (hp ?s3) = ?I(a \<mapsto> n\<lparr>node_time := t\<rparr>)" using s2(3) by simp
  ultimately show ?thesis
    using run inv n(1) p(1) by (intro exI [of _ ?s3] exI [of _ n] exI [of _ t] exI [of _ p]) simp
qed

text \<open>
  The walk over the offers. Offers from hosts that serve a request are passed over; the first
  other one is sent.
\<close>

definition offer_busy :: "contents \<Rightarrow> (list_var \<Rightarrow> nat list) \<Rightarrow> nat \<Rightarrow> bool" where
  "offer_busy I xs a \<longleftrightarrow> port_of I a \<in> port_of I ` running xs"

lemma find_from:
  assumes "shape s xs" and "load (hp s) (Some a) = Inr m"
  obtains r where "find_node_by_addr (hp s) (lst s l) (node_from m) = Inr r"
    and "r = None \<longleftrightarrow> port_of (info (hp s)) a \<notin> port_of (info (hp s)) ` set (xs l)"
proof -
  have "sin_port (node_from m) = port_of (info (hp s)) a"
    using assms(2) by (auto simp: load_def port_of_def info_def split: option.splits)
  then show ?thesis using find_addr [OF assms(1), of l "node_from m"] that by metis
qed

lemma pick_loop_busy:
  assumes s: "shape s xs" and "xs To_send = us @ vs @ ys" and "\<forall>a\<in>set vs. offer_busy (info (hp s)) xs a"
    and "0 < maxn" and "length vs \<le> fuel"
  shows "pick_loop fuel (lst s Sent) (lst s Downloading) maxn (first_of (vs @ ys)) 0 s =
    pick_loop (fuel - length vs) (lst s Sent) (lst s Downloading) maxn (first_of ys) 0 s"
  using assms(2,3,5)
proof (induction vs arbitrary: us fuel)
  case Nil
  then show ?case by simp
next
  case (Cons a vs)
  obtain k where k: "fuel = Suc k" "length vs \<le> k" using Cons.prems(3) by (cases fuel) auto
  have split: "xs To_send = us @ a # vs @ ys" using Cons.prems(1) by simp
  obtain m where m: "load (hp s) (Some a) = Inr m" "next_node m = first_of (vs @ ys)"
    by (rule cursor_next [OF s split]) blast
  obtain r1 where r1: "find_node_by_addr (hp s) (lst s Sent) (node_from m) = Inr r1"
    "r1 = None \<longleftrightarrow> port_of (info (hp s)) a \<notin> port_of (info (hp s)) ` set (xs Sent)" by (rule find_from [OF s m(1)])
  obtain r2 where r2: "find_node_by_addr (hp s) (lst s Downloading) (node_from m) = Inr r2"
    "r2 = None \<longleftrightarrow> port_of (info (hp s)) a \<notin> port_of (info (hp s)) ` set (xs Downloading)" by (rule find_from [OF s m(1)])
  have "offer_busy (info (hp s)) xs a" using Cons.prems(2) by simp
  then have "\<not> (r1 = None \<and> r2 = None)" unfolding r1(2) r2(2) by (auto simp: offer_busy_def running_def)
  then have "pick_loop fuel (lst s Sent) (lst s Downloading) maxn (Some a) 0 s =
      pick_loop k (lst s Sent) (lst s Downloading) maxn (first_of (vs @ ys)) 0 s"
    using k(1) m r1(1) r2(1) assms(4) by auto
  moreover have "xs To_send = (us @ [a]) @ vs @ ys" using split by simp
  ultimately show ?case using Cons.IH [of "us @ [a]" k] Cons.prems(2) k by simp
qed

text \<open>
  After the first request the cursor stands on the old head of the list of requests, and the
  loop walks over that list: every node on it is found in it, so nothing more is sent.
\<close>

lemma pick_loop_after:
  assumes "is_list (hp s) sent0 zs" and "zs = us @ vs" and "heap_ok (hp s)" and "length vs \<le> fuel"
  shows "pick_loop fuel sent0 down0 maxn (first_of vs) c s = Inr (c, s)"
  using assms(2,4)
proof (induction vs arbitrary: us fuel)
  case Nil
  then show ?case by simp
next
  case (Cons a vs)
  obtain k where k: "fuel = Suc k" "length vs \<le> k" using Cons.prems(2) by (cases fuel) auto
  have "is_list (hp s) (Some a) (a # vs)"
    using cursor_list [of "hp s" sent0 us "a # vs"] assms(1) Cons.prems(1) by simp
  then obtain m where m: "nodes (hp s) a = Some m" "next_node m = first_of vs"
    by (auto simp: is_list_def lseg_first)
  have "find_node_by_addr (hp s) sent0 (node_from m) =
      Inr (find (\<lambda>b. same_addr (node_from (the (nodes (hp s) b))) (node_from m)) zs)"
    unfolding find_node_by_addr_def by (rule search_list [OF assms(1,3)])
  moreover have "find (\<lambda>b. same_addr (node_from (the (nodes (hp s) b))) (node_from m)) zs \<noteq> None"
    using Cons.prems(1) m(1) by (auto simp: find_None_iff same_addr_port)
  ultimately obtain b where "find_node_by_addr (hp s) sent0 (node_from m) = Inr (Some b)" by auto
  then have "pick_loop fuel sent0 down0 maxn (Some a) c s =
      (if c < maxn then pick_loop k sent0 down0 maxn (first_of vs) c s else Inr (c, s))"
    using k(1) m by (simp add: load_def)
  moreover have "zs = (us @ [a]) @ vs" using Cons.prems(1) by simp
  ultimately show ?case using Cons.IH [of "us @ [a]" k] k(2) by simp
qed

lemma add_downloads_0 [simp]: "add_downloads 0 s = s"
  by (simp add: add_downloads_def upd_down_def)

lemma pick_loop_first:
  assumes i: "peer_inv s xs" and split: "xs To_send = us @ a # ys"
    and us: "\<forall>b\<in>set us. offer_busy (info (hp s)) xs b" and a: "\<not> offer_busy (info (hp s)) xs a"
    and s1: "send_get (Some a) s = Inr s1" "shape s1 (xs(To_send := us @ ys, Sent := a # xs Sent))" and pos: "0 < maxn"
  shows "pick_tosend_GET maxn s = Inr (1, s1)"
proof -
  let ?I = "info (hp s)" and ?xs = "xs(To_send := us @ ys, Sent := a # xs Sent)"
  have s: "shape s xs" using i by (simp add: peer_inv_def)
  obtain m where m: "load (hp s) (Some a) = Inr m" by (rule cursor_next [OF s split])
  obtain r1 where r1: "find_node_by_addr (hp s) (lst s Sent) (node_from m) = Inr r1"
    "r1 = None \<longleftrightarrow> port_of ?I a \<notin> port_of ?I ` set (xs Sent)" by (rule find_from [OF s m])
  obtain r2 where r2: "find_node_by_addr (hp s) (lst s Downloading) (node_from m) = Inr r2"
    "r2 = None \<longleftrightarrow> port_of ?I a \<notin> port_of ?I ` set (xs Downloading)" by (rule find_from [OF s m])
  have none: "r1 = None" "r2 = None" using a r1(2) r2(2) by (auto simp: offer_busy_def running_def)
  have dist: "distinct ((us @ [a]) @ xs Sent)"
  proof -
    have "distinct (us @ a # ys)" using shapeD(4) [OF s, of To_send] split by simp
    moreover have "set (us @ a # ys) \<inter> set (xs Sent) = {}" using shapeD(3) [OF s, of To_send Sent] split by simp
    ultimately show ?thesis using shapeD(4) [OF s, of Sent] by auto
  qed
  have "set ((us @ [a]) @ xs Sent) \<subseteq> set (xs To_send) \<union> set (xs Sent)" using split by auto
  then have "set ((us @ [a]) @ xs Sent) \<subseteq> (\<Union>l. set (xs l))" by blast
  from distinct_allocated [OF s dist this] have fuel: "length us + 1 + length (xs Sent) \<le> fresh (hp s)" by simp
  let ?k = "fresh (hp s) - length us"
  have "length us \<le> Suc (fresh (hp s))" using fuel by simp
  from pick_loop_busy [OF s _ us pos this, of "[]" "a # ys"] split cursor_start [OF s, of To_send]
  have walk: "pick_tosend_GET maxn s = pick_loop (Suc ?k) (lst s Sent) (lst s Downloading) maxn (Some a) 0 s"
    using fuel by (simp add: pick_tosend_GET_def Suc_diff_le)
  have "?xs Sent = [] @ a # xs Sent" by simp
  then obtain m1 where m1: "load (hp s1) (Some a) = Inr m1" "next_node m1 = first_of (xs Sent)"
    by (rule cursor_next [OF s1(2)])
  have "is_list (hp s1) (first_of (xs Sent)) (xs Sent)"
    using cursor_list [of "hp s1" "lst s1 Sent" "[a]" "xs Sent"] lists_okD(2) [OF shapeD(1) [OF s1(2)], of Sent] by simp
  moreover have "heap_ok (hp s1)" by (rule lists_okD(1) [OF shapeD(1) [OF s1(2)]])
  moreover have "length (xs Sent) \<le> ?k" using fuel by simp
  ultimately have "pick_loop ?k (lst s Sent) (lst s Downloading) maxn (first_of (xs Sent)) 1 s1 = Inr (1, s1)"
    using pick_loop_after [of s1 "first_of (xs Sent)" "xs Sent" "[]" "xs Sent" ?k]
    unfolding cursor_start [OF s, of Sent] by simp
  then show ?thesis unfolding walk using m r1(1) r2(1) none s1(1) m1 pos by simp
qed

lemma pick_loop_none:
  assumes i: "peer_inv s xs" and us: "\<forall>b\<in>set (xs To_send). offer_busy (info (hp s)) xs b" and pos: "0 < maxn"
  shows "pick_tosend_GET maxn s = Inr (0, s)"
proof -
  have s: "shape s xs" using i by (simp add: peer_inv_def)
  have "length (xs To_send) \<le> fresh (hp s)" using shapeD(4) [OF s] by (intro distinct_allocated [OF s]) auto
  then have "length (xs To_send) \<le> Suc (fresh (hp s))" by simp
  from pick_loop_busy [OF s _ us pos this, of "[]" "[]"] cursor_start [OF s, of To_send] show ?thesis
    by (cases "Suc (fresh (hp s)) - length (xs To_send)") (simp_all add: pick_tosend_GET_def)
qed

lemma find_Some_split: "find P xs = Some a \<Longrightarrow> \<exists>us ys. xs = us @ a # ys \<and> (\<forall>b\<in>set us. \<not> P b) \<and> P a"
proof (induction xs)
  case (Cons x xs)
  show ?case
  proof (cases "P x")
    case True
    with Cons.prems show ?thesis by (intro exI [of _ "[]"] exI [of _ xs]) simp
  next
    case False
    with Cons.prems have "find P xs = Some a" by simp
    from Cons.IH [OF this] obtain us ys where "xs = us @ a # ys" "\<forall>b\<in>set us. \<not> P b" "P a" by blast
    with False show ?thesis by (intro exI [of _ "x # us"] exI [of _ ys]) simp
  qed
qed simp

lemma GET_sender_inv:
  assumes i: "peer_inv s xs"
  shows "case find (\<lambda>a. \<not> offer_busy (info (hp s)) xs a) (xs To_send) of None \<Rightarrow> GET_sender s = Inr (0, s)
    | Some a \<Rightarrow> if concurr_download_num (mydownload (me s)) = max_download_num (mydownload (me s))
        then GET_sender s = Inr (0, s)
        else \<exists>s' n t p. GET_sender s = Inr (1, s') \<and>
          peer_inv s' (xs(To_send := remove1 a (xs To_send), Sent := a # xs Sent)) \<and> peer_frame s s' \<and>
          info (hp s) a = Some n \<and> info (hp s') = (info (hp s))(a \<mapsto> n\<lparr>node_time := t\<rparr>) \<and> form_GET n = Inr p \<and>
          sent (wd s') = sent (wd s) @ emitted (router (wd s)) (node_from n) (wire_bytes p)"
proof (cases "find (\<lambda>a. \<not> offer_busy (info (hp s)) xs a) (xs To_send)")
  case None
  then have "\<forall>b\<in>set (xs To_send). offer_busy (info (hp s)) xs b" by (auto simp: find_None_iff)
  moreover have "concurr_download_num (mydownload (me s)) \<le> max_download_num (mydownload (me s))"
    using i by (simp add: peer_inv_def counters_ok_def)
  ultimately show ?thesis using None pick_loop_none [OF i] by (simp add: GET_sender_def Let_def)
next
  case (Some a)
  then obtain us ys where f: "xs To_send = us @ a # ys" "\<forall>b\<in>set us. offer_busy (info (hp s)) xs b"
    "\<not> offer_busy (info (hp s)) xs a" using find_Some_split [OF Some] by blast
  let ?d = "mydownload (me s)"
  have s: "shape s xs" and ck: "counters_ok s xs" using i by (auto simp: peer_inv_def)
  show ?thesis
  proof (cases "concurr_download_num ?d = max_download_num ?d")
    case True
    with Some show ?thesis by (simp add: GET_sender_def)
  next
    case False
    then have room: "concurr_download_num ?d < max_download_num ?d" using ck by (simp add: counters_ok_def)
    have a: "a \<in> set (xs To_send)" using f(1) by simp
    have "distinct (us @ a # ys)" using shapeD(4) [OF s, of To_send] f(1) by simp
    then have r1: "remove1 a (xs To_send) = us @ ys" unfolding f(1) by (rule remove1_middle)
    from send_get_inv [OF i a _ room] f(3) r1 obtain s1 n t p where s1: "send_get (Some a) s = Inr s1"
      "peer_inv (add_downloads 1 s1) (xs(To_send := us @ ys, Sent := a # xs Sent))" "peer_frame s s1"
      "info (hp s) a = Some n" "info (hp s1) = (info (hp s))(a \<mapsto> n\<lparr>node_time := t\<rparr>)" "form_GET n = Inr p"
      "sent (wd s1) = sent (wd s) @ emitted (router (wd s)) (node_from n) (wire_bytes p)"
      unfolding offer_busy_def by metis
    have "shape s1 (xs(To_send := us @ ys, Sent := a # xs Sent))" using s1(2) by (simp add: peer_inv_def shape_def)
    from pick_loop_first [OF i f s1(1) this, of "max_download_num ?d - concurr_download_num ?d"] room
    have "GET_sender s = Inr (1, add_downloads 1 s1)" by (simp add: GET_sender_def)
    moreover have "peer_frame s (add_downloads 1 s1)" using s1(3) by (simp add: peer_frame_def)
    ultimately have "\<exists>s' n t p. GET_sender s = Inr (1, s') \<and>
          peer_inv s' (xs(To_send := remove1 a (xs To_send), Sent := a # xs Sent)) \<and> peer_frame s s' \<and>
          info (hp s) a = Some n \<and> info (hp s') = (info (hp s))(a \<mapsto> n\<lparr>node_time := t\<rparr>) \<and> form_GET n = Inr p \<and>
          sent (wd s') = sent (wd s) @ emitted (router (wd s)) (node_from n) (wire_bytes p)"
      using s1(2,4-7) unfolding r1
      by (intro exI [of _ "add_downloads 1 s1"] exI [of _ n] exI [of _ t] exI [of _ p]) simp
    with Some False show ?thesis by simp
  qed
qed

section \<open>Properties\<close>

text \<open>
  C23. \<open>check_timeout\<close> drops exactly the requests to which no data has come for more than ten
  seconds, keeps the order of the others, returns how many it dropped and keeps the
  invariant, with both counters lowered once per dropped request.
\<close>

theorem requests_time_out:
  assumes "peer_inv s xs"
  shows "\<exists>s'. check_timeout s =
      Inr (int (length (filter (\<lambda>a. \<not> pending (info (hp s)) (clock (wd s) (ticks (wd s))) a) (xs Sent))), s') \<and>
    peer_inv s' (xs(Sent := filter (pending (info (hp s)) (clock (wd s) (ticks (wd s)))) (xs Sent))) \<and> peer_frame s s'"
proof -
  have "fst (time_now (wd s)) = clock (wd s) (ticks (wd s))" by (simp add: time_now_def)
  with check_timeout_inv [OF assms] show ?thesis by auto
qed

theorem requests_time_out_witness:
  "\<exists>s'. check_timeout (sample_peer\<lparr>wd := quiet_world\<lparr>clock := \<lambda>_. 111\<rparr>\<rparr>) = Inr (1, s') \<and>
    peer_inv s' (sample_lists(Sent := [])) \<and> check_timeout sample_peer \<noteq> Inr (1, s')"
proof -
  have "peer_inv (sample_peer\<lparr>wd := quiet_world\<lparr>clock := \<lambda>_. 111\<rparr>\<rparr>) sample_lists" using sample_inv by simp
  from requests_time_out [OF this] obtain s' where "check_timeout (sample_peer\<lparr>wd := quiet_world\<lparr>clock := \<lambda>_. 111\<rparr>\<rparr>) = Inr (1, s')"
    "peer_inv s' (sample_lists(Sent := []))"
    by (auto simp: sample_peer_simps pending_def sample_info sample_node_def TIMEOUT_SEC_def)
  moreover have "\<exists>s'. check_timeout sample_peer = Inr (0, s')"
    using requests_time_out [OF sample_inv]
    by (auto simp: sample_peer_simps pending_def sample_info sample_node_def TIMEOUT_SEC_def sample_peer_def quiet_world_def)
  ultimately show ?thesis by auto
qed

text \<open>
  C20. One call of \<open>GET_sender\<close> sends one GET at most, however many downloads there is room for:
  to the first host in the queue of offers that serves no request yet. That offer becomes a
  request and is counted; when every host is busy or there is no room nothing changes.
\<close>

theorem one_get_per_call:
  assumes "peer_inv s xs"
  shows "case find (\<lambda>a. port_of (info (hp s)) a \<notin> port_of (info (hp s)) ` running xs) (xs To_send) of
      None \<Rightarrow> GET_sender s = Inr (0, s)
    | Some a \<Rightarrow> if concurr_download_num (mydownload (me s)) = max_download_num (mydownload (me s))
        then GET_sender s = Inr (0, s)
        else \<exists>s' n p. GET_sender s = Inr (1, s') \<and> peer_frame s s' \<and>
          peer_inv s' (xs(To_send := remove1 a (xs To_send), Sent := a # xs Sent)) \<and>
          info (hp s) a = Some n \<and> form_GET n = Inr p \<and>
          sent (wd s') = sent (wd s) @ emitted (router (wd s)) (node_from n) (wire_bytes p)"
  using GET_sender_inv [OF assms] unfolding offer_busy_def by (auto split: option.splits if_splits)

text \<open>The sample peer with an offer of its other open chunk from port 9.\<close>

definition offer_heap :: heap where
  "offer_heap = \<lparr>nodes = (nodes sample_heap)(5 \<mapsto> sample_node 9 3 2 None None), fresh = 6\<rparr>"

definition offer_peer :: peer where
  "offer_peer = sample_peer\<lparr>hp := offer_heap, me := set_list To_send (Some 5) (me sample_peer)\<rparr>"

lemma offer_info: "info offer_heap 5 = Some (sample_node 9 3 2 None None)" "a \<noteq> 5 \<Longrightarrow> info offer_heap a = info sample_heap a"
  by (simp_all add: info_def offer_heap_def sample_node_def unlinked_def)

lemma offer_inv: "peer_inv offer_peer (sample_lists(To_send := [5]))"
proof -
  let ?xs = "sample_lists(To_send := [5])"
  have p: "hp offer_peer = offer_heap" "lst offer_peer = (lst sample_peer)(To_send := Some 5)"
    by (simp_all add: offer_peer_def del: set_list.simps)
  have l: "is_list sample_heap (lst sample_peer l) (sample_lists l)" for l
    using lists_okD(2) [OF shapeD(1) [OF sample_shape], of l] by (simp add: sample_peer_simps)
  have five: "5 \<notin> set (sample_lists l)" for l by (cases l) simp_all
  have "is_list offer_heap (lst sample_peer l) (sample_lists l)" for l
  proof (rule is_list_frame [OF l, of "{5}"])
    show "same_outside {5} sample_heap offer_heap" by (simp add: same_outside_def offer_heap_def)
  qed (use five in simp)
  moreover have "is_list offer_heap (Some 5) [5]" by (simp add: is_list_def offer_heap_def sample_node_def)
  moreover have "set (?xs l) \<inter> set (?xs m) = {}" if "l \<noteq> m" for l m
    using that by (cases l; cases m) simp_all
  moreover have "heap_ok offer_heap" by (simp add: heap_ok_def offer_heap_def sample_heap_def)
  ultimately have "lists_ok (hp offer_peer) (lst offer_peer) ?xs" by (simp add: lists_ok_def p)
  moreover have "hashes_ok offer_heap"
    by (auto simp: hashes_ok_def offer_heap_def sample_heap_def info_def sample_node_def unlinked_def split: if_splits)
  moreover have "nodes_ok (info offer_heap) ?xs"
  proof -
    have "\<exists>n. info offer_heap a = Some n \<and> node_ok l n" if "a \<in> set (?xs l)" for a l
    proof (cases "a = 5")
      case True
      then have "l = To_send" using that five by (simp split: if_splits)
      with True show ?thesis by (simp add: offer_info node_ok_def sample_node_def)
    next
      case False
      have "nodes_ok (info sample_heap) sample_lists" using sample_inv by (simp add: peer_inv_def sample_peer_simps)
      moreover have "a \<in> set (sample_lists l)" using that False by (simp split: if_splits)
      ultimately show ?thesis using offer_info(2) [OF False] by (metis nodes_okD)
    qed
    then show ?thesis by (simp add: nodes_ok_def)
  qed
  moreover have "requests_ok (info offer_heap) ?xs"
    by (simp add: requests_ok_def claims_def running_def key_of_def hash_of_def port_of_def offer_info sample_info sample_node_def
        sample_addr_of_def)
  moreover have "counters_ok offer_peer ?xs" by (simp add: counters_ok_def offer_peer_def sample_peer_def sample_config_def)
  ultimately show ?thesis by (simp add: peer_inv_def shape_def p)
qed

theorem one_get_per_call_witness:
  "\<exists>s'. GET_sender offer_peer = Inr (1, s') \<and> peer_inv s' (sample_lists(Sent := [5, 3])) \<and> length (sent (wd s')) = 1"
proof -
  have "find (\<lambda>a. port_of (info (hp offer_peer)) a \<notin> port_of (info (hp offer_peer)) ` running (sample_lists(To_send := [5])))
      ((sample_lists(To_send := [5])) To_send) = Some 5"
    by (simp add: offer_peer_def port_of_def running_def offer_info sample_info sample_node_def sample_addr_of_def)
  moreover have "(sample_lists(To_send := [5]))(To_send := [], Sent := [5, 3]) = sample_lists(Sent := [5, 3])"
    by (rule ext) (simp add: sample_lists_def)
  ultimately show ?thesis
    using one_get_per_call [OF offer_inv]
    by (auto simp: offer_peer_def sample_peer_simps quiet_world_simps emitted_def quiet_world_def sample_peer_def)
qed

end
