(* ===== verification/PeerTransfers.thy ===== *)
theory PeerTransfers
  imports PeerRequests
begin

text \<open>
  The two loops of \<open>peer_run\<close> over the uploads and over the downloads, and what they call.
\<close>

section \<open>The loop over the uploads\<close>

definition abort_upload :: "ptr \<Rightarrow> peer \<Rightarrow> peer res" where
  "abort_upload todel s =
     (if todel = None then Inr s
      else ebind (delete_in Uploading todel s) (\<lambda>s1. Inr (add_uploads (-1) s1)))"

definition check_recvack_timeout :: "ptr \<Rightarrow> peer \<Rightarrow> (int \<times> peer) res" where
  "check_recvack_timeout node s =
     (case time_now (wd s) of (currtm, w) \<Rightarrow>
        ebind (load (hp s) node) (\<lambda>n.
        let elapse = currtm - node_time n
        in if elapse > 8 * TIMEOUT_SEC
           then ebind (abort_upload node (s\<lparr>wd := w\<rparr>)) (\<lambda>s1. Inr (1, s1))
           else Inr (0, s\<lparr>wd := w\<rparr>)))"

text \<open>Storing the window that a call changed in the node it belongs to.\<close>

definition put_window :: "ptr \<Rightarrow> Window \<Rightarrow> world \<Rightarrow> peer \<Rightarrow> peer res" where
  "put_window node W w s = set_node node (\<lambda>n. n\<lparr>congWin := Some W\<rparr>) (s\<lparr>wd := w\<rparr>)"

fun upload_loop :: "nat \<Rightarrow> ptr \<Rightarrow> peer \<Rightarrow> peer res" where
  "upload_loop fuel None s = Inr s"
| "upload_loop 0 (Some a) s = Inl Hang"
| "upload_loop (Suc fuel) (Some a) s =
     ebind (load (hp s) (Some a)) (\<lambda>n. case congWin n of None \<Rightarrow> Inl NullDeref
     | Some W \<Rightarrow>
        ebind (if LPS W < LPR W - 1 then window_sender (wd s) W else Inr (0, W, wd s)) (\<lambda>(_, W1, w1).
        ebind (put_window (Some a) W1 w1 s) (\<lambda>s1.
        if LPA W1 = LPR W1 - 1
        then ebind (load (hp s1) (Some a)) (\<lambda>n1.
             ebind (move_in Uploaded Uploading (Some a) s1) (\<lambda>s2.
             upload_loop fuel (next_node n1) (add_uploads (-1) s2)))
        else ebind (check_datapack_timeout (wd s1) W1) (\<lambda>(_, W2, w2).
             ebind (put_window (Some a) W2 w2 s1) (\<lambda>s2.
             ebind (check_recvack_timeout (Some a) s2) (\<lambda>(_, s3).
             ebind (load (hp s3) (Some a)) (\<lambda>n3.
             upload_loop fuel (next_node n3) s3)))))))"

definition uploads_loop :: "peer \<Rightarrow> peer res" where
  "uploads_loop s = upload_loop (Suc (fresh (hp s))) (lst s Uploading) s"

section \<open>The loop over the downloads\<close>

definition finish_one_download :: "ptr \<Rightarrow> peer \<Rightarrow> peer res" where
  "finish_one_download todel s =
     (if todel = None then Inr s
      else ebind (load (hp s) todel) (\<lambda>n.
           ebind (delete_hash_in Need (node_hash n) s) (\<lambda>s1.
           ebind (delete_in Downloading todel s1) (\<lambda>s2. Inr (add_downloads (-1) s2)))))"

text \<open>\<open>close\<close>.\<close>

definition os_close :: "world \<Rightarrow> int \<Rightarrow> world" where
  "os_close w fd = w\<lparr>open_fds := (open_fds w)(fd := None)\<rparr>"

definition complete_mydownload :: "peer \<Rightarrow> peer res" where
  "complete_mydownload s =
     (let s1 = upd_down (\<lambda>c. c\<lparr>max_download_num := 0\<rparr>) (s\<lparr>wd := os_close (wd s) (output_fd (mydownload (me s)))\<rparr>)
      in ebind (clear_in To_send s1) (\<lambda>s2.
         ebind (clear_in Sent s2) (\<lambda>s3.
         clear_in Downloading s3)))"

definition check_recvdata_timeout :: "ptr \<Rightarrow> peer \<Rightarrow> (int \<times> peer) res" where
  "check_recvdata_timeout node s =
     (case time_now (wd s) of (currtm, w) \<Rightarrow>
        ebind (load (hp s) node) (\<lambda>n.
        let elapse = currtm - node_time n
        in if elapse > 5 * TIMEOUT_SEC
           then ebind (delete_in Downloading node (s\<lparr>wd := w\<rparr>)) (\<lambda>s1.
                Inr (1, add_downloads (-1) (add_found (-1) s1)))
           else Inr (0, s\<lparr>wd := w\<rparr>)))"

text \<open>The first argument bounds the calls of \<open>write\<close> in one \<open>reap\<close>, the second the turns.\<close>

fun download_loop :: "nat \<Rightarrow> nat \<Rightarrow> ptr \<Rightarrow> peer \<Rightarrow> peer res" where
  "download_loop wfuel fuel None s = Inr s"
| "download_loop wfuel 0 (Some a) s = Inl Hang"
| "download_loop wfuel (Suc fuel) (Some a) s =
     ebind (load (hp s) (Some a)) (\<lambda>n. case Recver n of None \<Rightarrow> Inl NullDeref
     | Some rs \<Rightarrow>
        ebind (if recv_bytesnum rs = CHUNK_SIZE
               then ebind (reap wfuel rs (chunkid n) (output_fd (mydownload (me s))) (wd s)) (\<lambda>(_, w).
                    finish_one_download (Some a) (s\<lparr>wd := w\<rparr>))
               else Inr s) (\<lambda>s1.
        if recv_bytesnum rs = CHUNK_SIZE \<and> lst s1 Need = None
        then complete_mydownload s1
        else ebind (check_recvdata_timeout (Some a) s1) (\<lambda>(_, s2).
             ebind (load (hp s2) (Some a)) (\<lambda>n2.
             download_loop wfuel fuel (next_node n2) s2))))"

definition downloads_loop :: "nat \<Rightarrow> peer \<Rightarrow> peer res" where
  "downloads_loop wfuel s = download_loop wfuel (Suc (fresh (hp s))) (lst s Downloading) s"

section \<open>What the sender leaves alone\<close>

lemma spiffy_sendto_calm: "spiffy_sendto w msg n to = Inr (r, w') \<Longrightarrow> calm w w'"
  by (auto simp: spiffy_sendto_def os_sendto_def calm_def Let_def ebind_eq_Inr split: if_splits)

lemma send_pack_calm: "send_pack w p to = Inr (r, w') \<Longrightarrow> calm w w'"
  by (auto simp: send_pack_def ebind_eq_Inr dest: spiffy_sendto_calm)

lemma time_now_calm: "time_now w = (t, w') \<Longrightarrow> calm w w'"
  by (auto simp: time_now_def)

lemma window_loop_calm: "window_loop n i w W = Inr (r, W', w') \<Longrightarrow> calm w w'"
proof (induction n arbitrary: i w W)
  case 0
  then show ?case by simp
next
  case (Suc n)
  show ?case
  proof (cases "LPS W = LPR W - 1")
    case True
    with Suc.prems show ?thesis by simp
  next
    case False
    with Suc.prems obtain p x w1 sb where r:
      "send_pack w p (dst W) = Inr (x, w1)"
      "window_loop n (i + 1) (snd (time_now w1)) (W\<lparr>LPS := LPS W + 1, sender_buf := sb\<rparr>) = Inr (r, W', w')"
      by (auto simp: Let_def ebind_eq_Inr case_prod_beta)
    have "calm w1 (snd (time_now w1))" by (simp add: time_now_def)
    with send_pack_calm [OF r(1)] Suc.IH [OF r(2)] show ?thesis by (blast intro: calm_trans)
  qed
qed

lemma window_sender_calm: "window_sender w W = Inr (r, W', w') \<Longrightarrow> calm w w'"
  by (auto simp: window_sender_def ebind_eq_Inr dest: window_loop_calm split: if_splits)

lemma check_datapack_timeout_calm: "check_datapack_timeout w W = Inr (r, W', w') \<Longrightarrow> calm w w'"
  by (auto simp: check_datapack_timeout_def time_now_def Let_def ebind_eq_Inr split: if_splits)

lemma calm_clock: "calm w w' \<Longrightarrow> clock w' = clock w"
  by (simp add: calm_def)

text \<open>Writing sends nothing and leaves the router alone.\<close>

lemma os_write_sent [simp]:
  "sent (snd (os_write w fd bs)) = sent w" "router (snd (os_write w fd bs)) = router w"
  by (simp_all add: os_write_def Let_def split: option.split prod.split)

lemma write_loop_sent: "write_loop fuel b k fd ret wr w = Inr (r, w') \<Longrightarrow> sent w' = sent w \<and> router w' = router w"
proof (induction fuel arbitrary: ret wr w)
  case 0
  then show ?case by (subst (asm) write_loop.simps) (simp split: if_splits)
next
  case (Suc fuel)
  have "sent (os_lseek w fd pos) = sent w" "router (os_lseek w fd pos) = router w" for pos by (simp_all add: os_lseek_def split: option.split prod.split)
  with Suc.prems show ?case
    by (subst (asm) write_loop.simps)
       (auto simp: Let_def ebind_eq_Inr guard_eq_Inr case_prod_beta dest: Suc.IH split: if_splits)
qed

lemma reap_sent: "reap fuel rs k fd w = Inr (r, w') \<Longrightarrow> sent w' = sent w \<and> router w' = router w"
  by (auto simp: reap_def ebind_eq_Inr dest: write_loop_sent split: if_splits)

section \<open>The uploads\<close>

text \<open>An upload is finished when every packet of its chunk is acknowledged.\<close>

definition upload_done :: "contents \<Rightarrow> nat \<Rightarrow> bool" where
  "upload_done I a \<longleftrightarrow> (case congWin (the (I a)) of None \<Rightarrow> False | Some W \<Rightarrow> LPA W = LPR W - 1)"

text \<open>Sixteen seconds without an acknowledgement, at the reading \<open>t\<close> of the clock.\<close>

definition upload_expired :: "contents \<Rightarrow> int \<Rightarrow> nat \<Rightarrow> bool" where
  "upload_expired I t a \<longleftrightarrow> t - node_time (the (I a)) > 8 * TIMEOUT_SEC"

lemma put_window_inv:
  assumes i: "peer_inv s xs" and a: "a \<in> set (xs l)" "l = Uploading \<or> l = Uploaded" "info (hp s) a = Some n"
    and W: "win_inv W" and w: "calm (wd s) w"
  shows "\<exists>s'. put_window (Some a) W w s = Inr s' \<and> peer_inv s' xs \<and> peer_frame s s' \<and> wd s' = w \<and>
    info (hp s') = (info (hp s))(a \<mapsto> n\<lparr>congWin := Some W\<rparr>)"
proof -
  have i1: "peer_inv (s\<lparr>wd := w\<rparr>) xs" using i by simp
  have "nodes_ok (info (hp s)) xs" using i by (simp add: peer_inv_def)
  then have "node_ok l n" using a(1,3) by (metis nodes_okD option.inject)
  then have "node_ok l (n\<lparr>congWin := Some W\<rparr>)" using a(2) W by (auto simp: node_ok_def)
  from set_node_inv [OF i1 a(1), of n "\<lambda>n. n\<lparr>congWin := Some W\<rparr>"] this a(3) obtain s' where
    "set_node (Some a) (\<lambda>n. n\<lparr>congWin := Some W\<rparr>) (s\<lparr>wd := w\<rparr>) = Inr s'" "peer_inv s' xs"
    "info (hp s') = (info (hp s))(a \<mapsto> n\<lparr>congWin := Some W\<rparr>)" "scalars s' = scalars s" "wd s' = w" by auto
  moreover from this have "peer_frame s s'" using scalarsD(1) [of s' s] w by (simp add: peer_frame_def)
  ultimately show ?thesis by (auto simp: put_window_def)
qed

text \<open>A finished upload moves to the list of uploaded chunks.\<close>

lemma finish_upload_inv:
  assumes i: "peer_inv s xs" and a: "a \<in> set (xs Uploading)"
  shows "\<exists>s'. move_in Uploaded Uploading (Some a) s = Inr s' \<and>
    peer_inv (add_uploads (-1) s') (xs(Uploading := remove1 a (xs Uploading), Uploaded := a # xs Uploaded)) \<and>
    info (hp s') = info (hp s) \<and> scalars s' = scalars s \<and> wd s' = wd s"
proof -
  let ?I = "info (hp s)" and ?xs = "xs(Uploading := remove1 a (xs Uploading), Uploaded := a # xs Uploaded)"
  have s: "shape s xs" and nk: "nodes_ok ?I xs" and rq: "requests_ok ?I xs" and ck: "counters_ok s xs"
    using i by (auto simp: peer_inv_def)
  from move_in_shape [OF s a, of Uploaded] obtain s' where s': "move_in Uploaded Uploading (Some a) s = Inr s'"
    "shape s' ?xs" "info (hp s') = ?I" "scalars s' = scalars s" "wd s' = wd s" by auto
  obtain n where n: "?I a = Some n" "node_ok Uploading n" using nk a by (rule nodes_okD)
  have "nodes_ok ?I ?xs"
    using nk n set_remove1_subset [of a "xs Uploading"] by (fastforce simp: nodes_ok_def node_ok_def)
  moreover have "requests_ok ?I ?xs"
    using rq set_remove1_subset [of a "xs Uploading"] by (auto simp: requests_ok_def claims_def running_def intro: inj_on_subset)
  moreover have "counters_ok (add_uploads (-1) s') ?xs"
    using ck length_remove1_member [OF a] scalarsD [OF s'(4)] by (auto simp: counters_ok_def)
  moreover have "shape (add_uploads (-1) s') ?xs" using s'(2) by (simp add: shape_def)
  ultimately have "peer_inv (add_uploads (-1) s') ?xs" using s'(3) by (simp add: peer_inv_def)
  with s' show ?thesis by blast
qed

lemma serve_window:
  assumes "win_inv W"
  shows "\<exists>r W' w'. (if LPS W < LPR W - 1 then window_sender w W else Inr (0, W, w)) = Inr (r, W', w') \<and>
    win_inv W' \<and> LPA W' = LPA W \<and> LPR W' = LPR W \<and> calm w w'"
proof (cases "LPS W < LPR W - 1")
  case True
  from window_sender_sends [OF assms, of w] obtain r W' w' where r: "window_sender w W = Inr (r, W', w')" "same_but_sent W W'"
    by blast
  moreover have "win_inv W'" using window_sender_inv [OF assms, of w] r(1) by auto
  ultimately show ?thesis using True window_sender_calm [OF r(1)] by (auto simp: same_but_sent_def)
qed (use assms in auto)

text \<open>One turn of the loop: the upload is finished, or aborted, or stays.\<close>

definition turn_done :: "nat \<Rightarrow> nat \<Rightarrow> peer \<Rightarrow> peer res" where
  "turn_done fuel a s1 =
     ebind (load (hp s1) (Some a)) (\<lambda>n1.
     ebind (move_in Uploaded Uploading (Some a) s1) (\<lambda>s2.
     upload_loop fuel (next_node n1) (add_uploads (-1) s2)))"

definition turn_busy :: "nat \<Rightarrow> nat \<Rightarrow> Window \<Rightarrow> peer \<Rightarrow> peer res" where
  "turn_busy fuel a W1 s1 =
     ebind (check_datapack_timeout (wd s1) W1) (\<lambda>(_, W2, w2).
     ebind (put_window (Some a) W2 w2 s1) (\<lambda>s2.
     ebind (check_recvack_timeout (Some a) s2) (\<lambda>(_, s3).
     ebind (load (hp s3) (Some a)) (\<lambda>n3.
     upload_loop fuel (next_node n3) s3))))"

definition sends_window :: "world \<Rightarrow> Window \<Rightarrow> (int \<times> Window \<times> world) res" where
  "sends_window w W = (if LPS W < LPR W - 1 then window_sender w W else Inr (0, W, w))"

lemma upload_turn_served:
  assumes i: "peer_inv s xs" and split: "xs Uploading = us @ a # ys"
  shows "\<exists>s1 n W W1 r. peer_inv s1 xs \<and> peer_frame s s1 \<and> info (hp s) a = Some n \<and> congWin n = Some W \<and> win_inv W \<and>
    sends_window (wd s) W = Inr (r, W1, wd s1) \<and> win_inv W1 \<and> LPA W1 = LPA W \<and> LPR W1 = LPR W \<and> info (hp s1) = (info (hp s))(a \<mapsto> n\<lparr>congWin := Some W1\<rparr>) \<and>
    upload_loop (Suc fuel) (Some a) s = (if LPA W1 = LPR W1 - 1 then turn_done fuel a s1 else turn_busy fuel a W1 s1)"
proof -
  have nk: "nodes_ok (info (hp s)) xs" using i by (simp add: peer_inv_def)
  have a: "a \<in> set (xs Uploading)" using split by simp
  obtain n where n: "info (hp s) a = Some n" "node_ok Uploading n" using nk a by (rule nodes_okD)
  obtain W where W: "congWin n = Some W" "win_inv W" using n(2) by (auto simp: node_ok_def)
  from load_info [OF n(1)] obtain m where m: "load (hp s) (Some a) = Inr m" "congWin m = Some W"
    using W(1) by (metis unlinked_simps(5))
  from serve_window [OF W(2), of "wd s"] obtain r W1 w1 where r:
    "(if LPS W < LPR W - 1 then window_sender (wd s) W else Inr (0, W, wd s)) = Inr (r, W1, w1)"
    "win_inv W1" "LPA W1 = LPA W" "LPR W1 = LPR W" "calm (wd s) w1" by blast
  from put_window_inv [OF i a _ n(1) r(2,5)] obtain s1 where s1: "put_window (Some a) W1 w1 s = Inr s1"
    "peer_inv s1 xs" "peer_frame s s1" "wd s1 = w1" "info (hp s1) = (info (hp s))(a \<mapsto> n\<lparr>congWin := Some W1\<rparr>)" by auto
  show ?thesis
    using m r s1 n(1) W
    by (intro exI [of _ s1] exI [of _ n] exI [of _ W] exI [of _ W1] exI [of _ r] conjI)
       (simp_all add: turn_done_def turn_busy_def sends_window_def)
qed

lemma upload_turn_done:
  assumes i: "peer_inv s xs" and split: "xs Uploading = us @ a # ys" and d: "upload_done (info (hp s)) a"
  shows "\<exists>s'. upload_loop (Suc fuel) (Some a) s = upload_loop fuel (first_of ys) s' \<and>
    peer_inv s' (xs(Uploading := us @ ys, Uploaded := a # xs Uploaded)) \<and> peer_frame s s' \<and>
    (\<forall>b. b \<noteq> a \<longrightarrow> info (hp s') b = info (hp s) b)"
proof -
  from upload_turn_served [OF i split, of fuel] obtain s1 n W W1 r where s1: "peer_inv s1 xs" "peer_frame s s1"
    "info (hp s) a = Some n" "congWin n = Some W" "win_inv W1" "LPA W1 = LPA W" "LPR W1 = LPR W"
    "info (hp s1) = (info (hp s))(a \<mapsto> n\<lparr>congWin := Some W1\<rparr>)"
    "upload_loop (Suc fuel) (Some a) s = (if LPA W1 = LPR W1 - 1 then turn_done fuel a s1 else turn_busy fuel a W1 s1)"
    "win_inv W" "sends_window (wd s) W = Inr (r, W1, wd s1)"
    by (elim exE conjE) (rule that)
  have shp: "shape s1 xs" using s1(1) by (simp add: peer_inv_def)
  obtain m where m: "load (hp s1) (Some a) = Inr m" "next_node m = first_of ys" by (rule cursor_next [OF shp split])
  have a: "a \<in> set (xs Uploading)" using split by simp
  have "distinct (us @ a # ys)" using shapeD(4) [OF shp, of Uploading] split by simp
  then have r1: "remove1 a (xs Uploading) = us @ ys" unfolding split by (rule remove1_middle)
  from finish_upload_inv [OF s1(1) a] obtain s2 where s2: "move_in Uploaded Uploading (Some a) s1 = Inr s2"
    "peer_inv (add_uploads (-1) s2) (xs(Uploading := us @ ys, Uploaded := a # xs Uploaded))"
    "info (hp s2) = info (hp s1)" "scalars s2 = scalars s1" "wd s2 = wd s1" unfolding r1 by blast
  have "LPA W1 = LPR W1 - 1" using d s1(3,4,6,7) by (simp add: upload_done_def)
  then have "upload_loop (Suc fuel) (Some a) s = upload_loop fuel (first_of ys) (add_uploads (-1) s2)"
    using s1(9) m s2(1) by (simp add: turn_done_def)
  moreover have "peer_frame s (add_uploads (-1) s2)"
    using s1(2) scalarsD(1) [OF s2(4)] s2(5) by (simp add: peer_frame_def)
  ultimately show ?thesis using s2(2,3) s1(8) by (intro exI [of _ "add_uploads (-1) s2"]) simp
qed

text \<open>What a busy turn has done to the node of the upload.\<close>

definition upload_moves :: "nat \<Rightarrow> peer \<Rightarrow> peer \<Rightarrow> bool" where
  "upload_moves a s s' \<longleftrightarrow> (\<exists>n W W1 W2 w1 w2 r r'. info (hp s) a = Some n \<and> congWin n = Some W \<and> win_inv W \<and>
     sends_window (wd s) W = Inr (r, W1, w1) \<and> win_inv W1 \<and> check_datapack_timeout w1 W1 = Inr (r', W2, w2) \<and>
     info (hp s') = (info (hp s))(a \<mapsto> n\<lparr>congWin := Some W2\<rparr>) \<and> sent (wd s') = sent w2)"

lemma upload_turn_busy:
  assumes i: "peer_inv s xs" and split: "xs Uploading = us @ a # ys" and d: "\<not> upload_done (info (hp s)) a"
  shows "\<exists>s' k. (if upload_expired (info (hp s)) (clock (wd s) k) a
      then upload_loop (Suc fuel) (Some a) s = Inl UseAfterFree
      else upload_loop (Suc fuel) (Some a) s = upload_loop fuel (first_of ys) s' \<and> peer_inv s' xs \<and> peer_frame s s' \<and>
        (\<forall>b. b \<noteq> a \<longrightarrow> info (hp s') b = info (hp s) b) \<and> upload_moves a s s')"
proof -
  from upload_turn_served [OF i split, of fuel] obtain s1 n W W1 r where s1: "peer_inv s1 xs" "peer_frame s s1"
    "info (hp s) a = Some n" "congWin n = Some W" "win_inv W1" "LPA W1 = LPA W" "LPR W1 = LPR W"
    "info (hp s1) = (info (hp s))(a \<mapsto> n\<lparr>congWin := Some W1\<rparr>)"
    "upload_loop (Suc fuel) (Some a) s = (if LPA W1 = LPR W1 - 1 then turn_done fuel a s1 else turn_busy fuel a W1 s1)"
    "win_inv W" "sends_window (wd s) W = Inr (r, W1, wd s1)"
    by (elim exE conjE) (rule that)
  have nd: "LPA W1 \<noteq> LPR W1 - 1" using d s1(3,4,6,7) by (simp add: upload_done_def)
  have a: "a \<in> set (xs Uploading)" using split by simp
  have "LPA W1 + 1 < LPR W1" using s1(5) nd win_base_bounds(2,3) [of W1] by (simp add: win_inv_def)
  from check_datapack_timeout_inv [OF s1(5) this, of "wd s1"] obtain r W2 w2 where c:
    "check_datapack_timeout (wd s1) W1 = Inr (r, W2, w2)" "win_inv W2" by blast
  have I1: "info (hp s1) a = Some (n\<lparr>congWin := Some W1\<rparr>)" by (simp add: s1(8))
  from put_window_inv [OF s1(1) a _ I1 c(2) check_datapack_timeout_calm [OF c(1)]] obtain s2 where s2:
    "put_window (Some a) W2 w2 s1 = Inr s2" "peer_inv s2 xs" "peer_frame s1 s2"
    "info (hp s2) = (info (hp s))(a \<mapsto> n\<lparr>congWin := Some W2\<rparr>)" "wd s2 = w2" using s1(8) by auto
  have shp: "shape s2 xs" using s2(2) by (simp add: peer_inv_def)
  obtain m where m: "load (hp s2) (Some a) = Inr m" "next_node m = first_of ys" "info (hp s2) a = Some (unlinked m)"
    by (rule cursor_next [OF shp split])
  have tm: "node_time m = node_time n"
  proof -
    have "unlinked m = n\<lparr>congWin := Some W2\<rparr>" using m(3) by (simp add: s2(4))
    then show ?thesis using unlinked_simps(4) [of m] by simp
  qed
  have f2: "peer_frame s s2" by (rule peer_frame_trans [OF s1(2) s2(3)])
  let ?k = "ticks (wd s2)" and ?w = "(wd s2)\<lparr>ticks := Suc (ticks (wd s2))\<rparr>"
  have ck: "clock (wd s2) = clock (wd s)" using f2 by (simp add: peer_frame_def calm_clock)
  have loop: "upload_loop (Suc fuel) (Some a) s = ebind (check_recvack_timeout (Some a) s2) (\<lambda>(_, s3).
      ebind (load (hp s3) (Some a)) (\<lambda>n3. upload_loop fuel (next_node n3) s3))" using s1(9) nd c(1) s2(1) by (simp add: turn_busy_def)
  have e: "upload_expired (info (hp s)) (clock (wd s) ?k) a \<longleftrightarrow> clock (wd s) ?k - node_time m > 8 * TIMEOUT_SEC"
    using s1(3) tm by (simp add: upload_expired_def)
  show ?thesis
  proof (cases "upload_expired (info (hp s)) (clock (wd s) ?k) a")
    case True
    have shw: "shape (s2\<lparr>wd := ?w\<rparr>) xs" using shp by (simp add: shape_def)
    from delete_in_shape [OF shw a] obtain s3 where s3: "delete_in Uploading (Some a) (s2\<lparr>wd := ?w\<rparr>) = Inr s3"
      "info (hp s3) = (info (hp s2))(a := None)" by auto
    have "info (hp s3) a = None" by (simp add: s3(2))
    then have "load (hp s3) (Some a) = Inl UseAfterFree" by (simp add: load_def info_def)
    moreover have "check_recvack_timeout (Some a) s2 = Inr (1, add_uploads (-1) s3)"
      using True s3(1) m(1) ck unfolding e by (simp add: check_recvack_timeout_def time_now_def abort_upload_def)
    ultimately have "upload_loop (Suc fuel) (Some a) s = Inl UseAfterFree" using loop by simp
    with True show ?thesis by (intro exI [of _ s] exI [of _ ?k]) simp
  next
    case False
    have "check_recvack_timeout (Some a) s2 = Inr (0, s2\<lparr>wd := ?w\<rparr>)"
      using False m(1) ck unfolding e by (simp add: check_recvack_timeout_def time_now_def)
    then have "upload_loop (Suc fuel) (Some a) s = upload_loop fuel (first_of ys) (s2\<lparr>wd := ?w\<rparr>)"
      using loop m(1,2) by simp
    moreover have "peer_frame s (s2\<lparr>wd := ?w\<rparr>)" using f2 by (auto simp: peer_frame_def intro: calm_trans)
    moreover have "upload_moves a s (s2\<lparr>wd := ?w\<rparr>)"
      unfolding upload_moves_def using s1(3,4,5,10,11) c(1) s2(4,5)
      by (intro exI [of _ n] exI [of _ W] exI [of _ W1] exI [of _ W2] exI [of _ "wd s1"] exI [of _ w2] exI conjI) simp_all
    ultimately show ?thesis using False s2(2,4) by (intro exI [of _ "s2\<lparr>wd := ?w\<rparr>"] exI [of _ ?k]) simp
  qed
qed

lemma upload_loop_result:
  assumes "peer_inv s xs" and "xs Uploading = us @ ys" and "length ys \<le> fuel"
  defines "dn \<equiv> upload_done (info (hp s))" and "ex \<equiv> \<lambda>k. upload_expired (info (hp s)) (clock (wd s) k)"
  shows "upload_loop fuel (first_of ys) s = Inl UseAfterFree \<and> (\<exists>a\<in>set ys. \<not> dn a \<and> (\<exists>k. ex k a)) \<or>
    (\<exists>s'. upload_loop fuel (first_of ys) s = Inr s' \<and> peer_frame s s' \<and>
      peer_inv s' (xs(Uploading := us @ filter (\<lambda>a. \<not> dn a) ys, Uploaded := rev (filter dn ys) @ xs Uploaded)) \<and>
      (\<forall>b. b \<notin> set ys \<longrightarrow> info (hp s') b = info (hp s) b) \<and>
      (\<forall>a\<in>set ys. \<not> dn a \<longrightarrow> (\<exists>k. \<not> ex k a)))"
  using assms(1-3) unfolding dn_def ex_def
proof (induction ys arbitrary: us s fuel xs)
  case Nil
  have e: "xs(Uploading := us @ filter P [], Uploaded := rev (filter Q []) @ xs Uploaded) = xs" for P Q
    using Nil.prems(2) by auto
  show ?case unfolding e using Nil.prems(1) by simp
next
  case (Cons a ys)
  obtain f where f: "fuel = Suc f" "length ys \<le> f" using Cons.prems(3) by (cases fuel) auto
  have s: "shape s xs" using Cons.prems(1) by (simp add: peer_inv_def)
  have fresh_a: "a \<notin> set ys" using shapeD(4) [OF s, of Uploading] Cons.prems(2) by simp
  let ?I = "info (hp s)"
  have same: "\<forall>b\<in>set ys. upload_done (info (hp s')) b = upload_done ?I b \<and>
      (\<forall>k. upload_expired (info (hp s')) (clock (wd s') k) b = upload_expired ?I (clock (wd s) k) b)"
    if "\<forall>b. b \<noteq> a \<longrightarrow> info (hp s') b = ?I b" "peer_frame s s'" for s'
  proof
    fix b assume "b \<in> set ys"
    then have "info (hp s') b = ?I b" using that(1) fresh_a by auto
    moreover have "clock (wd s') = clock (wd s)" using that(2) by (simp add: peer_frame_def calm_clock)
    ultimately show "upload_done (info (hp s')) b = upload_done ?I b \<and>
      (\<forall>k. upload_expired (info (hp s')) (clock (wd s') k) b = upload_expired ?I (clock (wd s) k) b)"
      by (simp add: upload_done_def upload_expired_def)
  qed
  show ?case
  proof (cases "upload_done ?I a")
    case True
    from upload_turn_done [OF Cons.prems(1,2) True, of f] obtain s1 where s1:
      "upload_loop fuel (Some a) s = upload_loop f (first_of ys) s1"
      "peer_inv s1 (xs(Uploading := us @ ys, Uploaded := a # xs Uploaded))" "peer_frame s s1"
      "\<forall>b. b \<noteq> a \<longrightarrow> info (hp s1) b = ?I b" using f(1) by blast
    note sm = same [OF s1(4,3)]
    let ?xs = "xs(Uploading := us @ ys, Uploaded := a # xs Uploaded)"
    have "filter (\<lambda>a. \<not> upload_done (info (hp s1)) a) ys = filter (\<lambda>a. \<not> upload_done ?I a) ys"
      "filter (upload_done (info (hp s1))) ys = filter (upload_done ?I) ys"
      using sm by (auto intro: filter_cong)
    moreover have "?xs(Uploading := us @ zs, Uploaded := rev ws @ ?xs Uploaded) =
        xs(Uploading := us @ zs, Uploaded := rev (a # ws) @ xs Uploaded)" for zs ws by auto
    ultimately have xs: "?xs(Uploading := us @ filter (\<lambda>a. \<not> upload_done (info (hp s1)) a) ys,
          Uploaded := rev (filter (upload_done (info (hp s1))) ys) @ ?xs Uploaded) =
        xs(Uploading := us @ filter (\<lambda>a. \<not> upload_done ?I a) (a # ys),
          Uploaded := rev (filter (upload_done ?I) (a # ys)) @ xs Uploaded)" using True by simp
    have "?xs Uploading = us @ ys" by simp
    from Cons.IH [OF s1(2) this f(2)] consider
      (uaf) b where "upload_loop f (first_of ys) s1 = Inl UseAfterFree" "b \<in> set ys" "\<not> upload_done (info (hp s1)) b"
        "\<exists>k. upload_expired (info (hp s1)) (clock (wd s1) k) b"
      | (fine) s' where "upload_loop f (first_of ys) s1 = Inr s'" "peer_frame s1 s'"
        "peer_inv s' (?xs(Uploading := us @ filter (\<lambda>a. \<not> upload_done (info (hp s1)) a) ys,
          Uploaded := rev (filter (upload_done (info (hp s1))) ys) @ ?xs Uploaded))"
        "\<forall>b. b \<notin> set ys \<longrightarrow> info (hp s') b = info (hp s1) b"
        "\<forall>b\<in>set ys. \<not> upload_done (info (hp s1)) b \<longrightarrow> (\<exists>k. \<not> upload_expired (info (hp s1)) (clock (wd s1) k) b)"
      by blast
    then show ?thesis
    proof cases
      case uaf
      with sm s1(1) show ?thesis by auto
    next
      case fine
      have "upload_loop fuel (first_of (a # ys)) s = Inr s'" using s1(1) fine(1) by simp
      moreover have "\<forall>b\<in>set (a # ys). \<not> upload_done ?I b \<longrightarrow> (\<exists>k. \<not> upload_expired ?I (clock (wd s) k) b)"
        using fine(5) sm True by simp
      moreover have "\<forall>b. b \<notin> set (a # ys) \<longrightarrow> info (hp s') b = ?I b" using fine(4) s1(4) by simp
      ultimately show ?thesis using fine(3) peer_frame_trans [OF s1(3) fine(2)] unfolding xs by blast
    qed
  next
    case False
    from upload_turn_busy [OF Cons.prems(1,2) False, of f] obtain s1 k where s1:
      "if upload_expired ?I (clock (wd s) k) a then upload_loop fuel (Some a) s = Inl UseAfterFree
       else upload_loop fuel (Some a) s = upload_loop f (first_of ys) s1 \<and> peer_inv s1 xs \<and> peer_frame s s1 \<and>
        (\<forall>b. b \<noteq> a \<longrightarrow> info (hp s1) b = ?I b)" using f(1) by (metis (no_types))
    show ?thesis
    proof (cases "upload_expired ?I (clock (wd s) k) a")
      case True
      with s1 False show ?thesis by auto
    next
      case go: False
      with s1 have s2: "upload_loop fuel (Some a) s = upload_loop f (first_of ys) s1" "peer_inv s1 xs" "peer_frame s s1"
        "\<forall>b. b \<noteq> a \<longrightarrow> info (hp s1) b = ?I b" by simp_all
      note sm = same [OF s2(4,3)]
      have fl: "filter (\<lambda>a. \<not> upload_done (info (hp s1)) a) ys = filter (\<lambda>a. \<not> upload_done ?I a) ys"
        "filter (upload_done (info (hp s1))) ys = filter (upload_done ?I) ys"
        using sm by (auto intro: filter_cong)
      have xs: "xs(Uploading := (us @ [a]) @ filter (\<lambda>a. \<not> upload_done (info (hp s1)) a) ys,
            Uploaded := rev (filter (upload_done (info (hp s1))) ys) @ xs Uploaded) =
          xs(Uploading := us @ filter (\<lambda>a. \<not> upload_done ?I a) (a # ys),
            Uploaded := rev (filter (upload_done ?I) (a # ys)) @ xs Uploaded)"
        using False unfolding fl by simp
      have "xs Uploading = (us @ [a]) @ ys" using Cons.prems(2) by simp
      from Cons.IH [OF s2(2) this f(2)] consider
        (uaf) b where "upload_loop f (first_of ys) s1 = Inl UseAfterFree" "b \<in> set ys" "\<not> upload_done (info (hp s1)) b"
          "\<exists>k. upload_expired (info (hp s1)) (clock (wd s1) k) b"
        | (fine) s' where "upload_loop f (first_of ys) s1 = Inr s'" "peer_frame s1 s'"
          "peer_inv s' (xs(Uploading := (us @ [a]) @ filter (\<lambda>a. \<not> upload_done (info (hp s1)) a) ys,
            Uploaded := rev (filter (upload_done (info (hp s1))) ys) @ xs Uploaded))"
          "\<forall>b. b \<notin> set ys \<longrightarrow> info (hp s') b = info (hp s1) b"
        "\<forall>b\<in>set ys. \<not> upload_done (info (hp s1)) b \<longrightarrow> (\<exists>k. \<not> upload_expired (info (hp s1)) (clock (wd s1) k) b)"
        by blast
      then show ?thesis
      proof cases
        case uaf
        with sm s2(1) show ?thesis by auto
      next
        case fine
        have "upload_loop fuel (first_of (a # ys)) s = Inr s'" using s2(1) fine(1) by simp
        moreover have "\<forall>b\<in>set (a # ys). \<not> upload_done ?I b \<longrightarrow> (\<exists>k. \<not> upload_expired ?I (clock (wd s) k) b)"
          using fine(5) sm go by auto
        moreover have "\<forall>b. b \<notin> set (a # ys) \<longrightarrow> info (hp s') b = ?I b" using fine(4) s2(4) by simp
        ultimately show ?thesis using fine(3) peer_frame_trans [OF s2(3) fine(2)] unfolding xs by blast
      qed
    qed
  qed
qed

text \<open>The loop over the uploads as \<open>peer_run\<close> enters it.\<close>

lemma upload_loop_start:
  assumes "peer_inv s xs"
  defines "dn \<equiv> upload_done (info (hp s))" and "ex \<equiv> \<lambda>k. upload_expired (info (hp s)) (clock (wd s) k)"
  shows "upload_loop (Suc (fresh (hp s))) (lst s Uploading) s = Inl UseAfterFree \<and>
      (\<exists>a\<in>set (xs Uploading). \<not> dn a \<and> (\<exists>k. ex k a)) \<or>
    (\<exists>s'. upload_loop (Suc (fresh (hp s))) (lst s Uploading) s = Inr s' \<and> peer_frame s s' \<and>
      peer_inv s' (xs(Uploading := filter (\<lambda>a. \<not> dn a) (xs Uploading),
                      Uploaded := rev (filter dn (xs Uploading)) @ xs Uploaded)) \<and>
      (\<forall>b. b \<notin> set (xs Uploading) \<longrightarrow> info (hp s') b = info (hp s) b) \<and>
      (\<forall>a\<in>set (xs Uploading). \<not> dn a \<longrightarrow> (\<exists>k. \<not> ex k a)))"
proof -
  have s: "shape s xs" using assms(1) by (simp add: peer_inv_def)
  have "length (xs Uploading) \<le> fresh (hp s)" using shapeD(4) [OF s] by (intro distinct_allocated [OF s]) auto
  then have "length (xs Uploading) \<le> Suc (fresh (hp s))" by simp
  from upload_loop_result [OF assms(1) _ this, of "[]"] show ?thesis
    unfolding cursor_start [OF s, of Uploading] dn_def ex_def by simp
qed

section \<open>The downloads\<close>

definition chunk_complete :: "contents \<Rightarrow> nat \<Rightarrow> bool" where
  "chunk_complete I a \<longleftrightarrow> (case Recver (the (I a)) of None \<Rightarrow> False | Some rs \<Rightarrow> recv_bytesnum rs = CHUNK_SIZE)"

text \<open>Dropping a download together with the needed chunk it is for.\<close>

lemma requests_ok_finish:
  assumes rq: "requests_ok I xs" and a: "a \<in> set (xs Downloading)" and b: "hash_of I b = hash_of I a"
    and sub: "\<And>l. set (ys l) \<subseteq> set (xs l)" and same: "\<And>l c. c \<in> set (ys l) \<Longrightarrow> I' c = I c"
    and gone: "\<And>l. a \<notin> set (ys l)" and need: "set (xs Need) \<subseteq> insert b (set (ys Need))"
  shows "requests_ok I' ys"
proof (rule requests_ok_sub [OF rq])
  show cl: "claims ys \<subseteq> claims xs" and "running ys \<subseteq> running xs" "set (ys Uploading) \<subseteq> set (xs Uploading)"
    using sub by (auto simp: claims_def running_def)
  have eq: "I' c = I c" if "c \<in> claims ys \<or> c \<in> running ys" for c
    using that same by (auto simp: claims_def running_def)
  show "key_of I' c = key_of I c" if "c \<in> claims ys" for c using eq that by (simp add: key_of_def hash_of_def)
  show "port_of I' c = port_of I c" if "c \<in> running ys" for c using eq that by (simp add: port_of_def)
  show "port_of I' c = port_of I c" if "c \<in> set (ys Uploading)" for c using same [OF that] by (simp add: port_of_def)
  have ac: "a \<in> claims xs" using a by (simp add: claims_def)
  have inj: "inj_on (hash_of I) (claims xs)" and cov: "key_of I ` claims xs \<subseteq> key_of I ` set (xs Need)"
    using rq by (auto simp: requests_ok_def)
  show "key_of I ` claims ys \<subseteq> key_of I' ` set (ys Need)"
  proof
    fix k assume "k \<in> key_of I ` claims ys"
    then obtain c where c: "c \<in> claims ys" "k = key_of I c" by blast
    have "c \<noteq> a" using claims_member [OF c(1)] gone by auto
    then have "hash_of I c \<noteq> hash_of I a" using inj_onD [OF inj, of c a] c ac cl by auto
    moreover have "k \<in> key_of I ` set (xs Need)" using cov c cl by blast
    ultimately obtain d where "d \<in> set (ys Need)" "key_of I d = k" using need b c(2) by (auto simp: key_of_def)
    with same show "k \<in> key_of I' ` set (ys Need)" by (force simp: key_of_def hash_of_def)
  qed
qed

text \<open>
  Finishing a download takes the chunk off the list of needed chunks and the node off the
  downloads, and keeps the invariant.
\<close>

lemma finish_one_download_inv:
  assumes i: "peer_inv s xs" and a: "a \<in> set (xs Downloading)"
  shows "\<exists>s' b. finish_one_download (Some a) s = Inr s' \<and> b \<in> set (xs Need) \<and>
    hash_of (info (hp s)) b = hash_of (info (hp s)) a \<and>
    peer_inv s' (xs(Need := remove1 b (xs Need), Downloading := remove1 a (xs Downloading))) \<and>
    info (hp s') = (info (hp s))(b := None, a := None) \<and> config s' = config s \<and>
    output_fd (mydownload (me s')) = output_fd (mydownload (me s)) \<and> wd s' = wd s"
proof -
  let ?I = "info (hp s)"
  have s: "shape s xs" and nk: "nodes_ok ?I xs" and rq: "requests_ok ?I xs" and ck: "counters_ok s xs"
    using i by (auto simp: peer_inv_def)
  obtain n where n: "?I a = Some n" "node_ok Downloading n" using nk a by (rule nodes_okD)
  have len: "length (node_hash n) = 20" using n(2) by (simp add: node_ok_def)
  from load_info [OF n(1)] obtain m where m: "load (hp s) (Some a) = Inr m" "node_hash m = node_hash n"
    by (metis unlinked_simps(2))
  have ha: "hash_of ?I a = node_hash n" by (simp add: hash_of_def n(1))
  have "a \<in> claims xs" using a by (simp add: claims_def)
  then have "node_hash n \<in> hash_of ?I ` set (xs Need)" using requests_ok_needed [OF rq] ha by (metis imageI subsetD)
  then obtain b where b: "find_node (hp s) (lst s Need) (node_hash n) = Inr (Some b)" "b \<in> set (xs Need)"
    "hash_of ?I b = node_hash n" using find_hash_of [OF s len, of Need] by (metis option.exhaust)
  from delete_hash_in_shape [OF s b(1)] obtain s1 where s1: "delete_hash_in Need (node_hash n) s = Inr s1"
    "shape s1 (xs(Need := remove1 b (xs Need)))" "info (hp s1) = ?I(b := None)" "scalars s1 = scalars s" "wd s1 = wd s"
    by blast
  let ?ys = "xs(Need := remove1 b (xs Need), Downloading := remove1 a (xs Downloading))"
  have e: "(xs(Need := remove1 b (xs Need))) Downloading = xs Downloading" by simp
  have "a \<in> set ((xs(Need := remove1 b (xs Need))) Downloading)" using a by simp
  from delete_in_shape [OF s1(2) this] obtain s2 where s2: "delete_in Downloading (Some a) s1 = Inr s2"
    "shape s2 ?ys" "info (hp s2) = ?I(b := None, a := None)" "scalars s2 = scalars s1" "wd s2 = wd s1"
    unfolding e s1(3) by blast
  have apart: "b \<notin> set (?ys l) \<and> a \<notin> set (?ys l)" for l
    using shapeD(3) [OF s, of Need l] shapeD(3) [OF s, of Downloading l] shapeD(4) [OF s] a b(2) by auto
  have sub: "set (?ys l) \<subseteq> set (xs l)" for l by (auto dest: set_remove1_subset [THEN subsetD])
  have same: "info (hp s2) c = ?I c" if "c \<in> set (?ys l)" for c l using apart [of l] that s2(3) by auto
  have "nodes_ok (info (hp s2)) ?ys" using nodes_ok_sub [OF nk sub] same by blast
  moreover have "requests_ok (info (hp s2)) ?ys"
  proof (rule requests_ok_finish [OF rq a _ sub])
    show "hash_of ?I b = hash_of ?I a" using b(3) ha by simp
    show "set (xs Need) \<subseteq> insert b (set (?ys Need))" by (rule subsetI, case_tac "x = b") auto
  qed (use same apart in blast)+
  ultimately have "peer_inv (add_downloads (-1) s2) ?ys"
    using s2(2) ck length_remove1_member [OF a] scalarsD [of s2 s] s2(4) s1(4)
    by (auto simp: peer_inv_def shape_def counters_ok_def)
  moreover have "finish_one_download (Some a) s = Inr (add_downloads (-1) s2)"
    using m s1(1) s2(1) by (simp add: finish_one_download_def)
  ultimately show ?thesis
    using b(2,3) ha s2(3,5) s1(5) scalarsD(1,3) [of s2 s] s2(4) s1(4)
    by (intro exI [of _ "add_downloads (-1) s2"] exI [of _ b]) (simp add: add_downloads_def upd_down_def)
qed

text \<open>When nothing is needed any more nothing is claimed, so completing the download drops no node.\<close>

lemma clear_empty_inv:
  assumes i: "peer_inv s xs" and e: "xs l = []"
  shows "\<exists>s'. clear_in l s = Inr s' \<and> peer_inv s' xs \<and> info (hp s') = info (hp s) \<and> scalars s' = scalars s \<and> wd s' = wd s"
proof -
  have s: "shape s xs" and ck: "counters_ok s xs" using i by (auto simp: peer_inv_def)
  have x: "xs(l := []) = xs" using e by (metis fun_upd_triv)
  from clear_in_shape [OF s, of l] obtain s' where s': "clear_in l s = Inr s'" "shape s' xs"
    "\<And>a. info (hp s') a = (if a \<in> set (xs l) then None else info (hp s) a)" "scalars s' = scalars s" "wd s' = wd s"
    unfolding x by auto
  have I: "info (hp s') = info (hp s)" by (rule ext) (simp add: s'(3) e)
  have "counters_ok s' xs" using ck scalarsD [OF s'(4)] by (simp add: counters_ok_def)
  then have "peer_inv s' xs" using i s'(2) by (simp add: peer_inv_def I)
  with s' I show ?thesis by auto
qed

lemma complete_mydownload_inv:
  assumes i: "peer_inv s xs" and need: "xs Need = []"
  shows "\<exists>s'. complete_mydownload s = Inr s' \<and> peer_inv s' xs \<and> xs To_send = [] \<and> xs Sent = [] \<and> xs Downloading = [] \<and>
    max_download_num (mydownload (me s')) = 0 \<and> config s' = config s \<and>
    wd s' = os_close (wd s) (output_fd (mydownload (me s)))"
proof -
  have "claims xs = {}" using i need by (auto simp: peer_inv_def requests_ok_def)
  then have e: "xs To_send = []" "xs Sent = []" "xs Downloading = []" by (auto simp: claims_def)
  let ?s1 = "upd_down (\<lambda>c. c\<lparr>max_download_num := 0\<rparr>) (s\<lparr>wd := os_close (wd s) (output_fd (mydownload (me s)))\<rparr>)"
  have "lst ?s1 = lst s" by (rule ext) (case_tac x; simp add: upd_down_def)
  then have i1: "peer_inv ?s1 xs" using i e by (auto simp: peer_inv_def shape_def counters_ok_def upd_down_def)
  from clear_empty_inv [OF i1 e(1)] obtain s2 where s2: "clear_in To_send ?s1 = Inr s2" "peer_inv s2 xs"
    "scalars s2 = scalars ?s1" "wd s2 = wd ?s1" by blast
  from clear_empty_inv [OF s2(2) e(2)] obtain s3 where s3: "clear_in Sent s2 = Inr s3" "peer_inv s3 xs"
    "scalars s3 = scalars s2" "wd s3 = wd s2" by blast
  from clear_empty_inv [OF s3(2) e(3)] obtain s4 where s4: "clear_in Downloading s3 = Inr s4" "peer_inv s4 xs"
    "scalars s4 = scalars s3" "wd s4 = wd s3" by blast
  have sc: "scalars s4 = scalars ?s1" using s4(3) s3(3) s2(3) by simp
  have "max_download_num (mydownload (me s4)) = 0" "config s4 = config s"
    using scalarsD(5) [OF sc] scalarsD(1) [OF sc] by (simp_all add: upd_down_def)
  moreover have "wd s4 = os_close (wd s) (output_fd (mydownload (me s)))"
    using s4(4) s3(4) s2(4) by (simp add: upd_down_def)
  moreover have "complete_mydownload s = Inr s4"
    using s2(1) s3(1) s4(1) unfolding complete_mydownload_def Let_def by simp
  ultimately show ?thesis using s4(2) e by blast
qed

text \<open>Ten seconds without data, at the reading \<open>t\<close> of the clock.\<close>

definition download_expired :: "contents \<Rightarrow> int \<Rightarrow> nat \<Rightarrow> bool" where
  "download_expired I t a \<longleftrightarrow> t - node_time (the (I a)) > 5 * TIMEOUT_SEC"

definition ticked :: "nat \<Rightarrow> peer \<Rightarrow> peer" where
  "ticked n s = s\<lparr>wd := (wd s)\<lparr>ticks := ticks (wd s) + n\<rparr>\<rparr>"

lemma ticked_simps [simp]:
  "hp (ticked n s) = hp s" "me (ticked n s) = me s" "config (ticked n s) = config s"
  "ticks (wd (ticked n s)) = ticks (wd s) + n" "clock (wd (ticked n s)) = clock (wd s)" "ticked 0 s = s"
  "ticked m (ticked n s) = ticked (n + m) s" "peer_inv (ticked n s) xs = peer_inv s xs" "shape (ticked n s) xs = shape s xs"
  by (simp_all add: ticked_def shape_def add.assoc)

lemma peer_frame_ticked: "peer_frame s s1 \<Longrightarrow> peer_frame s (ticked n s1)"
  by (auto simp: peer_frame_def ticked_def calm_def)

lemma check_recvdata_timeout_result:
  assumes s: "shape s xs" and a: "a \<in> set (xs Downloading)"
  defines "late \<equiv> download_expired (info (hp s)) (clock (wd s) (ticks (wd s))) a"
  shows "\<not> late \<Longrightarrow> check_recvdata_timeout (Some a) s = Inr (0, ticked 1 s)"
    and "late \<Longrightarrow> \<exists>s1. check_recvdata_timeout (Some a) s = Inr (1, s1) \<and> load (hp s1) (Some a) = Inl UseAfterFree"
proof -
  obtain n where n: "info (hp s) a = Some n" using shapeD(5) [OF s a] by blast
  from load_info [OF n] obtain m where m: "load (hp s) (Some a) = Inr m" "node_time m = node_time n"
    by (metis unlinked_simps(4))
  have l: "late \<longleftrightarrow> clock (wd s) (ticks (wd s)) - node_time m > 5 * TIMEOUT_SEC"
    using n m(2) by (simp add: late_def download_expired_def)
  show "check_recvdata_timeout (Some a) s = Inr (0, ticked 1 s)" if "\<not> late"
    using that m(1) unfolding l by (simp add: check_recvdata_timeout_def time_now_def ticked_def)
  have "shape (s\<lparr>wd := (wd s)\<lparr>ticks := Suc (ticks (wd s))\<rparr>\<rparr>) xs" using s by (simp add: shape_def)
  from delete_in_shape [OF this a] obtain s1 where s1:
    "delete_in Downloading (Some a) (s\<lparr>wd := (wd s)\<lparr>ticks := Suc (ticks (wd s))\<rparr>\<rparr>) = Inr s1"
    "info (hp s1) = (info (hp s))(a := None)" by auto
  have "info (hp s1) a = None" by (simp add: s1(2))
  then have "load (hp (add_downloads (-1) (add_found (-1) s1))) (Some a) = Inl UseAfterFree"
    by (simp add: load_def info_def)
  moreover have "check_recvdata_timeout (Some a) s = Inr (1, add_downloads (-1) (add_found (-1) s1))" if late
    using that m(1) s1(1) unfolding l by (simp add: check_recvdata_timeout_def time_now_def)
  ultimately show "\<exists>s1. check_recvdata_timeout (Some a) s = Inr (1, s1) \<and> load (hp s1) (Some a) = Inl UseAfterFree" if late
    using that by blast
qed

lemma download_node:
  assumes i: "peer_inv s xs" and a: "a \<in> set (xs Downloading)"
  obtains n rs where "info (hp s) a = Some n" and "Recver n = Some rs" and "recv_inv rs" and "recv_hash rs = node_hash n"
    and "0 \<le> chunkid n" "chunkid n < 4096" and "length (node_hash n) = 20"
proof -
  have "nodes_ok (info (hp s)) xs" using i by (simp add: peer_inv_def)
  then obtain n where "info (hp s) a = Some n" "node_ok Downloading n" using a by (rule nodes_okD)
  with that show ?thesis by (auto simp: node_ok_def)
qed

text \<open>Downloads that are neither complete nor late are passed over and nothing changes.\<close>

lemma download_walk:
  assumes "peer_inv s xs" and "xs Downloading = us @ vs @ ys" and "length vs \<le> fuel"
    and "\<forall>j<length vs. \<not> chunk_complete (info (hp s)) (vs ! j) \<and>
      \<not> download_expired (info (hp s)) (clock (wd s) (ticks (wd s) + j)) (vs ! j)"
  shows "download_loop wfuel fuel (first_of (vs @ ys)) s =
    download_loop wfuel (fuel - length vs) (first_of ys) (ticked (length vs) s)"
  using assms
proof (induction vs arbitrary: us fuel s)
  case Nil
  then show ?case by simp
next
  case (Cons a vs)
  obtain k where k: "fuel = Suc k" "length vs \<le> k" using Cons.prems(3) by (cases fuel) auto
  have s: "shape s xs" using Cons.prems(1) by (simp add: peer_inv_def)
  have split: "xs Downloading = us @ a # vs @ ys" using Cons.prems(2) by simp
  then have a: "a \<in> set (xs Downloading)" by simp
  obtain m where m: "load (hp s) (Some a) = Inr m" "next_node m = first_of (vs @ ys)" "info (hp s) a = Some (unlinked m)"
    by (rule cursor_next [OF s split])
  obtain n rs where n: "info (hp s) a = Some n" "Recver n = Some rs" by (rule download_node [OF Cons.prems(1) a])
  have mr: "Recver m = Some rs" using m(3) n by (metis option.inject unlinked_simps(6))
  have c: "recv_bytesnum rs \<noteq> CHUNK_SIZE" using Cons.prems(4) [rule_format, of 0] n by (simp add: chunk_complete_def)
  have "\<not> download_expired (info (hp s)) (clock (wd s) (ticks (wd s))) a" using Cons.prems(4) [rule_format, of 0] by simp
  note t = check_recvdata_timeout_result(1) [OF s a this]
  have step: "download_loop wfuel fuel (first_of ((a # vs) @ ys)) s = download_loop wfuel k (first_of (vs @ ys)) (ticked 1 s)"
    using k(1) m(1,2) mr c t by simp
  have i1: "peer_inv (ticked 1 s) xs" using Cons.prems(1) by simp
  have sp: "xs Downloading = (us @ [a]) @ vs @ ys" using split by simp
  have rest: "\<forall>j<length vs. \<not> chunk_complete (info (hp (ticked 1 s))) (vs ! j) \<and>
      \<not> download_expired (info (hp (ticked 1 s))) (clock (wd (ticked 1 s)) (ticks (wd (ticked 1 s)) + j)) (vs ! j)"
  proof (intro allI impI)
    fix j assume "j < length vs"
    then show "\<not> chunk_complete (info (hp (ticked 1 s))) (vs ! j) \<and>
      \<not> download_expired (info (hp (ticked 1 s))) (clock (wd (ticked 1 s)) (ticks (wd (ticked 1 s)) + j)) (vs ! j)"
      using Cons.prems(4) [rule_format, of "Suc j"] by simp
  qed
  show ?case unfolding step Cons.IH [OF i1 sp k(2) rest] using k(1) by simp
qed

lemma download_stop_late:
  assumes i: "peer_inv s xs" and a: "a \<in> set (xs Downloading)" and c: "\<not> chunk_complete (info (hp s)) a"
    and late: "download_expired (info (hp s)) (clock (wd s) (ticks (wd s))) a"
  shows "download_loop wfuel (Suc fuel) (Some a) s = Inl UseAfterFree"
proof -
  have s: "shape s xs" using i by (simp add: peer_inv_def)
  obtain n rs where n: "info (hp s) a = Some n" "Recver n = Some rs" by (rule download_node [OF i a])
  from load_info [OF n(1)] obtain m where m: "load (hp s) (Some a) = Inr m" "Recver m = Some rs"
    using n(2) by (metis unlinked_simps(6))
  have "recv_bytesnum rs \<noteq> CHUNK_SIZE" using c n by (simp add: chunk_complete_def)
  moreover obtain s1 where "check_recvdata_timeout (Some a) s = Inr (1, s1)" "load (hp s1) (Some a) = Inl UseAfterFree"
    using check_recvdata_timeout_result(2) [OF s a late] by blast
  ultimately show ?thesis using m by simp
qed

lemma download_stop_complete:
  assumes i: "peer_inv s xs" and a: "a \<in> set (xs Downloading)"
    and n: "info (hp s) a = Some n" "Recver n = Some rs" "recv_bytesnum rs = CHUNK_SIZE"
    and r: "reap wfuel rs (chunkid n) (output_fd (mydownload (me s))) (wd s) = Inr (r, w)"
  shows "if length (xs Need) = 1
    then \<exists>s'. download_loop wfuel (Suc fuel) (Some a) s = Inr s' \<and>
      peer_inv s' (xs(Need := [], To_send := [], Sent := [], Downloading := [])) \<and>
      max_download_num (mydownload (me s')) = 0 \<and> config s' = config s \<and>
      wd s' = os_close w (output_fd (mydownload (me s)))
    else download_loop wfuel (Suc fuel) (Some a) s = Inl UseAfterFree"
proof -
  from load_info [OF n(1)] obtain m where m: "load (hp s) (Some a) = Inr m" "Recver m = Some rs" "chunkid m = chunkid n"
    using n(2) by (metis unlinked_simps(3,6))
  have iw: "peer_inv (s\<lparr>wd := w\<rparr>) xs" using i by simp
  from finish_one_download_inv [OF iw a] obtain s1 b where s1: "finish_one_download (Some a) (s\<lparr>wd := w\<rparr>) = Inr s1"
    "b \<in> set (xs Need)" "peer_inv s1 (xs(Need := remove1 b (xs Need), Downloading := remove1 a (xs Downloading)))"
    "info (hp s1) = (info (hp s))(b := None, a := None)" "config s1 = config s"
    "output_fd (mydownload (me s1)) = output_fd (mydownload (me s))" "wd s1 = w" by auto
  let ?xs = "xs(Need := remove1 b (xs Need), Downloading := remove1 a (xs Downloading))"
  have shp: "shape s1 ?xs" using s1(3) by (simp add: peer_inv_def)
  have need: "lst s1 Need = first_of (remove1 b (xs Need))" using cursor_start [OF shp, of Need] by simp
  have len: "length (xs Need) = Suc (length (remove1 b (xs Need)))" by (rule length_remove1_member [OF s1(2)])
  show ?thesis
  proof (cases "remove1 b (xs Need)")
    case Nil
    then have "?xs Need = []" by simp
    from complete_mydownload_inv [OF s1(3) this] obtain s2 where s2: "complete_mydownload s1 = Inr s2" "peer_inv s2 ?xs"
      "?xs To_send = []" "?xs Sent = []" "?xs Downloading = []" "max_download_num (mydownload (me s2)) = 0"
      "config s2 = config s1" "wd s2 = os_close (wd s1) (output_fd (mydownload (me s1)))" by blast
    have x: "?xs = xs(Need := [], To_send := [], Sent := [], Downloading := [])"
      using s2(3-5) Nil by (auto simp: fun_eq_iff)
    have "download_loop wfuel (Suc fuel) (Some a) s = Inr s2"
      using m n(3) r s1(1) need Nil s2(1) by (simp del: list_ptr.simps)
    moreover have "wd s2 = os_close w (output_fd (mydownload (me s)))" "config s2 = config s" using s2(7,8) s1(5-7) by simp_all
    ultimately have "\<exists>s'. download_loop wfuel (Suc fuel) (Some a) s = Inr s' \<and>
      peer_inv s' (xs(Need := [], To_send := [], Sent := [], Downloading := [])) \<and>
      max_download_num (mydownload (me s')) = 0 \<and> config s' = config s \<and>
      wd s' = os_close w (output_fd (mydownload (me s)))"
      using s2(2) [unfolded x] s2(6) by blast
    moreover have "length (xs Need) = 1" using len Nil by simp
    ultimately show ?thesis by presburger
  next
    case (Cons c cs)
    have "info (hp s1) a = None" by (simp add: s1(4))
    then have "check_recvdata_timeout (Some a) s1 = Inl UseAfterFree"
      by (simp add: check_recvdata_timeout_def time_now_def load_def info_def)
    then have "download_loop wfuel (Suc fuel) (Some a) s = Inl UseAfterFree"
      using m n(3) r s1(1) need Cons by (simp del: list_ptr.simps)
    with len Cons show ?thesis by simp
  qed
qed

section \<open>The walk over the downloads\<close>

text \<open>
  The downloads at the front of the list that are neither complete nor late when the loop
  comes to them; every one of them takes one reading of the clock.
\<close>

definition waiting :: "peer \<Rightarrow> nat list \<Rightarrow> bool" where
  "waiting s vs \<longleftrightarrow> (\<forall>j<length vs. \<not> chunk_complete (info (hp s)) (vs ! j) \<and>
     \<not> download_expired (info (hp s)) (clock (wd s) (ticks (wd s) + j)) (vs ! j))"

lemma downloads_loop_walk:
  assumes i: "peer_inv s xs" and split: "xs Downloading = vs @ ys" and w: "waiting s vs"
  shows "\<exists>fuel. length ys \<le> fuel \<and> downloads_loop wfuel s = download_loop wfuel (Suc fuel) (first_of ys) (ticked (length vs) s)"
proof -
  have s: "shape s xs" using i by (simp add: peer_inv_def)
  have len: "length vs + length ys \<le> fresh (hp s)"
    using distinct_allocated [OF s shapeD(4) [OF s, of Downloading]] split by (metis UN_upper UNIV_I length_append)
  have "length vs \<le> Suc (fresh (hp s))" using len by simp
  from download_walk [OF i _ this, of "[]" ys] split w
  have "downloads_loop wfuel s = download_loop wfuel (Suc (fresh (hp s) - length vs)) (first_of ys) (ticked (length vs) s)"
    using cursor_start [OF s, of Downloading] len by (simp add: downloads_loop_def waiting_def Suc_diff_le)
  with len show ?thesis by (intro exI [of _ "fresh (hp s) - length vs"]) simp
qed

section \<open>The last chunk\<close>

lemma last_chunk_result:
  assumes "peer_inv s xs" and "length (xs Need) = 1" and "a \<in> set (xs Downloading)"
    and "info (hp s) a = Some n" "Recver n = Some rs" and "recv_bytesnum rs = CHUNK_SIZE"
    and "assembling data rs" "length data = 524288"
    and "progressing_writes (wd s)" "open_fds (wd s) (output_fd (mydownload (me s))) = Some (name, pos)"
  shows "\<exists>s'. downloads_loop 524288 s = Inr s' \<and>
    peer_inv s' (xs(Need := [], To_send := [], Sent := [], Downloading := [])) \<and>
    content (wd s') name = (if fips_sha1 data = node_hash n
      then overwrite (content (wd s) name) (nat (chunkid n * CHUNK_SIZE)) data else content (wd s) name) \<and>
    open_fds (wd s') (output_fd (mydownload (me s))) = None \<and> sent (wd s') = sent (wd s) \<and> router (wd s') = router (wd s) \<and> config s' = config s"
proof -
  let ?fd = "output_fd (mydownload (me s))"
  obtain n' rs' where "info (hp s) a = Some n'" "Recver n' = Some rs'" "recv_hash rs' = node_hash n'"
    "0 \<le> chunkid n'" "chunkid n' < 4096" "length (node_hash n') = 20" by (rule download_node [OF assms(1,3)])
  then have n: "recv_hash rs = node_hash n" "0 \<le> chunkid n" "chunkid n < 4096" "length (recv_hash rs) = 20"
    using assms(4,5) by auto
  have "\<exists>r w. reap 524288 rs (chunkid n) ?fd (wd s) = Inr (r, w) \<and> content w name =
    (if fips_sha1 data = node_hash n then overwrite (content (wd s) name) (nat (chunkid n * CHUNK_SIZE)) data
     else content (wd s) name)"
  proof (cases "fips_sha1 data = node_hash n")
    case True
    from reap_writes_chunk [OF assms(7,8,6) _ n(2,3) assms(9,10) order_refl] n(1) True show ?thesis by auto
  next
    case False
    have "NPE rs = 513" using assms(6,7) by (simp add: assembling_def CHUNK_SIZE_def)
    from reap_without_write(2) [OF assms(7,8) this n(4)] n(1) False show ?thesis by auto
  qed
  then obtain r w where r: "reap 524288 rs (chunkid n) ?fd (wd s) = Inr (r, w)" "content w name =
    (if fips_sha1 data = node_hash n then overwrite (content (wd s) name) (nat (chunkid n * CHUNK_SIZE)) data
     else content (wd s) name)" by blast
  obtain us ys where split: "xs Downloading = us @ a # ys" using assms(3) by (meson split_list)
  have us: "us = []"
  proof -
    obtain b where b: "xs Need = [b]" using assms(2) by (metis One_nat_def length_0_conv length_Suc_conv)
    have inj: "inj_on (hash_of (info (hp s))) (claims xs)" and sub: "hash_of (info (hp s)) ` claims xs \<subseteq> {hash_of (info (hp s)) b}"
      using assms(1) b requests_ok_needed [of "info (hp s)" xs] by (auto simp: peer_inv_def requests_ok_def)
    have "c = a" if "c \<in> set us" for c
    proof -
      have "c \<in> claims xs" "a \<in> claims xs" using that split by (auto simp: claims_def)
      moreover from this sub have "hash_of (info (hp s)) c = hash_of (info (hp s)) a" by (metis imageI singletonD subsetD)
      ultimately show ?thesis using inj_onD [OF inj] by blast
    qed
    moreover have "distinct (us @ a # ys)" using assms(1) shapeD(4) [of s xs Downloading] split by (simp add: peer_inv_def)
    ultimately show ?thesis by (cases us) auto
  qed
  have "waiting s []" by (simp add: waiting_def)
  from downloads_loop_walk [OF assms(1) _ this, of "a # ys" 524288] split us obtain fuel where
    "downloads_loop 524288 s = download_loop 524288 (Suc fuel) (Some a) s" by auto
  with download_stop_complete [OF assms(1,3-6) r(1), of fuel] assms(2) r(2) reap_sent [OF r(1)] show ?thesis
    by (auto simp: os_close_def content_def)
qed

section \<open>Properties\<close>





text \<open>
  As long as no chunk is complete and no download is late, the loop over the downloads
  changes nothing: it reads the clock once for each of them.
\<close>

theorem downloads_wait:
  assumes "peer_inv s xs" and "waiting s (xs Downloading)"
  shows "downloads_loop wfuel s = Inr (ticked (length (xs Downloading)) s)"
  using downloads_loop_walk [OF assms(1) _ assms(2), of "[]" wfuel] by auto

text \<open>A peer that is receiving a chunk: with the given needed chunks and receiver.\<close>

definition loading_heap :: "Recv_State \<Rightarrow> heap" where
  "loading_heap rs = \<lparr>nodes = [0 \<mapsto> sample_node 1 1 0 None None, 1 \<mapsto> sample_node 1 2 1 (Some 2) None,
     2 \<mapsto> (sample_node 1 3 2 None None)\<lparr>node_hash := recv_hash rs\<rparr>,
     3 \<mapsto> (sample_node 5 3 2 None None)\<lparr>node_hash := recv_hash rs, Recver := Some rs\<rparr>], fresh = 4\<rparr>"

definition loading_peer :: "nat list \<Rightarrow> Recv_State \<Rightarrow> peer" where
  "loading_peer need rs = \<lparr>config = sample_config,
     me = \<lparr>me_id = 1, me_addr = sample_addr_of 1, haslist = Some 0,
       mydownload = \<lparr>output_fd = 7, concurr_download_num = 1, max_download_num = 3, howmany_found = 1,
         howmany_need = 2, needlist = first_of need, get_tosend_quene = None, get_tosend_tail = None,
         get_sent_list = None, downloading_list = Some 3\<rparr>,
       myupload = \<lparr>concurr_upload_num = 0, max_upload_num = 3, uploading_list = None, uploaded_list = None\<rparr>\<rparr>,
     hp = loading_heap rs, wd = sample_disk\<rparr>"

definition loading_lists :: "nat list \<Rightarrow> list_var \<Rightarrow> nat list" where
  "loading_lists need l = (case l of Has \<Rightarrow> [0] | Need \<Rightarrow> need | Downloading \<Rightarrow> [3] | _ \<Rightarrow> [])"

lemma loading_lists_simps [simp]:
  "loading_lists need Has = [0]" "loading_lists need Need = need" "loading_lists need To_send = []"
  "loading_lists need Sent = []" "loading_lists need Downloading = [3]" "loading_lists need Uploading = []"
  "loading_lists need Uploaded = []"
  by (simp_all add: loading_lists_def)

lemma loading_info:
  "info (loading_heap rs) 0 = Some (sample_node 1 1 0 None None)"
  "info (loading_heap rs) (Suc 0) = Some (sample_node 1 2 1 None None)"
  "info (loading_heap rs) 2 = Some ((sample_node 1 3 2 None None)\<lparr>node_hash := recv_hash rs\<rparr>)"
  "info (loading_heap rs) 3 = Some ((sample_node 5 3 2 None None)\<lparr>node_hash := recv_hash rs, Recver := Some rs\<rparr>)"
  by (simp_all add: info_def loading_heap_def sample_node_def unlinked_def)

lemma loading_peer_simps: "hp (loading_peer need rs) = loading_heap rs" "wd (loading_peer need rs) = sample_disk"
  "output_fd (mydownload (me (loading_peer need rs))) = 7"
  by (simp_all add: loading_peer_def)

lemma loading_inv:
  assumes need: "need = [2] \<or> need = [1, 2]" and rs: "recv_inv rs" "length (recv_hash rs) = 20"
  shows "peer_inv (loading_peer need rs) (loading_lists need)"
proof -
  let ?p = "loading_peer need rs" and ?xs = "loading_lists need"
  have l: "is_list (loading_heap rs) (lst ?p l) (?xs l)" for l
    using need by (cases l) (auto simp: is_list_def loading_peer_def loading_heap_def sample_node_def)
  have d: "set (?xs l) \<inter> set (?xs m) = {}" if "l \<noteq> m" for l m
    using that need by (cases l; cases m) auto
  have h: "heap_ok (loading_heap rs)" by (simp add: heap_ok_def loading_heap_def)
  have "hashes_ok (loading_heap rs)" using rs(2)
    by (auto simp: hashes_ok_def loading_heap_def info_def sample_node_def unlinked_def split: if_splits)
  with l d h have s: "shape ?p ?xs" by (simp add: shape_def lists_ok_def loading_peer_def)
  have "\<exists>n. info (loading_heap rs) a = Some n \<and> node_ok l n" if "a \<in> set (?xs l)" for a l
    using that need rs by (cases l) (auto simp: loading_info node_ok_def sample_node_def)
  then have "nodes_ok (info (loading_heap rs)) ?xs" by (simp add: nodes_ok_def)
  moreover have "requests_ok (info (loading_heap rs)) ?xs"
    using need by (auto simp: requests_ok_def claims_def running_def key_of_def hash_of_def loading_info sample_node_def)
  moreover have "counters_ok ?p ?xs" by (simp add: counters_ok_def loading_peer_def sample_config_def)
  ultimately show ?thesis using s by (simp add: peer_inv_def loading_peer_def)
qed

lemma loading_sample:
  obtains rs where "assembling sample_chunk rs" and "recv_bytesnum rs = CHUNK_SIZE" and "recv_hash rs = fips_sha1 sample_chunk"
    and "peer_inv (loading_peer [2] rs) (loading_lists [2])" "peer_inv (loading_peer [1, 2] rs) (loading_lists [1, 2])"
proof -
  obtain r0 where "create_Recver (fips_sha1 sample_chunk) = Inr r0" using sample_recver by blast
  then obtain rs where rs: "assembling sample_chunk rs" "recv_bytesnum rs = CHUNK_SIZE" "recv_hash rs = fips_sha1 sample_chunk"
    using sample_transfer by metis
  have "recv_inv rs" "length (recv_hash rs) = 20" using rs by (simp_all add: assembling_def)
  with rs that loading_inv show ?thesis by blast
qed

theorem downloads_wait_witness:
  "\<exists>rs. downloads_loop 0 (loading_peer [1, 2] rs) = Inr (ticked 1 (loading_peer [1, 2] rs))"
proof -
  obtain rs where rs: "create_Recver (replicate 20 9) = Inr rs" "recv_inv rs" "recv_bytesnum rs = 0" "recv_hash rs = replicate 20 9"
    using create_Recver_inv [of "replicate 20 9"] by auto
  have i: "peer_inv (loading_peer [1, 2] rs) (loading_lists [1, 2])" using loading_inv rs(2,4) by simp
  have "waiting (loading_peer [1, 2] rs) (loading_lists [1, 2] Downloading)"
    by (simp add: waiting_def loading_peer_def chunk_complete_def download_expired_def loading_info rs(3) CHUNK_SIZE_def
        TIMEOUT_SEC_def sample_node_def sample_disk_def quiet_world_def)
  from downloads_wait [OF i this, of 0] show ?thesis by auto
qed

text \<open>
  C11. When the last needed chunk is complete, the loop writes it at its place in the output file
  and completes the download: nothing is needed, offered, requested or received any more, and
  the file is closed. A chunk whose digest is wrong is taken off the needed chunks in the same
  way: the download completes without it and nothing is written.
\<close>

theorem last_chunk_completes:
  assumes "peer_inv s xs" and "length (xs Need) = 1" and "a \<in> set (xs Downloading)"
    and "info (hp s) a = Some n" "Recver n = Some rs" and "recv_bytesnum rs = CHUNK_SIZE"
    and "assembling data rs" "length data = 524288"
    and "progressing_writes (wd s)" "open_fds (wd s) (output_fd (mydownload (me s))) = Some (name, pos)"
  shows "\<exists>s'. downloads_loop 524288 s = Inr s' \<and>
    peer_inv s' (xs(Need := [], To_send := [], Sent := [], Downloading := [])) \<and>
    content (wd s') name = (if fips_sha1 data = node_hash n
      then overwrite (content (wd s) name) (nat (chunkid n * CHUNK_SIZE)) data else content (wd s) name) \<and>
    open_fds (wd s') (output_fd (mydownload (me s))) = None"
  using last_chunk_result [OF assms] by blast

theorem last_chunk_completes_witness:
  "\<exists>rs s'. downloads_loop 524288 (loading_peer [2] rs) = Inr s' \<and> needlist (mydownload (me s')) = None \<and>
    content (wd s') [111] = overwrite [] (2 * 524288) sample_chunk"
proof -
  obtain rs where rs: "assembling sample_chunk rs" "recv_bytesnum rs = CHUNK_SIZE" "recv_hash rs = fips_sha1 sample_chunk"
    "peer_inv (loading_peer [2] rs) (loading_lists [2])" by (rule loading_sample)
  let ?s = "loading_peer [2] rs"
  note i = rs(4)
  note f = loading_peer_simps
  have p: "progressing_writes (wd ?s)" "open_fds (wd ?s) (output_fd (mydownload (me ?s))) = Some ([111], 0)"
    using sample_disk_simps f by simp_all
  have n: "length (loading_lists [2] Need) = 1" "3 \<in> set (loading_lists [2] Downloading)" by simp_all
  have I: "info (hp ?s) 3 = Some ((sample_node 5 3 2 None None)\<lparr>node_hash := recv_hash rs, Recver := Some rs\<rparr>)"
    by (simp add: f loading_info)
  have R: "Recver ((sample_node 5 3 2 None None)\<lparr>node_hash := recv_hash rs, Recver := Some rs\<rparr>) = Some rs" by simp
  from last_chunk_completes [OF i n I R rs(2,1) sample_chunk_length p] obtain s' where s': "downloads_loop 524288 ?s = Inr s'"
    "peer_inv s' ((loading_lists [2])(Need := [], To_send := [], Sent := [], Downloading := []))"
    "content (wd s') [111] = overwrite [] (2 * 524288) sample_chunk"
    using rs(3) f sample_disk_simps(3) by (auto simp: sample_node_def CHUNK_SIZE_def)
  have "shape s' ((loading_lists [2])(Need := [], To_send := [], Sent := [], Downloading := []))"
    using s'(2) by (simp add: peer_inv_def)
  from cursor_start [OF this, of Need] have "lst s' Need = None" by simp
  with s' show ?thesis by auto
qed

text \<open>
  C27. The first download in the list that is late, or complete while other chunks are still
  needed, is freed by the loop, which then reads the freed node. So no download of two or more
  chunks gets past its first finished chunk.
\<close>

theorem finished_download_faults:
  assumes "peer_inv s xs" and "xs Downloading = vs @ a # ys" and "waiting s vs"
    and "if chunk_complete (info (hp s)) a
      then length (xs Need) \<noteq> 1 \<and> ok (reap wfuel (the (Recver (the (info (hp s) a)))) (chunkid (the (info (hp s) a)))
             (output_fd (mydownload (me s))) (wd (ticked (length vs) s)))
      else download_expired (info (hp s)) (clock (wd s) (ticks (wd s) + length vs)) a"
  shows "downloads_loop wfuel s = Inl UseAfterFree"
proof -
  let ?s = "ticked (length vs) s"
  have a: "a \<in> set (xs Downloading)" using assms(2) by simp
  have i: "peer_inv ?s xs" using assms(1) by simp
  obtain fuel where f: "downloads_loop wfuel s = download_loop wfuel (Suc fuel) (Some a) ?s"
    using downloads_loop_walk [OF assms(1-3), of wfuel] by auto
  show ?thesis
  proof (cases "chunk_complete (info (hp s)) a")
    case True
    obtain n rs where n: "info (hp s) a = Some n" "Recver n = Some rs" by (rule download_node [OF assms(1) a])
    with True have c: "recv_bytesnum rs = CHUNK_SIZE" by (simp add: chunk_complete_def)
    from True assms(4) n obtain r w where "length (xs Need) \<noteq> 1"
      "reap wfuel rs (chunkid n) (output_fd (mydownload (me ?s))) (wd ?s) = Inr (r, w)" by (auto simp: ok_iff)
    with download_stop_complete [OF i a _ n(2) c, of wfuel r w fuel] n(1) f show ?thesis by simp
  next
    case False
    with download_stop_late [OF i a, of wfuel fuel] assms(4) f show ?thesis by simp
  qed
qed

theorem finished_download_faults_witness:
  "\<exists>rs. downloads_loop 524288 (loading_peer [1, 2] rs) = Inl UseAfterFree"
proof -
  obtain rs where rs: "assembling sample_chunk rs" "recv_bytesnum rs = CHUNK_SIZE" "recv_hash rs = fips_sha1 sample_chunk"
    "peer_inv (loading_peer [1, 2] rs) (loading_lists [1, 2])" by (rule loading_sample)
  let ?s = "loading_peer [1, 2] rs"
  note f = loading_peer_simps
  have sp: "loading_lists [1, 2] Downloading = [] @ 3 # []" by simp
  have w: "waiting ?s []" by (simp add: waiting_def)
  have c: "chunk_complete (info (hp ?s)) 3" by (simp add: chunk_complete_def f loading_info rs(2))
  have "\<exists>r w. reap 524288 rs 2 7 sample_disk = Inr (r, w)"
    using reap_writes_chunk [OF rs(1) sample_chunk_length rs(2,3), of 2 sample_disk 7 "[111]" 0 524288] sample_disk_simps by auto
  then have "ok (reap 524288 (the (Recver (the (info (hp ?s) 3)))) (chunkid (the (info (hp ?s) 3)))
      (output_fd (mydownload (me ?s))) (wd (ticked (length ([] :: nat list)) ?s)))"
    by (simp add: f loading_info sample_node_def ok_iff)
  with finished_download_faults [OF rs(4) sp w, of 524288] c show ?thesis by auto
qed

end
