(* ===== verification/PeerLoop.thy ===== *)
theory PeerLoop
  imports PeerTransfers WinLog
begin

text \<open>
  Terminal commands, one turn of \<open>peer_run\<close>, and the start of the program.
\<close>

section \<open>Terminal commands\<close>

text \<open>\<open>open(name, O_RDWR | O_CREAT, 0777)\<close>.\<close>

definition os_open :: "world \<Rightarrow> byte list \<Rightarrow> int \<times> world" where
  "os_open w name =
     (if can_open w name
      then (next_fd w, w\<lparr>files := (files w)(name \<mapsto> (case files w name of None \<Rightarrow> [] | Some f \<Rightarrow> f)),
              open_fds := (open_fds w)(next_fd w \<mapsto> (name, 0)), next_fd := next_fd w + 1\<rparr>)
      else (-1, w))"

definition reset_mydownload :: "byte list \<Rightarrow> byte list \<Rightarrow> peer \<Rightarrow> peer res" where
  "reset_mydownload chunkfile outputfile s0 =
     (let s1 = upd_down (\<lambda>c. c\<lparr>concurr_download_num := 0, max_download_num := max_conn (config s0),
                               howmany_found := 0\<rparr>) s0;
          s2 = s1\<lparr>config := (config s1)\<lparr>output_file := []\<rparr>\<rparr>
      in ebind (clear_in Need s2) (\<lambda>s3.
         ebind (clear_in To_send s3) (\<lambda>s4.
         ebind (clear_in Sent s4) (\<lambda>s5.
         ebind (clear_in Downloading s5) (\<lambda>s6.
         ebind (parse_hasneed_list (files (wd s6)) (hp s6) (lst s6 Need) (config s6) (Some chunkfile)) (\<lambda>(h, p).
         let s7 = put_list Need p (s6\<lparr>hp := h\<rparr>)
         in ebind (length_of_list (hp s7) (lst s7 Need)) (\<lambda>n.
            let s8 = upd_down (\<lambda>c. c\<lparr>howmany_need := n\<rparr>) s7
            in ebind (mem_write (replicate BT_FILENAME_LEN 0) 0 (cstr outputfile)) (\<lambda>a.
               let s9 = s8\<lparr>config := (config s8)\<lparr>output_file := cstr a\<rparr>\<rparr>
               in case os_open (wd s9) (cstr outputfile) of (fd, w) \<Rightarrow>
                  Inr (upd_down (\<lambda>c. c\<lparr>output_fd := fd\<rparr>) (s9\<lparr>wd := w\<rparr>))))))))))"

definition process_get :: "byte list \<Rightarrow> byte list \<Rightarrow> peer \<Rightarrow> peer res" where
  "process_get chunkfile outputfile s = reset_mydownload chunkfile outputfile s"

text \<open>
  \<open>sscanf(line, "GET %120s %120s", \<dots>)\<close> on a line: both names, when both are there. One
  that is missing leaves the cleared array empty.
\<close>

definition scan_get :: "byte list \<Rightarrow> (byte list \<times> byte list) option" where
  "scan_get line =
     (if take 3 line = ascii ''GET''
      then case scan_word (Some 120) (drop 3 line) of None \<Rightarrow> None
           | Some (chunkf, r) \<Rightarrow>
               (case scan_word (Some 120) r of None \<Rightarrow> None | Some (outf, _) \<Rightarrow> Some (chunkf, outf))
      else None)"

definition handle_user_input :: "peer \<Rightarrow> byte list \<Rightarrow> peer res" where
  "handle_user_input s line =
     (case scan_get line of None \<Rightarrow> Inr s
      | Some (chunkf, outf) \<Rightarrow> if length outf > 0 then process_get chunkf outf s else Inr s)"

section \<open>One turn of the main loop\<close>

text \<open>
  What \<open>select\<close> and the reads after it deliver in one turn: whether anything is ready, the
  outcome of \<open>recvfrom\<close> if the socket is, and of \<open>read\<close> if the terminal is.
\<close>

record turn =
  ready :: bool
  net :: "datagram option option"
  term_input :: "byte list option option"

definition read_inputs ::
  "(nat \<Rightarrow> byte) \<Rightarrow> turn \<Rightarrow> buf \<times> user_iobuf \<times> peer \<Rightarrow> (buf \<times> user_iobuf \<times> peer) res" where
  "read_inputs junk t st =
     (case st of (b, u, s) \<Rightarrow>
       if ready t
       then ebind (case net t of None \<Rightarrow> Inr (b, s) | Some d \<Rightarrow> process_inbound_udp junk d b s) (\<lambda>(b1, s1).
            ebind (case term_input t of None \<Rightarrow> Inr (u, s1)
                   | Some i \<Rightarrow> process_user_input handle_user_input i u s1) (\<lambda>(u1, s2).
            Inr (b1, u1, s2)))
       else Inr (b, u, s))"

definition ask_around :: "peer \<Rightarrow> peer res" where
  "ask_around s =
     ebind (GET_sender s) (\<lambda>(k, s1).
     let d = mydownload (me s1)
     in if k = 0 \<and> howmany_found d < howmany_need d \<and> max_download_num d > concurr_download_num d
          \<and> concurr_download_num d = 0
        then WhoHas_sender (needlist d) (peers (config s1)) s1
        else Inr s1)"

definition peer_turn ::
  "(nat \<Rightarrow> byte) \<Rightarrow> nat \<Rightarrow> turn \<Rightarrow> buf \<times> user_iobuf \<times> peer \<Rightarrow> (buf \<times> user_iobuf \<times> peer) res" where
  "peer_turn junk wfuel t st =
     ebind (read_inputs junk t st) (\<lambda>(b, u, s).
     ebind (check_timeout s) (\<lambda>(_, s1).
     ebind (ask_around s1) (\<lambda>s2.
     ebind (uploads_loop s2) (\<lambda>s3.
     ebind (downloads_loop wfuel s3) (\<lambda>s4.
     Inr (b, u, s4))))))"

section \<open>Start\<close>

definition init_peerme :: "bt_config \<Rightarrow> world \<Rightarrow> peer res" where
  "init_peerme c w =
     (let d = \<lparr>output_fd = 0, concurr_download_num = 0, max_download_num = max_conn c, howmany_found = 0,
               howmany_need = 0, needlist = None, get_tosend_quene = None, get_tosend_tail = None,
               get_sent_list = None, downloading_list = None\<rparr>;
          u = \<lparr>concurr_upload_num = 0, max_upload_num = max_conn c, uploading_list = None, uploaded_list = None\<rparr>
      in ebind (parse_hasneed_list (files w) empty_heap None c None) (\<lambda>(h, p).
         Inr \<lparr>config = c, me = \<lparr>me_id = identity c, me_addr = own_addr c, haslist = p, mydownload = d,
              myupload = u\<rparr>, hp = h, wd = w\<rparr>))"

text \<open>
  \<open>peer_run\<close> up to its loop, with the results of \<open>socket\<close> and \<open>bind\<close>: when one of them fails, the
  program exits.
\<close>

definition peer_run_setup ::
  "int \<Rightarrow> int \<Rightarrow> (byte list \<Rightarrow> u32 option) \<Rightarrow> byte list option \<Rightarrow> peer \<Rightarrow> (buf \<times> user_iobuf \<times> peer) res" where
  "peer_run_setup socket_result bind_result inet_aton env s =
     guard (socket_result \<noteq> -1) (ExitProgram (-1)) (
     guard (bind_result \<noteq> -1) (ExitProgram (-1)) (
     case spiffy_init inet_aton (wd s) env (word_of_int (identity (config s))) (own_addr (config s)) of (_, w1) \<Rightarrow>
       Inr (zero_buf, create_userbuf, s\<lparr>wd := w1\<rparr>)))"

lemma peer_run_setup_exits [simp]:
  "peer_run_setup (-1) bound inet_aton env s = Inl (ExitProgram (-1))"
  "peer_run_setup sock (-1) inet_aton env s = Inl (ExitProgram (-1))"
  by (simp_all add: peer_run_setup_def guard_def)

definition winlog_name :: "byte list" where "winlog_name = ascii ''problem2-peer.txt''"

text \<open>
  \<open>main\<close> up to the first turn of \<open>peer_run\<close>. The log that is opened first stays open, so that no later
  call of \<open>winlog\<close> meets a null stream (\<open>log_run\<close>), and nothing else depends on it. The options that \<open>getopt\<close> finds, the resolver,
  \<open>inet_aton\<close> and the environment variable are parameters; the socket is taken to be created and bound.
\<close>

definition start_peer ::
  "(byte list \<Rightarrow> u32 option) \<Rightarrow> (byte list \<Rightarrow> u32 option) \<Rightarrow> byte list option \<Rightarrow> (byte \<times> byte list) list
   \<Rightarrow> world \<Rightarrow> (buf \<times> user_iobuf \<times> peer) res" where
  "start_peer gethostbyname inet_aton env opts w =
     ebind (init_winlog winlog_name w) (\<lambda>(_, w1).
     ebind (bt_parse_command_line gethostbyname (files w1) opts (testing_defaults bt_init, 0)) (\<lambda>(c, _).
     ebind (init_peerme c w1) (\<lambda>s. peer_run_setup 0 0 inet_aton env s)))"

lemma start_without_log:
  "\<not> can_open w winlog_name \<Longrightarrow> start_peer gethostbyname inet_aton env opts w = Inl (ExitProgram 0)"
  by (simp add: start_peer_def init_winlog_fails)

section \<open>A GET command\<close>

text \<open>A file name that \<open>sscanf\<close> reads as one word of at most 120 bytes.\<close>

definition plain_name :: "byte list \<Rightarrow> bool" where
  "plain_name w \<longleftrightarrow> w \<noteq> [] \<and> length w \<le> 120 \<and> list_all (\<lambda>c. \<not> is_space c \<and> c \<noteq> 0) w"

definition get_line :: "byte list \<Rightarrow> byte list \<Rightarrow> byte list" where
  "get_line chunkf outf = ascii ''GET '' @ chunkf @ 32 # outf"

lemma scan_word_name:
  assumes "plain_name w" and "r = [] \<or> is_space (hd r)"
  shows "scan_word (Some 120) (32 # w @ r) = Some (w, r)"
proof -
  obtain c cs where w: "w = c # cs" "\<not> is_space c" using assms(1) by (cases w) (auto simp: plain_name_def)
  have sk: "skip_space (32 # w @ r) = w @ r"
    using w by (simp add: skip_space_def is_space_def [of 32])
  have "takeWhile (\<lambda>c. \<not> is_space c) (w @ r) = w @ takeWhile (\<lambda>c. \<not> is_space c) r"
    using assms(1) by (subst takeWhile_append2) (auto simp: plain_name_def list_all_iff)
  also have "takeWhile (\<lambda>c. \<not> is_space c) r = []" using assms(2) by (cases r) auto
  finally have tw: "takeWhile (\<lambda>c. \<not> is_space c) (w @ r) = w" by simp
  have "length w \<le> 120" "w \<noteq> []" using assms(1) by (simp_all add: plain_name_def)
  then show ?thesis unfolding scan_word_def Let_def sk tw by simp
qed

lemma scan_get_line:
  assumes "plain_name chunkf" and "plain_name outf"
  shows "scan_get (get_line chunkf outf) = Some (chunkf, outf)"
proof -
  have "take 3 (get_line chunkf outf) = ascii ''GET''" "drop 3 (get_line chunkf outf) = 32 # chunkf @ 32 # outf"
    by (simp_all add: get_line_def ascii_def)
  moreover have "scan_word (Some 120) (32 # chunkf @ 32 # outf) = Some (chunkf, 32 # outf)"
    by (rule scan_word_name [OF assms(1)]) (simp add: is_space_def)
  moreover have "scan_word (Some 120) (32 # outf @ []) = Some (outf, [])"
    by (rule scan_word_name [OF assms(2)]) simp
  ultimately show ?thesis by (simp add: scan_get_def)
qed

lemma plain_name_cstr: "plain_name w \<Longrightarrow> cstr w = w"
  by (auto simp: plain_name_def cstr_def list_all_iff takeWhile_eq_all_conv)

text \<open>Filling an empty list variable from a chunk file.\<close>

lemma parse_shape:
  assumes s: "shape s xs" and f: "files (wd s) name = Some (concat (map chunk_line es))" and es: "list_all wf_chunk es"
    and name: "name = (case fp of None \<Rightarrow> has_chunk_file (config s) | Some p \<Rightarrow> p)"
  shows "\<exists>h p as. parse_hasneed_list (files (wd s)) (hp s) (lst s l) (config s) fp = Inr (h, p) \<and>
    shape (put_list l p (s\<lparr>hp := h\<rparr>)) (xs(l := as @ xs l)) \<and> length as = length es \<and>
    map (\<lambda>a. the (info h a)) as = rev (map (chunk_node (config s)) es) \<and> (\<forall>a. a \<notin> set as \<longrightarrow> info h a = info (hp s) a) \<and>
    (\<forall>a\<in>set as. \<exists>e\<in>set es. info h a = Some (chunk_node (config s) e))"
proof -
  from hasneed_loop_entries [OF shapeD(1) [OF s] es, of "config s" None l] obtain h p as where r:
    "hasneed_loop (own_addr (config s)) (concat (map chunk_line es)) None (hp s) (lst s l) = Inr (h, p)"
    "lists_ok h ((lst s)(l := p)) (xs(l := as @ xs l))" "length as = length es"
    "map (\<lambda>a. the (info h a)) as = rev (map (chunk_node (config s)) es)" "\<forall>a. a \<notin> set as \<longrightarrow> info h a = info (hp s) a"
    by blast
  have nodes: "\<exists>e\<in>set es. info h a = Some (chunk_node (config s) e)" if "a \<in> set as" for a
  proof -
    have "the (info h a) \<in> set (map (\<lambda>a. the (info h a)) as)" using that by simp
    then obtain e where "e \<in> set es" "the (info h a) = chunk_node (config s) e" unfolding r(4) by auto
    moreover have "info h a \<noteq> None" using lists_okD(5) [OF r(2), of a l] that by simp
    ultimately show ?thesis by auto
  qed
  have "hashes_ok h"
    unfolding hashes_ok_def
  proof (intro allI impI)
    fix a n assume n: "info h a = Some n"
    show "length (node_hash n) = 20"
    proof (cases "a \<in> set as")
      case True
      with nodes n es show ?thesis by (fastforce simp: chunk_node_def wf_chunk_def list_all_iff)
    next
      case False
      with r(5) n shapeD(2) [OF s] show ?thesis by (auto simp: hashes_ok_def)
    qed
  qed
  moreover have "parse_hasneed_list (files (wd s)) (hp s) (lst s l) (config s) fp = Inr (h, p)"
    using r(1) f name by (simp add: parse_hasneed_list_def)
  ultimately show ?thesis
    using r(2-5) nodes by (intro exI [of _ h] exI [of _ p] exI [of _ as]) (simp add: shape_def put_list_def)
qed

text \<open>The four lists of the download half are cleared.\<close>

definition cleared :: "(list_var \<Rightarrow> nat list) \<Rightarrow> list_var \<Rightarrow> nat list" where
  "cleared xs = xs(Need := [], To_send := [], Sent := [], Downloading := [])"

lemma cleared_simps [simp]:
  "cleared xs Need = []" "cleared xs To_send = []" "cleared xs Sent = []" "cleared xs Downloading = []"
  "cleared xs Has = xs Has" "cleared xs Uploading = xs Uploading" "cleared xs Uploaded = xs Uploaded"
  by (simp_all add: cleared_def)

lemma clear_lists_shape:
  assumes s: "shape s xs"
  shows "\<exists>s'. ebind (clear_in Need s) (\<lambda>s3. ebind (clear_in To_send s3) (\<lambda>s4. ebind (clear_in Sent s4)
      (\<lambda>s5. clear_in Downloading s5))) = Inr s' \<and> shape s' (cleared xs) \<and>
    (\<forall>l. \<forall>a\<in>set (cleared xs l). info (hp s') a = info (hp s) a) \<and> scalars s' = scalars s \<and> wd s' = wd s"
proof -
  from clear_in_shape [OF s, of Need] obtain s3 where s3: "clear_in Need s = Inr s3" "shape s3 (xs(Need := []))"
    "\<And>a. info (hp s3) a = (if a \<in> set (xs Need) then None else info (hp s) a)" "scalars s3 = scalars s" "wd s3 = wd s" by auto
  from clear_in_shape [OF s3(2), of To_send] obtain s4 where s4: "clear_in To_send s3 = Inr s4"
    "shape s4 (xs(Need := [], To_send := []))"
    "\<And>a. info (hp s4) a = (if a \<in> set (xs To_send) then None else info (hp s3) a)" "scalars s4 = scalars s3" "wd s4 = wd s3"
    by (auto simp del: fun_upd_apply simp: fun_upd_other)
  from clear_in_shape [OF s4(2), of Sent] obtain s5 where s5: "clear_in Sent s4 = Inr s5"
    "shape s5 (xs(Need := [], To_send := [], Sent := []))"
    "\<And>a. info (hp s5) a = (if a \<in> set (xs Sent) then None else info (hp s4) a)" "scalars s5 = scalars s4" "wd s5 = wd s4"
    by (auto simp del: fun_upd_apply simp: fun_upd_other)
  from clear_in_shape [OF s5(2), of Downloading] obtain s6 where s6: "clear_in Downloading s5 = Inr s6"
    "shape s6 (cleared xs)"
    "\<And>a. info (hp s6) a = (if a \<in> set (xs Downloading) then None else info (hp s5) a)" "scalars s6 = scalars s5" "wd s6 = wd s5"
    unfolding cleared_def by (auto simp del: fun_upd_apply simp: fun_upd_other)
  have "info (hp s6) a = info (hp s) a" if "a \<in> set (cleared xs l)" for l a
  proof -
    have "l \<in> {Has, Uploading, Uploaded}" "a \<in> set (xs l)" using that by (cases l; simp)+
    then have "a \<notin> set (xs m)" if "m \<in> {Need, To_send, Sent, Downloading}" for m
      using that shapeD(3) [OF s, of l m] by auto
    then show ?thesis by (simp add: s3(3) s4(3) s5(3) s6(3))
  qed
  with s3(1,4,5) s4(1,4,5) s5(1,4,5) s6(1,2,4,5) show ?thesis by simp
qed

lemma output_name:
  assumes "plain_name w"
  shows "\<exists>a. mem_write (replicate BT_FILENAME_LEN 0) 0 (cstr w) = Inr a \<and> cstr a = w"
proof -
  have w: "0 \<notin> set w" "length w \<le> 120" "w \<noteq> []" using assms by (auto simp: plain_name_def list_all_iff)
  have "mem_write (replicate BT_FILENAME_LEN 0) 0 (cstr w) = Inr (w @ replicate (BT_FILENAME_LEN - length w) 0)"
    using w(2,3) plain_name_cstr [OF assms] by (simp add: mem_write_def BT_FILENAME_LEN_def)
  moreover have "cstr (w @ replicate (BT_FILENAME_LEN - length w) 0) = w"
  proof -
    obtain k where "BT_FILENAME_LEN - length w = Suc k" using w(2) by (cases "BT_FILENAME_LEN - length w") (simp_all add: BT_FILENAME_LEN_def)
    then show ?thesis using takeWhile_upto [OF w(1), of "replicate k 0"] by (simp add: cstr_def)
  qed
  ultimately show ?thesis by blast
qed

lemma reset_mydownload_inv:
  assumes i: "peer_inv s xs" and f: "files (wd s) chunkf = Some (concat (map chunk_line es))"
    and es: "list_all wf_chunk es" "\<forall>e\<in>set es. fst e < 4096" and outf: "plain_name outf"
  shows "\<exists>s' as. reset_mydownload chunkf outf s = Inr s' \<and> peer_inv s' ((cleared xs)(Need := as)) \<and>
    map (\<lambda>a. the (info (hp s') a)) as = rev (map (chunk_node (config s)) es) \<and>
    howmany_need (mydownload (me s')) = int (length es) \<and> howmany_found (mydownload (me s')) = 0 \<and>
    config s' = (config s)\<lparr>output_file := outf\<rparr> \<and> (output_fd (mydownload (me s')), wd s') = os_open (wd s) outf \<and>
    max_download_num (mydownload (me s')) = max_conn (config s) \<and> me_id (me s') = me_id (me s)"
proof -
  let ?I = "info (hp s)"
  have s: "shape s xs" and nk: "nodes_ok ?I xs" and rq: "requests_ok ?I xs" and ck: "counters_ok s xs"
    using i by (auto simp: peer_inv_def)
  let ?s1 = "upd_down (\<lambda>c. c\<lparr>concurr_download_num := 0, max_download_num := max_conn (config s), howmany_found := 0\<rparr>) s"
  let ?s2 = "?s1\<lparr>config := (config ?s1)\<lparr>output_file := []\<rparr>\<rparr>"
  have "lst ?s2 = lst s" by (rule ext) (case_tac x; simp add: upd_down_def)
  then have "shape ?s2 xs" using s by (simp add: shape_def upd_down_def)
  from clear_lists_shape [OF this] obtain s6 where s6: "ebind (clear_in Need ?s2) (\<lambda>s3. ebind (clear_in To_send s3)
      (\<lambda>s4. ebind (clear_in Sent s4) (\<lambda>s5. clear_in Downloading s5))) = Inr s6" "shape s6 (cleared xs)"
    "\<And>l a. a \<in> set (cleared xs l) \<Longrightarrow> info (hp s6) a = ?I a" "scalars s6 = scalars ?s2" "wd s6 = wd s"
    by (auto simp: upd_down_def)
  have cf: "config s6 = (config s)\<lparr>output_file := []\<rparr>" using scalarsD(1) [OF s6(4)] by (simp add: upd_down_def)
  have f6: "files (wd s6) chunkf = Some (concat (map chunk_line es))" using f s6(5) by simp
  have "chunkf = (case Some chunkf of None \<Rightarrow> has_chunk_file (config s6) | Some p \<Rightarrow> p)" by simp
  from parse_shape [OF s6(2) f6 es(1) this, of Need] obtain h p as where r:
    "parse_hasneed_list (files (wd s6)) (hp s6) (lst s6 Need) (config s6) (Some chunkf) = Inr (h, p)"
    "shape (put_list Need p (s6\<lparr>hp := h\<rparr>)) ((cleared xs)(Need := as))" "length as = length es"
    "map (\<lambda>a. the (info h a)) as = rev (map (chunk_node (config s6)) es)" "\<forall>a. a \<notin> set as \<longrightarrow> info h a = info (hp s6) a"
    "\<forall>a\<in>set as. \<exists>e\<in>set es. info h a = Some (chunk_node (config s6) e)" by auto
  let ?s7 = "put_list Need p (s6\<lparr>hp := h\<rparr>)" and ?xs = "(cleared xs)(Need := as)"
  have hp7: "hp ?s7 = h" by simp
  have "is_list h p as" using lists_okD(2) [OF shapeD(1) [OF r(2)], of Need] by (simp add: put_list_def)
  then have n: "length_of_list (hp ?s7) (lst ?s7 Need) = Inr (int (length as))"
    using length_of_list_list lists_okD(1) [OF shapeD(1) [OF r(2)]] by (simp add: put_list_def)
  let ?s8 = "upd_down (\<lambda>c. c\<lparr>howmany_need := int (length as)\<rparr>) ?s7"
  obtain a where a: "mem_write (replicate BT_FILENAME_LEN 0) 0 (cstr outf) = Inr a" "cstr a = outf"
    using output_name [OF outf] by blast
  let ?s9 = "?s8\<lparr>config := (config ?s8)\<lparr>output_file := outf\<rparr>\<rparr>"
  obtain fd w where o: "os_open (wd s) outf = (fd, w)" by (cases "os_open (wd s) outf") blast
  let ?s = "upd_down (\<lambda>c. c\<lparr>output_fd := fd\<rparr>) (?s9\<lparr>wd := w\<rparr>)"
  have wd9: "wd ?s9 = wd s" using s6(5) by (simp add: upd_down_def put_list_def)
  have run: "reset_mydownload chunkf outf s = Inr ?s"
  proof -
    obtain s3 s4 s5 where c: "clear_in Need ?s2 = Inr s3" "clear_in To_send s3 = Inr s4" "clear_in Sent s4 = Inr s5"
      "clear_in Downloading s5 = Inr s6" using s6(1) by (auto simp: ebind_eq_Inr)
    have "plain_name outf \<Longrightarrow> cstr outf = outf" by (rule plain_name_cstr)
    then show ?thesis
      unfolding reset_mydownload_def Let_def
      using c r(1) n a o wd9 outf by simp
  qed
  have I: "info (hp ?s) = info h" by (simp add: upd_down_def put_list_def)
  have keep: "info h a = ?I a" if "a \<in> set (cleared xs l)" "a \<notin> set as" for a l
    using that r(5) s6(3) by simp
  have as: "a \<notin> set as" if "a \<in> set (cleared xs l)" "l \<noteq> Need" for a l
    using shapeD(3) [OF r(2), of l Need] that by auto
  have lst: "lst ?s = lst ?s7" by (rule ext) (case_tac x; simp add: upd_down_def put_list_def)
  have "shape ?s ?xs" using r(2) lst by (simp add: shape_def upd_down_def put_list_def)
  moreover have "nodes_ok (info (hp ?s)) ?xs"
    unfolding nodes_ok_def I
  proof (intro allI ballI)
    fix l a assume a: "a \<in> set (?xs l)"
    show "\<exists>n. info h a = Some n \<and> node_ok l n"
    proof (cases "l = Need")
      case True
      with a r(6) obtain e where "e \<in> set es" "info h a = Some (chunk_node (config s6) e)" by auto
      with True es show ?thesis by (auto simp: node_ok_def chunk_node_def wf_chunk_def list_all_iff)
    next
      case False
      with a have c: "a \<in> set (cleared xs l)" by simp
      then have "a \<in> set (xs l)" by (cases l) simp_all
      with keep [OF c as [OF c False]] nk show ?thesis by (auto simp: nodes_ok_def)
    qed
  qed
  moreover have "requests_ok (info (hp ?s)) ?xs"
  proof -
    have "inj_on (port_of (info h)) (set (xs Uploading)) = inj_on (port_of ?I) (set (xs Uploading))"
      using keep [of _ Uploading] as [of _ Uploading] by (intro inj_on_cong) (simp add: port_of_def)
    then show ?thesis using rq unfolding I by (simp add: requests_ok_def claims_def running_def)
  qed
  moreover have "counters_ok ?s ?xs"
    using ck scalarsD [OF s6(4)] by (simp add: counters_ok_def upd_down_def put_list_def)
  ultimately have "peer_inv ?s ?xs" by (simp add: peer_inv_def)
  moreover have "map (\<lambda>a. the (info (hp ?s) a)) as = rev (map (chunk_node (config s)) es)"
    using r(4) unfolding I cf by (simp add: chunk_node_def own_addr_def)
  moreover have "howmany_need (mydownload (me ?s)) = int (length es)" "howmany_found (mydownload (me ?s)) = 0"
    using r(3) scalarsD(6) [OF s6(4)] by (simp_all add: upd_down_def put_list_def)
  moreover have "config ?s = (config s)\<lparr>output_file := outf\<rparr>" using cf by (simp add: upd_down_def put_list_def)
  moreover have "(output_fd (mydownload (me ?s)), wd ?s) = os_open (wd s) outf" using o by (simp add: upd_down_def)
  moreover have "max_download_num (mydownload (me ?s)) = max_conn (config s)" "me_id (me ?s) = me_id (me s)"
    using scalarsD(2,5) [OF s6(4)] by (simp_all add: upd_down_def put_list_def)
  ultimately show ?thesis using run by blast
qed

section \<open>Asking, uploading and downloading in one turn\<close>

text \<open>What \<open>peer_run\<close> does in a turn after it has read its inputs.\<close>

definition turn_work :: "nat \<Rightarrow> peer \<Rightarrow> peer res" where
  "turn_work wfuel s =
     ebind (check_timeout s) (\<lambda>(_, s1).
     ebind (ask_around s1) (\<lambda>s2.
     ebind (uploads_loop s2) (\<lambda>s3. downloads_loop wfuel s3)))"

lemma peer_turn_work:
  "peer_turn junk wfuel t st = ebind (read_inputs junk t st) (\<lambda>(b, u, s). ebind (turn_work wfuel s) (\<lambda>s'. Inr (b, u, s')))"
  by (simp add: peer_turn_def turn_work_def ebind_assoc case_prod_beta cong: ebind_cong)

text \<open>The requests change, the transfers do not.\<close>

definition transfers_kept :: "peer \<Rightarrow> (list_var \<Rightarrow> nat list) \<Rightarrow> peer \<Rightarrow> (list_var \<Rightarrow> nat list) \<Rightarrow> bool" where
  "transfers_kept s xs s' xs' \<longleftrightarrow> peer_frame s s' \<and> (\<forall>l. l \<noteq> To_send \<longrightarrow> l \<noteq> Sent \<longrightarrow> xs' l = xs l) \<and>
     (\<forall>l. l \<noteq> To_send \<longrightarrow> l \<noteq> Sent \<longrightarrow> (\<forall>a\<in>set (xs l). info (hp s') a = info (hp s) a))"

lemma transfers_kept_trans:
  "transfers_kept s xs s1 xs1 \<Longrightarrow> transfers_kept s1 xs1 s2 xs2 \<Longrightarrow> transfers_kept s xs s2 xs2"
  by (auto simp: transfers_kept_def intro: peer_frame_trans)

lemma timeout_kept:
  assumes i: "peer_inv s xs"
  shows "\<exists>k s' xs'. check_timeout s = Inr (k, s') \<and> peer_inv s' xs' \<and> transfers_kept s xs s' xs'"
proof -
  have s: "shape s xs" using i by (simp add: peer_inv_def)
  from check_timeout_inv [OF i] obtain k s' keep where r: "check_timeout s = Inr (k, s')"
    "peer_inv s' (xs(Sent := filter keep (xs Sent)))"
    "\<And>a. info (hp s') a = (if a \<in> set (xs Sent) \<and> \<not> keep a then None else info (hp s) a)" "peer_frame s s'" by blast
  have "info (hp s') a = info (hp s) a" if "a \<in> set (xs l)" "l \<noteq> Sent" for a l
    using that r(3) [of a] shapeD(3) [OF s that(2)] by auto
  with r(4) have "transfers_kept s xs s' (xs(Sent := filter keep (xs Sent)))" by (simp add: transfers_kept_def)
  with r(1,2) show ?thesis by blast
qed

lemma GET_sender_kept:
  assumes i: "peer_inv s xs"
  shows "\<exists>k s' xs'. GET_sender s = Inr (k, s') \<and> peer_inv s' xs' \<and> transfers_kept s xs s' xs'"
proof -
  have s: "shape s xs" using i by (simp add: peer_inv_def)
  have same: "transfers_kept s xs s xs" by (simp add: transfers_kept_def)
  show ?thesis
  proof (cases "find (\<lambda>a. \<not> offer_busy (info (hp s)) xs a) (xs To_send)")
    case None
    with GET_sender_inv [OF i] i same show ?thesis by auto
  next
    case (Some a)
    then have a: "a \<in> set (xs To_send)" by (auto simp: find_Some_iff)
    show ?thesis
    proof (cases "concurr_download_num (mydownload (me s)) = max_download_num (mydownload (me s))")
      case True
      with Some GET_sender_inv [OF i] i same show ?thesis by auto
    next
      case False
      with Some GET_sender_inv [OF i] obtain s' n t where r: "GET_sender s = Inr (1, s')"
        "peer_inv s' (xs(To_send := remove1 a (xs To_send), Sent := a # xs Sent))" "peer_frame s s'"
        "info (hp s') = (info (hp s))(a \<mapsto> n\<lparr>node_time := t\<rparr>)" by auto
      have "info (hp s') b = info (hp s) b" if "b \<in> set (xs l)" "l \<noteq> To_send" for b l
        using that a shapeD(3) [OF s that(2)] by (auto simp: r(4))
      with r(3) have "transfers_kept s xs s' (xs(To_send := remove1 a (xs To_send), Sent := a # xs Sent))"
        by (simp add: transfers_kept_def)
      with r(1,2) show ?thesis by blast
    qed
  qed
qed

lemma ask_around_kept:
  assumes i: "peer_inv s xs"
  shows "\<exists>s' xs'. ask_around s = Inr s' \<and> peer_inv s' xs' \<and> transfers_kept s xs s' xs'"
proof -
  from GET_sender_kept [OF i] obtain k s1 xs1 where g: "GET_sender s = Inr (k, s1)" "peer_inv s1 xs1"
    "transfers_kept s xs s1 xs1" by blast
  have "shape s1 xs1" using g(2) by (simp add: peer_inv_def)
  from WhoHas_sender_result [OF this, of "peers (config s1)"] obtain groups where w:
    "WhoHas_sender (needlist (mydownload (me s1))) (peers (config s1)) s1 =
      Inr (s1\<lparr>wd := record_sent (wd s1) (broadcasts (router (wd s1)) (me_id (me s1)) (peers (config s1)) (whohas_packets groups))\<rparr>)"
    by auto
  let ?s2 = "s1\<lparr>wd := record_sent (wd s1) (broadcasts (router (wd s1)) (me_id (me s1)) (peers (config s1)) (whohas_packets groups))\<rparr>"
  have "transfers_kept s1 xs1 ?s2 xs1" by (simp add: transfers_kept_def peer_frame_def)
  then have "transfers_kept s xs ?s2 xs1" by (rule transfers_kept_trans [OF g(3)])
  moreover have "peer_inv ?s2 xs1" using g(2) by simp
  ultimately show ?thesis using g w by (auto simp: ask_around_def Let_def)
qed

text \<open>No transfer is late at any reading of the clock and no chunk is complete.\<close>

definition in_time :: "peer \<Rightarrow> (list_var \<Rightarrow> nat list) \<Rightarrow> bool" where
  "in_time s xs \<longleftrightarrow>
     (\<forall>a\<in>set (xs Uploading). \<forall>k. upload_done (info (hp s)) a \<or> \<not> upload_expired (info (hp s)) (clock (wd s) k) a) \<and>
     (\<forall>a\<in>set (xs Downloading). \<not> chunk_complete (info (hp s)) a \<and>
        (\<forall>k. \<not> download_expired (info (hp s)) (clock (wd s) k) a))"

lemma in_time_kept:
  assumes "transfers_kept s xs s' xs'"
  shows "in_time s' xs' = in_time s xs"
proof -
  have "clock (wd s') = clock (wd s)" using assms by (simp add: transfers_kept_def peer_frame_def calm_clock)
  moreover have "xs' Uploading = xs Uploading" "xs' Downloading = xs Downloading"
    "\<forall>a\<in>set (xs Uploading) \<union> set (xs Downloading). info (hp s') a = info (hp s) a"
    using assms by (auto simp: transfers_kept_def)
  ultimately show ?thesis
    by (simp add: in_time_def upload_done_def upload_expired_def chunk_complete_def download_expired_def)
qed

lemma turn_work_steps:
  assumes i: "peer_inv s xs" and t: "in_time s xs"
  shows "\<exists>k s1 xs1 s2 s3 n xs'. check_timeout s = Inr (k, s1) \<and> peer_inv s1 xs1 \<and> ask_around s1 = Inr s2 \<and>
    uploads_loop s2 = Inr s3 \<and> downloads_loop wfuel s3 = Inr (ticked n s3) \<and> peer_inv s3 xs' \<and> peer_frame s s3"
proof -
  from timeout_kept [OF i] obtain k s1 xs1 where s1: "check_timeout s = Inr (k, s1)" "peer_inv s1 xs1"
    "transfers_kept s xs s1 xs1" by blast
  from ask_around_kept [OF s1(2)] obtain s2 xs2 where s2: "ask_around s1 = Inr s2" "peer_inv s2 xs2"
    "transfers_kept s1 xs1 s2 xs2" by blast
  note kept = transfers_kept_trans [OF s1(3) s2(3)]
  have t2: "in_time s2 xs2" using t in_time_kept [OF kept] by simp
  from upload_loop_start [OF s2(2)] t2 obtain s3 where s3: "uploads_loop s2 = Inr s3" "peer_frame s2 s3"
    "peer_inv s3 (xs2(Uploading := filter (\<lambda>a. \<not> upload_done (info (hp s2)) a) (xs2 Uploading),
       Uploaded := rev (filter (upload_done (info (hp s2))) (xs2 Uploading)) @ xs2 Uploaded))"
    "\<forall>b. b \<notin> set (xs2 Uploading) \<longrightarrow> info (hp s3) b = info (hp s2) b"
    unfolding uploads_loop_def in_time_def by blast
  let ?xs = "xs2(Uploading := filter (\<lambda>a. \<not> upload_done (info (hp s2)) a) (xs2 Uploading),
       Uploaded := rev (filter (upload_done (info (hp s2))) (xs2 Uploading)) @ xs2 Uploaded)"
  have s: "shape s2 xs2" using s2(2) by (simp add: peer_inv_def)
  have same: "info (hp s3) a = info (hp s2) a" if "a \<in> set (xs2 Downloading)" for a
    using that s3(4) shapeD(3) [OF s, of Downloading Uploading] by auto
  have ck: "clock (wd s3) = clock (wd s2)" using s3(2) by (simp add: peer_frame_def calm_clock)
  have "\<not> chunk_complete (info (hp s3)) a \<and> (\<forall>k. \<not> download_expired (info (hp s3)) (clock (wd s3) k) a)"
    if "a \<in> set (xs2 Downloading)" for a
    using t2 that same [OF that] ck by (simp add: in_time_def chunk_complete_def download_expired_def)
  then have "waiting s3 (?xs Downloading)" by (simp add: waiting_def)
  then have "downloads_loop wfuel s3 = Inr (ticked (length (xs2 Downloading)) s3)"
    using downloads_loop_walk [OF s3(3), of "?xs Downloading" "[]" wfuel] by auto
  moreover have "peer_frame s s2" using kept by (simp add: transfers_kept_def)
  then have "peer_frame s s3" by (rule peer_frame_trans [OF _ s3(2)])
  ultimately show ?thesis using s1(1,2) s2(1) s3(1,3) by blast
qed

lemma turn_work_safe:
  assumes i: "peer_inv s xs" and t: "in_time s xs"
  shows "\<exists>s' xs'. turn_work wfuel s = Inr s' \<and> peer_inv s' xs' \<and> peer_frame s s'"
proof -
  from turn_work_steps [OF assms] obtain k s1 s2 s3 n xs' where w: "check_timeout s = Inr (k, s1)" "ask_around s1 = Inr s2"
    "uploads_loop s2 = Inr s3" "downloads_loop wfuel s3 = Inr (ticked n s3)" "peer_inv s3 xs'" "peer_frame s s3" by blast
  then have "turn_work wfuel s = Inr (ticked n s3)" by (simp add: turn_work_def)
  moreover have "peer_inv (ticked n s3) xs'" "peer_frame s (ticked n s3)" using w(5) peer_frame_ticked [OF w(6)] by simp_all
  ultimately show ?thesis by blast
qed

section \<open>Inputs\<close>

text \<open>
  A line from the terminal that the peer can handle: no command, or a GET whose chunk file has
  well-formed lines with small identifiers.
\<close>

definition line_adm :: "peer \<Rightarrow> byte list \<Rightarrow> bool" where
  "line_adm s line \<longleftrightarrow> (case scan_get line of None \<Rightarrow> True
     | Some (chunkf, outf) \<Rightarrow> plain_name outf \<and> (\<exists>es. files (wd s) chunkf = Some (concat (map chunk_line es)) \<and>
         list_all wf_chunk es \<and> (\<forall>e\<in>set es. fst e < 4096)))"

lemma handle_user_input_inv:
  assumes i: "peer_inv s xs" and l: "line_adm s line"
  shows "\<exists>s' xs'. handle_user_input s line = Inr s' \<and> peer_inv s' xs' \<and> xs' Uploading = xs Uploading"
proof (cases "scan_get line")
  case None
  with i show ?thesis by (auto simp: handle_user_input_def)
next
  case (Some r)
  then obtain chunkf outf where r: "scan_get line = Some (chunkf, outf)" by (cases r) auto
  with l obtain es where es: "plain_name outf" "files (wd s) chunkf = Some (concat (map chunk_line es))"
    "list_all wf_chunk es" "\<forall>e\<in>set es. fst e < 4096" by (auto simp: line_adm_def)
  from reset_mydownload_inv [OF i es(2-4,1)] obtain s' as where "reset_mydownload chunkf outf s = Inr s'"
    "peer_inv s' ((cleared xs)(Need := as))" by blast
  with r es(1) show ?thesis
    by (intro exI [of _ s'] exI [of _ "(cleared xs)(Need := as)"]) (simp add: handle_user_input_def process_get_def plain_name_def)
qed

interpretation tty: line_handler handle_user_input line_adm peer_ok
proof unfold_locales
  fix s line assume "peer_ok s" "line_adm s line"
  then show "\<exists>s'. handle_user_input s line = Inr s' \<and> peer_ok s'"
    unfolding peer_ok_def using handle_user_input_inv by blast
qed

text \<open>
  The state between two turns: the receive buffer and the line buffer hold what is left of the
  inputs so far, and the peer satisfies its invariant.
\<close>

definition turn_inv :: "buf \<times> user_iobuf \<times> peer \<Rightarrow> bool" where
  "turn_inv st \<longleftrightarrow> (case st of (b, u, s) \<Rightarrow>
     (\<exists>r. holds b r) \<and> (\<exists>str. u = clean_buf str \<and> 0 \<notin> set str \<and> 10 \<notin> set str) \<and> peer_ok s)"

text \<open>The datagram of a turn brings packets that the peer can handle.\<close>

definition net_adm :: "buf \<Rightarrow> peer \<Rightarrow> datagram option option \<Rightarrow> bool" where
  "net_adm b s nt \<longleftrightarrow> (case nt of None \<Rightarrow> True | Some dg \<Rightarrow>
     \<exists>d src msg r ps r'. dg = Some d \<and> holds b r \<and> r @ msg = concat (map wire_bytes ps) @ r' \<and> list_all wf_packet ps \<and>
       length r' < 16 \<and> length r + length msg \<le> BUFLEN2 \<and> arrival (router (wd s)) d src msg \<and> upload_source s \<and>
       accepts packet_step packet_adm s (map (\<lambda>p. (as_received p, src)) ps))"

definition tty_adm :: "user_iobuf \<Rightarrow> peer \<Rightarrow> byte list option option \<Rightarrow> bool" where
  "tty_adm u s ti \<longleftrightarrow> (case ti of None \<Rightarrow> True | Some i \<Rightarrow>
     \<exists>bs str. i = Some bs \<and> u = clean_buf str \<and> length str + length bs \<le> 4096 \<and> 0 \<notin> set (str @ bs) \<and>
       accepts handle_user_input line_adm s (lines_of (str @ bs)))"

definition inputs_adm :: "(nat \<Rightarrow> byte) \<Rightarrow> buf \<times> user_iobuf \<times> peer \<Rightarrow> turn \<Rightarrow> bool" where
  "inputs_adm junk st t \<longleftrightarrow> (case st of (b, u, s) \<Rightarrow> ready t \<longrightarrow> net_adm b s (net t) \<and>
     (case (case net t of None \<Rightarrow> Inr (b, s) | Some d \<Rightarrow> process_inbound_udp junk d b s) of Inl _ \<Rightarrow> True
      | Inr (_, s1) \<Rightarrow> tty_adm u s1 (term_input t)))"

lemma net_safe:
  assumes "holds b r0" and "peer_ok s" and "net_adm b s nt"
  shows "\<exists>b1 s1. (case nt of None \<Rightarrow> Inr (b, s) | Some d \<Rightarrow> process_inbound_udp junk d b s) = Inr (b1, s1) \<and>
    (\<exists>r. holds b1 r) \<and> peer_ok s1"
proof (cases nt)
  case None
  with assms show ?thesis by auto
next
  case (Some dg)
  with assms(3) obtain d src msg r ps r' where a: "dg = Some d" "holds b r" "r @ msg = concat (map wire_bytes ps) @ r'"
    "list_all wf_packet ps" "length r' < 16" "length r + length msg \<le> BUFLEN2" "arrival (router (wd s)) d src msg"
    "upload_source s" "accepts packet_step packet_adm s (map (\<lambda>p. (as_received p, src)) ps)"
    unfolding net_adm_def by (simp del: accepts.simps) blast
  obtain b0 where "holds b0 (concat (map wire_bytes ps) @ r')" "process_inbound_udp junk (Some d) b s = inbound_loop b0 src s"
    using arrival_datagram [OF a(7,2,6), of junk] unfolding a(3) by auto
  moreover obtain b1 where "holds b1 r'" "inbound_loop b0 src s =
      ebind (run_steps packet_step s (map (\<lambda>p. (as_received p, src)) ps)) (\<lambda>s'. Inr (b1, s'))"
    using inbound_loop_holds [OF a(4) calculation(1) a(5), of src s] by blast
  moreover have "serving s s" using assms(2) a(8) by (simp add: serving_def)
  from pk.run_safe [OF this a(9)] obtain s1 where "run_steps packet_step s (map (\<lambda>p. (as_received p, src)) ps) = Inr s1" "peer_ok s1"
    by (auto simp: serving_def)
  ultimately show ?thesis using Some a(1) by auto
qed

lemma tty_safe:
  assumes "u = clean_buf str0" "0 \<notin> set str0" "10 \<notin> set str0" and "peer_ok s" and "tty_adm u s ti"
  shows "\<exists>u1 s1. (case ti of None \<Rightarrow> Inr (u, s) | Some i \<Rightarrow> process_user_input handle_user_input i u s) = Inr (u1, s1) \<and>
    (\<exists>str. u1 = clean_buf str \<and> 0 \<notin> set str \<and> 10 \<notin> set str) \<and> peer_ok s1"
proof (cases ti)
  case None
  with assms show ?thesis by auto
next
  case (Some i)
  with assms(5) obtain bs str where a: "i = Some bs" "u = clean_buf str" "length str + length bs \<le> 4096" "0 \<notin> set (str @ bs)"
    "accepts handle_user_input line_adm s (lines_of (str @ bs))" by (auto simp: tty_adm_def)
  from tty.read_safe [OF assms(4) a(3-5)] Some a(1,2) show ?thesis by auto
qed

lemma read_inputs_safe:
  assumes "turn_inv st" and "inputs_adm junk st t"
  shows "\<exists>st1. read_inputs junk t st = Inr st1 \<and> turn_inv st1"
proof -
  obtain b u s where st: "st = (b, u, s)" by (cases st) auto
  from assms(1) st obtain r str where i: "holds b r" "u = clean_buf str" "0 \<notin> set str" "10 \<notin> set str" "peer_ok s"
    by (auto simp: turn_inv_def)
  show ?thesis
  proof (cases "ready t")
    case False
    with st assms(1) show ?thesis by (simp add: read_inputs_def)
  next
    case True
    with assms(2) st have "net_adm b s (net t)" by (simp add: inputs_adm_def)
    from net_safe [OF i(1,5) this, of junk] obtain b1 s1 where n:
      "(case net t of None \<Rightarrow> Inr (b, s) | Some d \<Rightarrow> process_inbound_udp junk d b s) = Inr (b1, s1)"
      "\<exists>r. holds b1 r" "peer_ok s1" by blast
    have "tty_adm u s1 (term_input t)" using assms(2) True st n(1) by (simp add: inputs_adm_def)
    from tty_safe [OF i(2-4) n(3) this] obtain u1 s2 where
      "(case term_input t of None \<Rightarrow> Inr (u, s1) | Some i \<Rightarrow> process_user_input handle_user_input i u s1) = Inr (u1, s2)"
      "\<exists>str. u1 = clean_buf str \<and> 0 \<notin> set str \<and> 10 \<notin> set str" "peer_ok s2" by blast
    with True st n show ?thesis by (simp add: read_inputs_def turn_inv_def)
  qed
qed

section \<open>The outcome of a turn\<close>

text \<open>The first download that is complete or late when the loop comes to it.\<close>

lemma first_stop:
  assumes "\<not> waiting s ds"
  obtains vs a ys where "ds = vs @ a # ys" and "waiting s vs"
    and "chunk_complete (info (hp s)) a \<or> download_expired (info (hp s)) (clock (wd s) (ticks (wd s) + length vs)) a"
  using assms
proof (induction ds arbitrary: thesis rule: rev_induct)
  case Nil
  then show ?case by (simp add: waiting_def)
next
  case (snoc x ds)
  show ?case
  proof (cases "waiting s ds")
    case True
    with snoc.prems(2) have "chunk_complete (info (hp s)) x \<or> download_expired (info (hp s)) (clock (wd s) (ticks (wd s) + length ds)) x"
      by (auto simp: waiting_def nth_append less_Suc_eq)
    with True snoc.prems(1) show ?thesis by blast
  next
    case False
    show ?thesis by (rule snoc.IH [OF _ False]) (use snoc.prems(1) in auto)
  qed
qed

text \<open>
  The loop over the downloads keeps the invariant unless it stops with one of two faults: the
  use of a freed node, or a fault of \<open>reap\<close>.
\<close>

lemma downloads_loop_outcome:
  assumes i: "peer_inv s xs"
  shows "(\<exists>s' xs'. downloads_loop wfuel s = Inr s' \<and> peer_inv s' xs') \<or> downloads_loop wfuel s = Inl UseAfterFree \<or>
    (\<exists>e rs k fd w. downloads_loop wfuel s = Inl e \<and> reap wfuel rs k fd w = Inl e)"
proof (cases "waiting s (xs Downloading)")
  case True
  from downloads_loop_walk [OF i _ True, of "[]" wfuel] have
    "downloads_loop wfuel s = Inr (ticked (length (xs Downloading)) s)" by auto
  moreover have "peer_inv (ticked (length (xs Downloading)) s) xs" using i by simp
  ultimately show ?thesis by blast
next
  case False
  let ?I = "info (hp s)"
  obtain vs a ys where split: "xs Downloading = vs @ a # ys" and vs: "waiting s vs"
    and stop: "chunk_complete ?I a \<or> download_expired ?I (clock (wd s) (ticks (wd s) + length vs)) a"
    by (rule first_stop [OF False])
  obtain fuel where f: "downloads_loop wfuel s = download_loop wfuel (Suc fuel) (Some a) (ticked (length vs) s)"
    using downloads_loop_walk [OF i split vs, of wfuel] by (auto simp del: download_loop.simps)
  have a: "a \<in> set (xs Downloading)" by (simp add: split)
  have ti: "peer_inv (ticked (length vs) s) xs" using i by simp
  obtain n rs where n: "?I a = Some n" "Recver n = Some rs" by (rule download_node [OF i a])
  show ?thesis
  proof (cases "chunk_complete ?I a")
    case True
    with n have c: "recv_bytesnum rs = CHUNK_SIZE" by (simp add: chunk_complete_def)
    have I: "info (hp (ticked (length vs) s)) a = Some n" using n(1) by simp
    from load_info [OF n(1)] obtain m where m: "load (hp s) (Some a) = Inr m" "Recver m = Some rs" "chunkid m = chunkid n"
      using n(2) by (metis unlinked_simps(3,6))
    show ?thesis
    proof (cases "reap wfuel rs (chunkid n) (output_fd (mydownload (me (ticked (length vs) s)))) (wd (ticked (length vs) s))")
      case (Inl e)
      with f m c show ?thesis by auto
    next
      case (Inr rw)
      then obtain r w where "reap wfuel rs (chunkid n) (output_fd (mydownload (me (ticked (length vs) s)))) (wd (ticked (length vs) s)) = Inr (r, w)"
        by (cases rw) auto
      from download_stop_complete [OF ti a I n(2) c this, of fuel] f show ?thesis by (auto split: if_splits)
    qed
  next
    case False
    then have "download_expired ?I (clock (wd s) (ticks (wd s) + length vs)) a" using stop by simp
    with download_stop_late [OF ti a, of wfuel fuel] False f show ?thesis by (simp del: download_loop.simps)
  qed
qed

lemma turn_work_outcome:
  assumes i: "peer_inv s xs"
  shows "(\<exists>s'. turn_work wfuel s = Inr s' \<and> peer_ok s') \<or> turn_work wfuel s = Inl UseAfterFree \<or>
    (\<exists>e rs k fd w. turn_work wfuel s = Inl e \<and> reap wfuel rs k fd w = Inl e)"
proof -
  from timeout_kept [OF i] obtain k s1 xs1 where s1: "check_timeout s = Inr (k, s1)" "peer_inv s1 xs1" by blast
  from ask_around_kept [OF s1(2)] obtain s2 xs2 where s2: "ask_around s1 = Inr s2" "peer_inv s2 xs2" by blast
  have w: "turn_work wfuel s = ebind (uploads_loop s2) (downloads_loop wfuel)"
    using s1(1) s2(1) by (simp add: turn_work_def)
  from upload_loop_start [OF s2(2)] consider "uploads_loop s2 = Inl UseAfterFree"
    | s3 xs3 where "uploads_loop s2 = Inr s3" "peer_inv s3 xs3" unfolding uploads_loop_def by blast
  then show ?thesis
  proof cases
    case 1
    with w show ?thesis by simp
  next
    case 2
    with downloads_loop_outcome [OF 2(2), of wfuel] w show ?thesis by (auto simp: peer_ok_def)
  qed
qed

text \<open>No transfer is late and no chunk complete once the inputs of the turn are read.\<close>

definition turn_adm :: "(nat \<Rightarrow> byte) \<Rightarrow> buf \<times> user_iobuf \<times> peer \<Rightarrow> turn \<Rightarrow> bool" where
  "turn_adm junk st t \<longleftrightarrow> inputs_adm junk st t \<and>
     (case read_inputs junk t st of Inl _ \<Rightarrow> True | Inr (b, u, s) \<Rightarrow> \<forall>xs. peer_inv s xs \<longrightarrow> in_time s xs)"

interpretation ev: safe_machine "\<lambda>st t. peer_turn junk wfuel t st" "turn_adm junk" turn_inv for junk wfuel
proof unfold_locales
  fix st t assume a: "turn_inv st" "turn_adm junk st t"
  then have "inputs_adm junk st t" by (simp add: turn_adm_def)
  from read_inputs_safe [OF a(1) this] obtain b u s where r: "read_inputs junk t st = Inr (b, u, s)" "turn_inv (b, u, s)"
    by auto
  then obtain xs where "peer_inv s xs" by (auto simp: turn_inv_def peer_ok_def)
  moreover from this a(2) r(1) have "in_time s xs" by (simp add: turn_adm_def)
  ultimately obtain s' xs' where w: "turn_work wfuel s = Inr s'" "peer_inv s' xs'" using turn_work_safe by blast
  have "turn_inv (b, u, s')" using r(2) w(2) by (auto simp: turn_inv_def peer_ok_def)
  with r(1) w(1) show "\<exists>st'. peer_turn junk wfuel t st = Inr st' \<and> turn_inv st'" by (simp add: peer_turn_work)
qed

section \<open>Start\<close>

lemma apply_options_peers: "apply_options opts (c0, d0) = Inr (c, d) \<Longrightarrow> peers c = peers c0"
proof (induction opts arbitrary: c0 d0)
  case (Cons opt opts)
  obtain x arg where opt: "opt = (x, arg)" by (cases opt) auto
  with Cons.prems obtain c1 d1 where a: "apply_option x arg (c0, d0) = Inr (c1, d1)" "apply_options opts (c1, d1) = Inr (c, d)"
    by (auto simp: ebind_eq_Inr)
  have "peers c1 = peers c0"
    using a(1) by (auto simp: apply_option_def copy_name_def guard_eq_Inr split: if_splits prod.splits)
  with Cons.IH [OF a(2)] show ?case by simp
qed simp

text \<open>An empty peer with a list of chunks it has.\<close>

definition has_only :: "nat list \<Rightarrow> list_var \<Rightarrow> nat list" where
  "has_only as l = (if l = Has then as else [])"

lemma has_only_simps [simp]: "has_only as Has = as" "l \<noteq> Has \<Longrightarrow> has_only as l = []" "(has_only [])(Has := as) = has_only as"
  by (auto simp: has_only_def)

lemma init_peerme_inv:
  assumes f: "files w (has_chunk_file c) = Some (concat (map chunk_line es))"
    and es: "list_all wf_chunk es" "\<forall>e\<in>set es. fst e < 4096" and m: "0 \<le> max_conn c"
  shows "\<exists>s as. init_peerme c w = Inr s \<and> peer_inv s (has_only as) \<and>
    map (\<lambda>a. the (info (hp s) a)) as = rev (map (chunk_node c) es) \<and> config s = c \<and> wd s = w"
proof -
  let ?d = "\<lparr>output_fd = 0, concurr_download_num = 0, max_download_num = max_conn c, howmany_found = 0,
    howmany_need = 0, needlist = None, get_tosend_quene = None, get_tosend_tail = None, get_sent_list = None, downloading_list = None\<rparr>"
  let ?u = "\<lparr>concurr_upload_num = 0, max_upload_num = max_conn c, uploading_list = None, uploaded_list = None\<rparr>"
  let ?s0 = "\<lparr>config = c, me = \<lparr>me_id = identity c, me_addr = own_addr c, haslist = None, mydownload = ?d, myupload = ?u\<rparr>,
    hp = empty_heap, wd = w\<rparr>"
  have "is_list empty_heap (lst ?s0 l) []" for l by (cases l) (simp_all add: is_list_def)
  then have s0: "shape ?s0 (has_only [])"
    by (auto simp: shape_def lists_ok_def heap_ok_def hashes_ok_def info_def empty_heap_def has_only_def)
  have "files (wd ?s0) (has_chunk_file c) = Some (concat (map chunk_line es))" using f by simp
  from parse_shape [OF s0 this es(1), of None Has] obtain h p as where r:
    "parse_hasneed_list (files w) empty_heap None c None = Inr (h, p)"
    "shape (put_list Has p (?s0\<lparr>hp := h\<rparr>)) (has_only as)" "map (\<lambda>a. the (info h a)) as = rev (map (chunk_node c) es)"
    "\<forall>a\<in>set as. \<exists>e\<in>set es. info h a = Some (chunk_node c e)" by auto
  let ?s = "put_list Has p (?s0\<lparr>hp := h\<rparr>)"
  have "\<exists>n. info h a = Some n \<and> node_ok l n" if "a \<in> set (has_only as l)" for a l
  proof -
    have l: "l = Has" "a \<in> set as" using that by (auto simp: has_only_def split: if_splits)
    then obtain e where "e \<in> set es" "info h a = Some (chunk_node c e)" using r(4) by blast
    with l(1) es show ?thesis by (auto simp: node_ok_def chunk_node_def wf_chunk_def list_all_iff)
  qed
  then have "nodes_ok (info (hp ?s)) (has_only as)" by (simp add: nodes_ok_def)
  moreover have "requests_ok (info (hp ?s)) (has_only as)" by (simp add: requests_ok_def claims_def running_def)
  moreover have "counters_ok ?s (has_only as)" using m by (simp add: counters_ok_def put_list_def)
  ultimately have "peer_inv ?s (has_only as)" using r(2) by (simp add: peer_inv_def)
  moreover have "init_peerme c w = Inr ?s" using r(1) by (simp add: init_peerme_def Let_def put_list_def)
  ultimately show ?thesis using r(3) by (intro exI [of _ ?s] exI [of _ as]) simp
qed

section \<open>Properties\<close>

text \<open>
  C25. The line \<open>GET chunkfile outputfile\<close> abandons the running download and starts the one the
  chunk file describes: the needed chunks are those of the file, nothing is offered, requested
  or received, the counters are reset, the output file is opened, the chunks the peer has and
  its uploads stay.
\<close>

theorem get_command_resets:
  assumes "peer_inv s xs" and "plain_name chunkf" "plain_name outf"
    and "files (wd s) chunkf = Some (concat (map chunk_line es))" and "list_all wf_chunk es" "\<forall>e\<in>set es. fst e < 4096"
  shows "\<exists>s' as. handle_user_input s (get_line chunkf outf) = Inr s' \<and>
    peer_inv s' (xs(Need := as, To_send := [], Sent := [], Downloading := [])) \<and>
    map (\<lambda>a. the (info (hp s') a)) as = rev (map (chunk_node (config s)) es) \<and>
    howmany_need (mydownload (me s')) = int (length es) \<and> howmany_found (mydownload (me s')) = 0 \<and>
    (output_fd (mydownload (me s')), wd s') = os_open (wd s) outf"
proof -
  have x: "(cleared xs)(Need := as) = xs(Need := as, To_send := [], Sent := [], Downloading := [])" for as
    by (auto simp: cleared_def fun_eq_iff)
  have "handle_user_input s (get_line chunkf outf) = reset_mydownload chunkf outf s"
    using scan_get_line [OF assms(2,3)] assms(3) by (simp add: handle_user_input_def process_get_def plain_name_def)
  with reset_mydownload_inv [OF assms(1,4-6,3)] show ?thesis unfolding x by metis
qed

definition sample_chunks :: "(nat \<times> byte list) list" where
  "sample_chunks = [(1, replicate 20 2), (2, replicate 20 3)]"

definition sample_get_world :: world where
  "sample_get_world = quiet_world\<lparr>files := [[103] \<mapsto> concat (map chunk_line sample_chunks)]\<rparr>"

theorem get_command_resets_witness:
  "\<exists>s'. handle_user_input (sample_peer\<lparr>wd := sample_get_world\<rparr>) (get_line [103] [111]) = Inr s' \<and>
    howmany_need (mydownload (me s')) = 2 \<and> output_fd (mydownload (me s')) = 3"
proof -
  let ?s = "sample_peer\<lparr>wd := sample_get_world\<rparr>"
  have i: "peer_inv ?s sample_lists" using sample_inv by simp
  have n: "plain_name [103]" "plain_name [111]" by (simp_all add: plain_name_def is_space_def)
  have f: "files (wd ?s) [103] = Some (concat (map chunk_line sample_chunks))" by (simp add: sample_get_world_def)
  have c: "list_all wf_chunk sample_chunks" "\<forall>e\<in>set sample_chunks. fst e < 4096"
    by (simp_all add: sample_chunks_def wf_chunk_def)
  have "fst (os_open (wd ?s) [111]) = 3" by (simp add: os_open_def sample_get_world_def quiet_world_def)
  with get_command_resets [OF i n f c] show ?thesis by (auto simp: sample_chunks_def dest!: arg_cong [of _ _ fst])
qed





lemma start_peer_inv:
  assumes "apply_options opts (testing_defaults bt_init, 0) = Inr (c, d)"
    and "files w (peer_list_file c) = Some (concat (map entry_line ps))" and "list_all (wf_entry resolve) ps"
    and "identity c \<noteq> 0" and "identity c \<in> (\<lambda>e. int (entry_id e)) ` set ps"
    and "chunk_file c \<noteq> []" "has_chunk_file c \<noteq> []"
    and "files w (has_chunk_file c) = Some (concat (map chunk_line es))"
    and "list_all wf_chunk es" "\<forall>e\<in>set es. fst e < 4096" and "0 \<le> max_conn c"
    and "can_open w winlog_name"
  shows "\<exists>s as. start_peer resolve inet_aton env opts w = Inr (zero_buf, create_userbuf, s) \<and>
    turn_inv (zero_buf, create_userbuf, s) \<and> peer_inv s (has_only as) \<and>
    map (hash_of (info (hp s))) as = rev (map snd es) \<and> peers (config s) = rev (map (entry_peer resolve) ps) \<and>
    map (\<lambda>a. the (info (hp s) a)) as = rev (map (chunk_node (config s)) es) \<and>
    (\<exists>port. config s = c\<lparr>peers := rev (map (entry_peer resolve) ps), myport := port\<rparr>) \<and> me_id (me s) = identity c \<and>
    concurr_upload_num (myupload (me s)) = 0 \<and> max_upload_num (myupload (me s)) = max_conn c \<and>
    (env = None \<longrightarrow> wd s = w\<lparr>ticks := Suc (ticks w), start_tm := micro_clock w (ticks w)\<rparr>)"
proof -
  let ?ps = "rev (map (entry_peer resolve) ps)"
  have p0: "peers c = []" using apply_options_peers [OF assms(1)] by (simp add: testing_defaults_def bt_init_def)
  have "bt_parse_peer_list resolve (files w) c = Inr (c\<lparr>peers := ?ps\<rparr>)"
    using peer_list_loop_entries [OF assms(3)] assms(2) p0 by (simp add: bt_parse_peer_list_def)
  moreover obtain p where "bt_peer_info ?ps (identity c) = Some p"
  proof -
    from assms(5) obtain e where "e \<in> set ps" "int (entry_id e) = identity c" by auto
    then have "find (\<lambda>p. peer_id p = identity c) ?ps \<noteq> None"
      by (auto simp: find_None_iff entry_peer_def)
    then show ?thesis using that by (auto simp: bt_peer_info_find)
  qed
  ultimately obtain c' where c': "bt_parse_command_line resolve (files w) opts (testing_defaults bt_init, 0) = Inr (c', d)"
    "c' = c\<lparr>peers := ?ps, myport := ntohs (sin_port (peer_addr p))\<rparr>"
    using assms(1,4,6,7) by (simp add: bt_parse_command_line_def)
  obtain log w1 where w1: "init_winlog winlog_name w = Inr (log, w1)" "files w1 = files w"
    "w1 = w\<lparr>ticks := Suc (ticks w), start_tm := micro_clock w (ticks w)\<rparr>"
    using init_winlog_opens [OF assms(12)] by blast
  have "files w1 (has_chunk_file c') = Some (concat (map chunk_line es))" "0 \<le> max_conn c'"
    using assms(8,11) c'(2) w1(2) by simp_all
  from init_peerme_inv [OF this(1) assms(9,10) this(2)] obtain s as where s: "init_peerme c' w1 = Inr s"
    "peer_inv s (has_only as)" "map (\<lambda>a. the (info (hp s) a)) as = rev (map (chunk_node c') es)" "config s = c'" "wd s = w1" by blast
  have me: "me_id (me s) = identity c" "concurr_upload_num (myupload (me s)) = 0" "max_upload_num (myupload (me s)) = max_conn c"
    using s(1) c'(2) by (auto simp: init_peerme_def Let_def ebind_eq_Inr)
  let ?w = "snd (spiffy_init inet_aton (wd s) env (word_of_int (identity c')) (own_addr c'))"
  have "start_peer resolve inet_aton env opts w = Inr (zero_buf, create_userbuf, s\<lparr>wd := ?w\<rparr>)"
    using c'(1) s(1,4) by (simp add: start_peer_def w1 peer_run_setup_def case_prod_beta)
  moreover have i: "peer_inv (s\<lparr>wd := ?w\<rparr>) (has_only as)" using s(2) by simp
  moreover have "turn_inv (zero_buf, create_userbuf, s\<lparr>wd := ?w\<rparr>)"
  proof -
    have "holds zero_buf []" by (simp add: holds_def zero_buf_def)
    moreover have "create_userbuf = clean_buf []" by (simp add: create_userbuf_def clean_buf_def)
    ultimately show ?thesis using i by (auto simp: turn_inv_def peer_ok_def intro!: exI [of _ "[]"])
  qed
  moreover have "map (hash_of (info (hp s))) as = rev (map snd es)"
    using arg_cong [OF s(3), of "map node_hash"] by (simp add: rev_map hash_of_def [abs_def] chunk_node_def comp_def)
  moreover have "env = None \<longrightarrow> ?w = w\<lparr>ticks := Suc (ticks w), start_tm := micro_clock w (ticks w)\<rparr>"
    by (auto simp: spiffy_init_def s(5) w1(3))
  moreover have "\<exists>port. config s = c\<lparr>peers := ?ps, myport := port\<rparr>" using s(4) c'(2) by blast
  ultimately show ?thesis using s(3,4) c'(2) me by (intro exI [of _ "s\<lparr>wd := ?w\<rparr>"] exI [of _ as]) simp
qed

text \<open>
  C7. \<open>main\<close> reaches the event loop in a state that satisfies its invariant: the peer has
  exactly the chunks of its has-chunk file and needs none, knows the peers of the peer list,
  and its buffers are empty.
\<close>

theorem start_establishes_invariant:
  assumes "apply_options opts (testing_defaults bt_init, 0) = Inr (c, d)"
    and "files w (peer_list_file c) = Some (concat (map entry_line ps))" and "list_all (wf_entry resolve) ps"
    and "identity c \<noteq> 0" and "identity c \<in> (\<lambda>e. int (entry_id e)) ` set ps"
    and "chunk_file c \<noteq> []" "has_chunk_file c \<noteq> []"
    and "files w (has_chunk_file c) = Some (concat (map chunk_line es))"
    and "list_all wf_chunk es" "\<forall>e\<in>set es. fst e < 4096" and "0 \<le> max_conn c"
    and "can_open w winlog_name"
  shows "\<exists>s as. start_peer resolve inet_aton env opts w = Inr (zero_buf, create_userbuf, s) \<and>
    turn_inv (zero_buf, create_userbuf, s) \<and> peer_inv s (has_only as) \<and>
    map (hash_of (info (hp s))) as = rev (map snd es) \<and> peers (config s) = rev (map (entry_peer resolve) ps)"
  using start_peer_inv [OF assms] by blast

text \<open>The options, peer list and chunk file of a small network.\<close>

definition sample_start :: world where
  "sample_start = quiet_world\<lparr>files := [ascii ''nodes.map'' \<mapsto> concat (map entry_line [\<lparr>entry_id = 1, entry_host = [104], entry_port = 5\<rparr>]),
     ascii ''haschunks'' \<mapsto> concat (map chunk_line sample_chunks)]\<rparr>"

theorem start_establishes_invariant_witness:
  "\<exists>s. start_peer (\<lambda>_. Some 1) (\<lambda>_. None) None [] sample_start = Inr (zero_buf, create_userbuf, s) \<and>
    turn_inv (zero_buf, create_userbuf, s)"
proof -
  let ?c = "testing_defaults bt_init" and ?ps = "[\<lparr>entry_id = 1, entry_host = [104], entry_port = 5\<rparr>]"
  have o: "apply_options [] (testing_defaults bt_init, 0) = Inr (?c, 0)" by simp
  have n: "peer_list_file ?c = ascii ''nodes.map''" "has_chunk_file ?c = ascii ''haschunks''" "identity ?c = 1" "max_conn ?c = 0"
    "chunk_file ?c = ascii ''chunkfile''" by (simp_all add: testing_defaults_def bt_init_def)
  have d: "ascii ''nodes.map'' \<noteq> ascii ''haschunks''" by (simp add: ascii_def)
  have f1: "files sample_start (peer_list_file ?c) = Some (concat (map entry_line ?ps))"
    using d unfolding n by (simp add: sample_start_def)
  have f2: "files sample_start (has_chunk_file ?c) = Some (concat (map chunk_line sample_chunks))"
    unfolding n by (simp add: sample_start_def)
  have l: "list_all (wf_entry (\<lambda>_. Some 1)) ?ps"
    by (simp add: wf_entry_def entry_line_def is_space_def show_nat.simps)
  have x: "identity ?c \<noteq> 0" "identity ?c \<in> (\<lambda>e. int (entry_id e)) ` set ?ps" "chunk_file ?c \<noteq> []" "has_chunk_file ?c \<noteq> []"
    "0 \<le> max_conn ?c" unfolding n by (simp_all add: ascii_def)
  have c: "list_all wf_chunk sample_chunks" "\<forall>e\<in>set sample_chunks. fst e < 4096"
    by (simp_all add: sample_chunks_def wf_chunk_def)
  have "can_open sample_start winlog_name" by (simp add: sample_start_def quiet_world_def)
  from start_establishes_invariant [OF o f1 l x(1-4) f2 c x(5) this, of "\<lambda>_. None" None] show ?thesis by blast
qed

end
