(* ===== verification/Honest.thy ===== *)
theory Honest
  imports PeerLoop
begin

text \<open>
  What a peer that follows the code puts on the wire. A calculus for the result of a fallible
  operation, the packets that every peer can handle whatever its state, and for every operation
  that touches nodes or sends: it sends nothing else.
\<close>

section \<open>Results of fallible operations\<close>

text \<open>\<open>post m Q\<close>: if \<open>m\<close> is not a fault, its value satisfies \<open>Q\<close>.\<close>

definition post :: "'a res \<Rightarrow> ('a \<Rightarrow> bool) \<Rightarrow> bool" where
  "post m Q = (case m of Inl _ \<Rightarrow> True | Inr x \<Rightarrow> Q x)"

lemma post_Inr [simp]: "post (Inr x) Q = Q x"
  by (simp add: post_def)

lemma post_Inl [simp]: "post (Inl e) Q"
  by (simp add: post_def)

lemma post_ebind [simp]: "post (ebind m f) Q = post m (\<lambda>x. post (f x) Q)"
  by (simp add: post_def ebind_def split: sum.split)

lemma post_guard [simp]: "post (guard b e m) Q = (b \<longrightarrow> post m Q)"
  by (simp add: guard_def)

lemmas post_simps = post_Inr post_Inl post_ebind post_guard

lemma post_mono: "post m P \<Longrightarrow> (\<And>x. P x \<Longrightarrow> Q x) \<Longrightarrow> post m Q"
  by (auto simp: post_def split: sum.splits)

lemma post_any: "(\<And>x. Q x) \<Longrightarrow> post m Q"
  by (auto simp: post_def split: sum.splits)

lemma postD: "post m Q \<Longrightarrow> m = Inr x \<Longrightarrow> Q x"
  by (simp add: post_def)

lemma post_conj: "post m P \<Longrightarrow> post m Q \<Longrightarrow> post m (\<lambda>x. P x \<and> Q x)"
  by (auto simp: post_def split: sum.splits)

section \<open>Packets every peer can handle\<close>

text \<open>
  As \<open>packet_adm\<close> for any state of the peer: an ACK is for one of the 512 packets of a chunk.
\<close>

definition acceptable :: "packet \<Rightarrow> bool" where
  "acceptable p \<longleftrightarrow>
     (if Packet_Type p = 0 then has_hashes p \<and> Chunkhash_Num p \<le> 50
      else if Packet_Type p = 1 then has_hashes p
      else if Packet_Type p = 2 then (case payload p of None \<Rightarrow> False | Some bs \<Rightarrow> 20 \<le> length bs)
      else if Packet_Type p = 3 then Chunkhash_Num p = 0
      else if Packet_Type p = 4 then uint (ACK_Num p) \<le> 512
      else True)"

definition honest :: "packet \<Rightarrow> bool" where
  "honest p \<longleftrightarrow> wf_packet p \<and> length (wire_bytes p) \<le> BUFLEN2 \<and> acceptable p"

lemma honest_bookkeeping [simp]:
  "honest (p\<lparr>timestamp := t\<rparr>) = honest p" "honest (p\<lparr>ACKed_num := k\<rparr>) = honest p"
  by (simp_all add: honest_def acceptable_def has_hashes_def wf_packet_def overhead_def body_def wire_bytes_def wire_header_def
      cong: option.case_cong)

lemma acceptable_received: "acceptable (as_received p) = acceptable p"
  by (simp add: as_received_def acceptable_def has_hashes_def cong: option.case_cong)

lemma honest_hash_packet:
  assumes "ptype \<le> 1" and "hs \<noteq> []" "length hs \<le> 50" and "\<forall>x\<in>set hs. length x = 20"
  shows "honest (hash_packet ptype (length hs) (concat hs))"
proof -
  have l: "length (concat hs) = 20 * length hs" by (rule length_concat_hashes [OF assms(4)])
  then have wf: "wf_packet (hash_packet ptype (length hs) (concat hs))"
    using assms by (intro hash_packet_wf) (auto simp: HASH_SIZE_def)
  have u: "unat (of_nat (length hs) :: byte) = length hs" using assms(3) by (simp add: unat_of_nat take_bit_nat_eq_self)
  let ?p = "hash_packet ptype (length hs) (concat hs)"
  have f: "Packet_Type ?p = ptype" "Chunkhash_Num ?p = of_nat (length hs)" "payload ?p = Some (concat hs)"
    by (simp_all add: hash_packet_def)
  have h: "has_hashes ?p" unfolding has_hashes_def f u by (simp add: l)
  have c: "Chunkhash_Num ?p \<le> 50" unfolding f word_le_nat_alt u using assms(3) by simp
  have t: "ptype = 0 \<or> ptype = 1"
  proof -
    have "unat ptype \<le> 1" using assms(1) by (simp add: word_le_nat_alt)
    then have "unat ptype = 0 \<or> unat ptype = 1" by linarith
    then show ?thesis by (auto simp: word_unat_eq_iff)
  qed
  have "acceptable ?p" using t h c unfolding acceptable_def f(1) by auto
  moreover have "length (wire_bytes ?p) \<le> BUFLEN2"
    using assms(1,3) l by (simp add: wire_bytes_def body_def f BUFLEN2_def)
  ultimately show ?thesis using wf by (simp add: honest_def)
qed

lemma honest_ack:
  assumes "0 \<le> i" "i \<le> 512"
  shows "honest (form_ACK_pack i)"
proof -
  have "uint (word_of_int i :: u32) = i" using assms by (simp add: uint_word_of_int)
  then show ?thesis using assms form_ACK_pack_wf [of i]
    by (simp add: honest_def acceptable_def form_ACK_pack_def wire_bytes_def body_def zero_packet_def BUFLEN2_def)
qed

section \<open>What the heap holds\<close>

text \<open>
  Every window is filled with the 512 packets of a chunk, ready to be sent, and no receiver
  expects a packet beyond them.
\<close>

definition honest_slots :: "slots \<Rightarrow> bool" where
  "honest_slots b \<longleftrightarrow> (\<forall>i p. b i = Some p \<longrightarrow> honest p)"

definition good_window :: "Window \<Rightarrow> bool" where
  "good_window W \<longleftrightarrow> LPR W = 513 \<and> honest_slots (sender_buf W)"

definition good_node :: "hash_chunk \<Rightarrow> bool" where
  "good_node n \<longleftrightarrow> (\<forall>W. congWin n = Some W \<longrightarrow> good_window W) \<and>
     (\<forall>rs. Recver n = Some rs \<longrightarrow> 1 \<le> NPE rs \<and> NPE rs \<le> 513)"

definition good_heap :: "heap \<Rightarrow> bool" where
  "good_heap h \<longleftrightarrow> (\<forall>a n. nodes h a = Some n \<longrightarrow> good_node n)"

lemma good_node_links [simp]:
  "good_node (n\<lparr>next_node := p\<rparr>) = good_node n" "good_node (n\<lparr>node_time := t\<rparr>) = good_node n"
  by (simp_all add: good_node_def)

lemma load_good: "good_heap h \<Longrightarrow> post (load h p) good_node"
  by (simp add: post_def load_def good_heap_def split: option.split sum.split)

lemma store_good:
  assumes "good_heap h" and "\<And>n. good_node n \<Longrightarrow> good_node (f n)"
  shows "post (store h p f) good_heap"
  using assms by (auto simp: post_def store_def good_heap_def split: option.splits sum.splits)

lemma free_node_good: "good_heap h \<Longrightarrow> post (free_node h p) good_heap"
  unfolding free_node_def post_simps by (rule post_any) (simp add: good_heap_def)

lemma create_node_good:
  assumes "good_heap h"
  shows "post (create_node h addr hash k) (\<lambda>(h', p). good_heap h')"
  unfolding create_node_def post_simps by (rule post_any) (use assms in \<open>simp add: good_heap_def good_node_def\<close>)

lemma append_node_good: "good_heap h \<Longrightarrow> post (append_node h l node) (\<lambda>(h', p). good_heap h')"
  by (auto simp: append_node_def intro!: post_mono [OF store_good])

lemmas read_posts =
  post_any [where m = "load h p" for h p] post_any [where m = "find_node h l hash" for h l hash]
  post_any [where m = "find_node_by_addr h l addr" for h l addr] post_any [where m = "find_prev_node h l p" for h l p]
  post_any [where m = "length_of_list h l" for h l] post_any [where m = "mem_read bs i n" for bs i n]
  post_any [where m = "mem_write bs i cs" for bs i cs] post_any [where m = "payload_read p i n" for p i n]
  post_any [where m = "printWindow W" for W] post_any [where m = "print_hash_chunks h l" for h l]
  post_any [where m = "print_pack p" for p]

lemma unlink_good: "good_heap h \<Longrightarrow> post (unlink h l node) (\<lambda>(h', p). good_heap h')"
  by (auto simp: unlink_def intro!: read_posts store_good [THEN post_mono])

lemmas heap_posts = free_node_good [THEN post_mono] create_node_good [THEN post_mono]
  append_node_good [THEN post_mono] unlink_good [THEN post_mono]

lemma delete_node_good: "good_heap h \<Longrightarrow> post (delete_node h l node) (\<lambda>(h', p). good_heap h')"
  by (auto simp: delete_node_def intro!: heap_posts)

lemma delete_node_by_hash_good: "good_heap h \<Longrightarrow> post (delete_node_by_hash h l hash) (\<lambda>(h', p). good_heap h')"
  by (auto simp: delete_node_by_hash_def intro!: heap_posts read_posts)

lemma move_node_good: "good_heap h \<Longrightarrow> post (move_node h dest src node) (\<lambda>(h', p, q). good_heap h')"
  by (auto simp: move_node_def intro!: heap_posts)

lemma clear_loop_good: "good_heap h \<Longrightarrow> post (clear_loop fuel h l p c) (\<lambda>(h', c). good_heap h')"
proof (induction fuel arbitrary: h l p c)
  case 0
  then show ?case by (cases p) simp_all
next
  case (Suc fuel)
  then show ?case
    by (cases p) (auto intro!: read_posts delete_node_good [THEN post_mono])
qed

lemma clear_hashchunk_list_good: "good_heap h \<Longrightarrow> post (clear_hashchunk_list h l) (\<lambda>(h', p, n). good_heap h')"
  by (auto simp: clear_hashchunk_list_def intro!: clear_loop_good [THEN post_mono])

lemma hasneed_loop_good: "good_heap h \<Longrightarrow> post (hasneed_loop addr f v h l) (\<lambda>(h', p). good_heap h')"
proof (induction "length f" arbitrary: f v h l rule: less_induct)
  case less
  show ?case
  proof (cases "fgets BT_FILENAME_LEN f")
    case None
    with less.prems show ?thesis by (simp add: hasneed_loop.simps)
  next
    case (Some r)
    then obtain line rest where r: "fgets BT_FILENAME_LEN f = Some (line, rest)" by (cases r) auto
    have ih: "post (hasneed_loop addr rest v' h' l') (\<lambda>(h', p). good_heap h')" if "good_heap h'" for v' h' l'
      using fgets_shortens [OF r] that by (intro less.hyps)
    show ?thesis
      by (subst hasneed_loop.simps)
         (auto simp: r split: option.split intro!: ih less.prems heap_posts
           post_any [where m = "scan_chunk line v" for line v] post_any [where m = "hex2binary s n d" for s n d])
  qed
qed

lemma parse_hasneed_list_good: "good_heap h \<Longrightarrow> post (parse_hasneed_list fs h l c path) (\<lambda>(h', p). good_heap h')"
  by (auto simp: parse_hasneed_list_def hasneed_loop_good split: option.split)

section \<open>What leaves the host\<close>

definition good_dgram :: "spiffy_globals \<Rightarrow> datagram \<Rightarrow> bool" where
  "good_dgram g d \<longleftrightarrow> (\<exists>p to. honest p \<and> d \<in> set (emitted g to (wire_bytes p)))"

text \<open>The data file that uploads are read from is there, and no open file is the one that names it.\<close>

definition source_file :: "(byte list \<Rightarrow> byte list option) \<Rightarrow> byte list \<Rightarrow> bool" where
  "source_file fs loc \<longleftrightarrow> (\<exists>master name. fs loc = Some master \<and> read_master_line master = Inr name \<and> fs name \<noteq> None)"

definition spares :: "(int \<Rightarrow> (byte list \<times> int) option) \<Rightarrow> byte list \<Rightarrow> bool" where
  "spares fds loc \<longleftrightarrow> (\<forall>fd name pos. fds fd = Some (name, pos) \<longrightarrow> name \<noteq> loc)"

lemma spares_upd: "spares fds loc \<Longrightarrow> name \<noteq> loc \<Longrightarrow> spares (fds(fd \<mapsto> (name, pos))) loc"
  by (auto simp: spares_def)

lemma spares_move: "spares fds loc \<Longrightarrow> fds fd = Some (name, p) \<Longrightarrow> spares (fds(fd \<mapsto> (name, pos))) loc"
  by (auto simp: spares_def)

lemma spares_del: "spares fds loc \<Longrightarrow> spares (fds(fd := None)) loc"
  by (auto simp: spares_def)

lemma sparesD: "spares fds loc \<Longrightarrow> fds fd = Some (name, pos) \<Longrightarrow> name \<noteq> loc"
  by (auto simp: spares_def)

definition good_world :: "byte list \<Rightarrow> world \<Rightarrow> bool" where
  "good_world loc w \<longleftrightarrow> (\<forall>d\<in>set (sent w). good_dgram (router w) d) \<and> source_file (files w) loc \<and>
     spares (open_fds w) loc"

lemma good_world_tick [simp]: "good_world loc (w\<lparr>ticks := t\<rparr>) = good_world loc w"
  by (simp add: good_world_def)

lemma good_world_source: "good_world loc w \<Longrightarrow> source_file (files w) loc"
  by (simp add: good_world_def)

lemma good_world_record: "good_world loc w \<Longrightarrow> \<forall>d\<in>set ds. good_dgram (router w) d \<Longrightarrow> good_world loc (record_sent w ds)"
  by (auto simp: good_world_def)

lemma emitted_good: "honest p \<Longrightarrow> \<forall>d\<in>set (emitted g to (wire_bytes p)). good_dgram g d"
  by (auto simp: good_dgram_def)

lemma send_pack_good:
  assumes "good_world loc w" and "honest p"
  shows "post (send_pack w p to) (\<lambda>(r, w'). good_world loc w')"
proof -
  have "wf_packet p" using assms(2) by (simp add: honest_def)
  from send_pack_wf [OF this, of w to] obtain r where
    "send_pack w p to = Inr (r, record_sent w (emitted (router w) to (wire_bytes p)))" by blast
  with good_world_record [OF assms(1) emitted_good [OF assms(2)]] show ?thesis by simp
qed

section \<open>Windows and receivers\<close>

lemma honest_data:
  assumes "0 < n" "n \<le> 1024"
  shows "post (form_DATA_pack d n k) honest"
proof (cases "nat n \<le> length d")
  case False
  then have "mem_read d 0 n = Inl OutOfBounds" using assms by (simp add: mem_read_def)
  then show ?thesis by (simp add: form_DATA_pack_def)
next
  case d: True
  define p where "p = zero_packet\<lparr>Packet_Type := 3, Hd_len := of_nat HEADER_LEN, Magic_Num := 15441,
       Version_Num := 1, Seq_Num := of_int k, timestamp := 0,
       Pack_len := of_int (int HEADER_LEN + n), payload := Some (take (nat n) d)\<rparr>"
  have "mem_read d 0 n = Inr (take (nat n) d)" using assms d by (simp add: mem_read_def)
  then have r: "form_DATA_pack d n k = Inr p" unfolding form_DATA_pack_def p_def by (simp only: ebind_Inr)
  have f: "payload p = Some (take (nat n) d)" "Packet_Type p = 3" "Chunkhash_Num p = 0" "Pack_len p = word_of_int (16 + n)"
    unfolding p_def by (simp_all add: HEADER_LEN_def zero_packet_def)
  have u: "unat (word_of_int (16 + n) :: u16) = 16 + nat n"
  proof -
    have "(16 + n) mod 2 ^ 16 = 16 + n" using assms by (intro mod_pos_pos_trivial) auto
    then have "uint (word_of_int (16 + n) :: u16) = 16 + n" by (subst uint_word_of_int) simp
    then have "unat (word_of_int (16 + n) :: u16) = nat (16 + n)" by (metis nat_uint_eq)
    then show ?thesis using assms by linarith
  qed
  have len: "length (body p) = nat n" using d by (simp add: body_def f)
  have "take (nat n) d \<noteq> []" using d assms(1) by auto
  then have "wf_packet p" unfolding wf_packet_def overhead_def f u len by simp
  moreover have "length (wire_bytes p) \<le> BUFLEN2" using assms(2) unfolding wire_bytes_def f by (simp add: len BUFLEN2_def)
  moreover have "acceptable p" unfolding acceptable_def f by simp
  ultimately show ?thesis unfolding r by (simp add: honest_def)
qed

lemma slot_set_honest: "honest_slots b \<Longrightarrow> honest p \<Longrightarrow> post (slot_set b i (Some p)) honest_slots"
  by (simp add: slot_set_def honest_slots_def)

lemma slot_deref_honest: "honest_slots b \<Longrightarrow> post (slot_deref b i) honest"
  by (auto simp: slot_deref_def slot_get_def honest_slots_def split: option.split)

lemma put_packet_honest:
  assumes "honest_slots (sender_buf W)" and "0 < n" "n \<le> 1024"
  shows "post (put_packet d W off n) (\<lambda>W'. honest_slots (sender_buf W'))"
  using assms by (auto simp: put_packet_def intro!: read_posts honest_data [THEN post_mono] slot_set_honest [THEN post_mono])

lemma p2p_loop_honest:
  assumes "honest_slots (sender_buf W)" and "c < len"
  shows "post (p2p_loop d W len c) (\<lambda>(W', c', full). honest_slots (sender_buf W') \<and> c' < len \<and> (full \<or> len - c' \<le> 1024))"
  using assms
proof (induction "nat (len - c)" arbitrary: W c rule: less_induct)
  case less
  have ih: "post (p2p_loop d W' len (c + 1024)) (\<lambda>(W', c', full). honest_slots (sender_buf W') \<and> c' < len \<and> (full \<or> len - c' \<le> 1024))"
    if "1024 < len - c" "honest_slots (sender_buf W')" for W'
    using that by (intro less.hyps) auto
  show ?case
    by (subst p2p_loop.simps) (use less.prems in \<open>auto intro!: put_packet_honest [THEN post_mono] ih [THEN post_mono]\<close>)
qed

lemma p2p_sender_honest:
  assumes "honest_slots (sender_buf W)" and "0 < len"
  shows "post (p2p_sender d W len) (\<lambda>(r, W'). honest_slots (sender_buf W'))"
  using assms by (auto simp: p2p_sender_def intro!: p2p_loop_honest [THEN post_mono] put_packet_honest [THEN post_mono])

lemma length_pread_chunk: "length (pread_chunk f off) = 524289"
  by (auto simp: pread_chunk_def Let_def CHUNK_SIZE_def)

lemma send_onechunk_good:
  assumes h: "honest_slots (sender_buf W)" "LPR W = 1" and src: "source_file fs loc"
  shows "post (send_onechunk fs W k loc) (\<lambda>(r, W'). good_window W')"
proof -
  obtain master name datafile where m: "fs loc = Some master" "read_master_line master = Inr name" "fs name = Some datafile"
    using src by (auto simp: source_file_def)
  have fill: "post (p2p_sender (pread_chunk datafile off) W CHUNK_SIZE) (\<lambda>(r, W'). LPR W' = 513)" for off
  proof -
    let ?d = "take 524288 (pread_chunk datafile off)"
    have len: "length ?d = 524288" by (simp add: length_pread_chunk)
    have "pread_chunk datafile off = ?d @ drop 524288 (pread_chunk datafile off)" by simp
    moreover have "\<exists>W'. p2p_sender (?d @ drop 524288 (pread_chunk datafile off)) W (int (length ?d)) = Inr (int (length ?d), W') \<and>
        filled ?d W ((int (length ?d) - 1) div 1024 + 1) W'"
      by (rule p2p_sender_fills [OF h(2)]) (use len in linarith)+
    ultimately have "\<exists>r W'. p2p_sender (pread_chunk datafile off) W CHUNK_SIZE = Inr (r, W') \<and> filled ?d W 512 W'"
      unfolding len by (simp add: CHUNK_SIZE_def) blast
    then show ?thesis by (auto simp: filled_def)
  qed
  have good: "post (p2p_sender (pread_chunk datafile off) W CHUNK_SIZE) (\<lambda>(r, W'). good_window W')" for off
    by (rule post_mono [OF post_conj [OF fill p2p_sender_honest [OF h(1)]]]) (auto simp: CHUNK_SIZE_def good_window_def)
  show ?thesis
    by (simp add: send_onechunk_def m) (rule post_any, rule post_mono [OF good], auto)
qed

text \<open>The operations on a window of the sender.\<close>

lemma recount_good [simp]: "good_window (recount W) = good_window W"
  by (simp add: recount_def good_window_def)

lemma good_window_slots [simp]: "good_window W \<Longrightarrow> honest_slots (sender_buf W)"
  by (simp add: good_window_def)

lemmas slot_posts = slot_deref_honest [THEN post_mono] slot_set_honest [THEN post_mono]

lemma slow_start_good: "good_window W \<Longrightarrow> post (slow_start W) good_window"
  by (auto simp: slow_start_def Let_def good_window_def intro!: slot_posts)

lemma time_now_good: "good_world loc w \<Longrightarrow> time_now w = (t, w') \<Longrightarrow> good_world loc w'"
  by (auto simp: time_now_def)

lemma check_datapack_timeout_good:
  assumes "good_window W" and "good_world loc w"
  shows "post (check_datapack_timeout w W) (\<lambda>(r, W', w'). good_window W' \<and> good_world loc w')"
proof -
  obtain t w' where t: "time_now w = (t, w')" by (cases "time_now w")
  with assms time_now_good [OF assms(2) t] show ?thesis
    by (auto simp: check_datapack_timeout_def Let_def intro!: slot_posts slow_start_good [THEN post_mono])
qed

lemma window_loop_good:
  assumes "good_window W" and "good_world loc w"
  shows "post (window_loop n i w W) (\<lambda>(r, W', w'). good_window W' \<and> good_world loc w')"
  using assms
proof (induction n arbitrary: i w W)
  case (Suc n)
  have ih: "post (window_loop n (i + 1) w' W') (\<lambda>(r, W', w'). good_window W' \<and> good_world loc w')"
    if "LPR W' = 513" "honest_slots (sender_buf W')" "good_world loc w'" for w' W'
    using that by (intro Suc.IH) (simp_all add: good_window_def)
  show ?case
    using Suc.prems
    by (auto simp: Let_def good_window_def time_now_def
        intro!: slot_posts send_pack_good [THEN post_mono] ih [THEN post_mono])
qed simp

lemma window_sender_good:
  assumes "good_window W" and "good_world loc w"
  shows "post (window_sender w W) (\<lambda>(r, W', w'). good_window W' \<and> good_world loc w')"
  using assms by (auto simp: window_sender_def good_window_def intro!: window_loop_good [THEN post_mono])

lemma upon_receive_ACK_good:
  assumes "good_window W"
  shows "post (upon_receive_ACK p W) (\<lambda>(r, W'). good_window W')"
  using assms unfolding upon_receive_ACK_def Let_def
  by (auto simp: good_window_def intro!: slot_posts slow_start_good [THEN post_mono])

text \<open>The receiver sends an ACK for every packet up to the next one expected.\<close>

lemma ack_run_good:
  assumes "good_world loc w" and "0 \<le> i" "i + int n \<le> 513"
  shows "post (ack_run n i addr rs w) (\<lambda>(i', rs', w'). i \<le> i' \<and> i' \<le> i + int n \<and> good_world loc w')"
  using assms
proof (induction n arbitrary: i rs w)
  case (Suc n)
  have a: "honest (form_ACK_pack i)" using Suc.prems by (intro honest_ack) auto
  have ih: "post (ack_run n (i + 1) addr rs' w') (\<lambda>(i', rs', w'). i + 1 \<le> i' \<and> i' \<le> i + 1 + int n \<and> good_world loc w')"
    if "good_world loc w'" for rs' w' using that Suc.prems by (intro Suc.IH) auto
  show ?case
    using Suc.prems a
    by (auto split: option.split intro!: post_any [where m = "slot_get b i" for b i] send_pack_good [THEN post_mono] ih [THEN post_mono])
qed simp

lemma upon_receiving_datapack_good:
  assumes w: "good_world loc w" and n: "1 \<le> NPE rs" "NPE rs \<le> 513"
  shows "post (upon_receiving_datapack w p rs addr) (\<lambda>(rs', w'). 1 \<le> NPE rs' \<and> NPE rs' \<le> 513 \<and> good_world loc w')"
  using assms unfolding upon_receiving_datapack_def Let_def
  by (auto intro!: post_any [where m = "slot_set b i p" for b i p] ack_run_good [THEN post_mono] send_pack_good [THEN post_mono]
      honest_ack split: if_splits)

section \<open>The peer\<close>

definition good_peer :: "peer \<Rightarrow> bool" where
  "good_peer s \<longleftrightarrow> good_heap (hp s) \<and> good_world (chunk_file (config s)) (wd s)"

lemma good_peer_simps [simp]:
  "good_peer (put_list l p s) = good_peer s" "good_peer (upd_down f s) = good_peer s" "good_peer (upd_up g s) = good_peer s"
  "good_peer (add_downloads d s) = good_peer s" "good_peer (add_found d s) = good_peer s" "good_peer (add_uploads d s) = good_peer s"
  by (simp_all add: good_peer_def)

lemma good_peer_hp [simp]: "good_peer s \<Longrightarrow> good_peer (s\<lparr>hp := h\<rparr>) = good_heap h"
  by (simp add: good_peer_def)

lemma good_peer_wd [simp]: "good_peer s \<Longrightarrow> good_peer (s\<lparr>wd := w\<rparr>) = good_world (chunk_file (config s)) w"
  by (simp add: good_peer_def)

lemma good_peerD: "good_peer s \<Longrightarrow> good_heap (hp s)" "good_peer s \<Longrightarrow> good_world (chunk_file (config s)) (wd s)"
  by (simp_all add: good_peer_def)

lemma delete_in_good: "good_peer s \<Longrightarrow> post (delete_in l p s) good_peer"
  by (auto simp: delete_in_def good_peerD intro!: delete_node_good [THEN post_mono])

lemma delete_hash_in_good: "good_peer s \<Longrightarrow> post (delete_hash_in l hash s) good_peer"
  by (auto simp: delete_hash_in_def good_peerD intro!: delete_node_by_hash_good [THEN post_mono])

lemma move_in_good: "good_peer s \<Longrightarrow> post (move_in l m p s) good_peer"
  by (auto simp: move_in_def good_peerD intro!: move_node_good [THEN post_mono])

lemma append_in_good: "good_peer s \<Longrightarrow> post (append_in l p s) good_peer"
  by (auto simp: append_in_def good_peerD intro!: append_node_good [THEN post_mono])

lemma clear_in_good: "good_peer s \<Longrightarrow> post (clear_in l s) good_peer"
  by (auto simp: clear_in_def good_peerD intro!: clear_hashchunk_list_good [THEN post_mono])

lemma new_node_good: "good_peer s \<Longrightarrow> post (new_node addr hash k s) (\<lambda>(p, s'). good_peer s')"
  by (auto simp: new_node_def good_peerD intro!: create_node_good [THEN post_mono])

lemma set_node_good: "good_peer s \<Longrightarrow> (\<And>n. good_node n \<Longrightarrow> good_node (f n)) \<Longrightarrow> post (set_node p f s) good_peer"
  by (auto simp: set_node_def good_peerD intro!: store_good [THEN post_mono])

lemma stamp_node_good: "good_peer s \<Longrightarrow> post (stamp_node p s) good_peer"
  by (auto simp: stamp_node_def time_now_def good_peerD intro!: set_node_good)

lemmas peer_posts = delete_in_good [THEN post_mono] delete_hash_in_good [THEN post_mono] move_in_good [THEN post_mono]
  append_in_good [THEN post_mono] clear_in_good [THEN post_mono] new_node_good [THEN post_mono]
  stamp_node_good [THEN post_mono] read_posts

lemma load_good_peer: "good_peer s \<Longrightarrow> post (load (hp s) p) good_node"
  by (rule load_good, rule good_peerD)

subsection \<open>Offers\<close>

lemma add_offer_good: "good_peer s \<Longrightarrow> post (add_offer addr hash p s) good_peer"
  by (auto simp: add_offer_def intro!: peer_posts)

lemma fill_one_good: "good_peer s \<Longrightarrow> post (fill_one addr hash s) good_peer"
  by (auto simp: fill_one_def intro!: peer_posts add_offer_good [THEN post_mono] post_any [where m = "wanted hash p s" for hash p s]
      post_any [where m = "busy addr s" for addr s])

lemma fill_loop_good: "good_peer s \<Longrightarrow> post (fill_loop n c p addr s) good_peer"
  by (induction n arbitrary: c s) (auto intro!: read_posts fill_one_good [THEN post_mono])

subsection \<open>Uploads\<close>

lemma create_SW_good:
  "post (create_SW w hash to) (\<lambda>(W, w'). honest_slots (sender_buf W) \<and> LPR W = 1 \<and> w' = w\<lparr>ticks := Suc (ticks w)\<rparr>)"
  by (auto simp: create_SW_def get_id_bytime_def honest_slots_def split: prod.split intro!: read_posts)

lemma init_upload_good: "good_peer s \<Longrightarrow> post (init_upload p to s) (\<lambda>(r, s'). good_peer s')"
  by (auto simp: init_upload_def Let_def good_node_def good_peerD good_world_source
      intro!: peer_posts create_SW_good [THEN post_mono] send_onechunk_good [THEN post_mono] set_node_good [THEN post_mono])

lemma handle_get_good: "good_peer s \<Longrightarrow> post (handle_get p to s) good_peer"
  by (auto simp: handle_get_def intro!: peer_posts init_upload_good [THEN post_mono])

lemma receive_ack_good: "good_peer s \<Longrightarrow> post (receive_ack conn p s) good_peer"
  by (auto simp: receive_ack_def split: option.split intro!: load_good_peer [THEN post_mono] upon_receive_ACK_good [THEN post_mono] set_node_good)
     (auto simp: good_node_def)

lemma handle_ack_good: "good_peer s \<Longrightarrow> post (handle_ack p to s) good_peer"
  by (auto simp: handle_ack_def intro!: peer_posts receive_ack_good)

subsection \<open>Downloads\<close>

lemma receive_data_good: "good_peer s \<Longrightarrow> post (receive_data conn p addr s) good_peer"
  by (auto simp: receive_data_def good_node_def split: option.split
      intro!: load_good_peer [THEN post_mono] upon_receiving_datapack_good [THEN post_mono] set_node_good good_peerD)

lemma init_download_good: "good_peer s \<Longrightarrow> post (init_download conn s) good_peer"
  by (auto simp: init_download_def create_Recver_def good_node_def intro!: peer_posts set_node_good)

lemma handle_data_good: "good_peer s \<Longrightarrow> post (handle_data p to s) good_peer"
  by (auto simp: handle_data_def intro!: peer_posts receive_data_good init_download_good [THEN post_mono])

subsection \<open>Packets\<close>

text \<open>An ACK for one of 512 packets fits every window.\<close>

lemma honest_ack_fits:
  assumes "good_peer s" and "uint (ACK_Num p) \<le> 512"
  shows "ack_fits p to s"
proof -
  have "ack_ok W p" if "info (hp s) a = Some n" "congWin n = Some W" for a n W
  proof -
    obtain m where m: "nodes (hp s) a = Some m" "n = unlinked m" using \<open>info (hp s) a = Some n\<close> by (auto simp: info_def)
    then have "good_node m" using assms(1) by (simp add: good_peer_def good_heap_def)
    moreover have "congWin m = Some W" using m(2) that(2) by simp
    ultimately have "LPR W = 513" by (simp add: good_node_def good_window_def)
    with assms(2) show ?thesis by (simp add: ack_ok_def)
  qed
  then show ?thesis by (auto simp: ack_fits_def split: sum.split option.split)
qed

lemma acceptable_adm: "good_peer s \<Longrightarrow> acceptable p \<Longrightarrow> packet_adm s (p, addr)"
  using honest_ack_fits [of s p addr] by (auto simp: packet_adm_def acceptable_def)

lemma IHav_sender_good:
  assumes g: "good_peer s" and s: "shape s xs" and c: "carries_hashes p hs"
  shows "post (IHav_sender p (lst s Has) to s) good_peer"
proof -
  let ?mine = "having s xs hs"
  show ?thesis
  proof (cases "?mine = [] \<or> 50 < length ?mine")
    case True
    with g show ?thesis unfolding IHav_sender_result [OF s c] by auto
  next
    case False
    have "\<forall>x\<in>set ?mine. length x = 20" using c by (auto simp: having_def carries_hashes_def)
    with False have "honest (hash_packet 1 (length ?mine) (concat ?mine))" by (intro honest_hash_packet) auto
    from good_world_record [OF good_peerD(2) [OF g] emitted_good [OF this]] False g show ?thesis
      unfolding IHav_sender_result [OF s c] by simp
  qed
qed

lemma dealwith_good:
  assumes g: "good_peer s" and i: "peer_inv s xs" and a: "acceptable p"
  shows "post (dealwithincomepack p addr s) good_peer"
proof (cases "Packet_Type p = 0")
  case True
  then have "has_hashes p" using a by (simp add: acceptable_def)
  then obtain hs where "carries_hashes p hs" by (rule has_hashes_list)
  moreover have "shape s xs" using i by (simp add: peer_inv_def)
  ultimately show ?thesis using IHav_sender_good [OF g, of xs p hs addr] True by (simp add: dealwithincomepack_def)
next
  case False
  with g show ?thesis
    by (simp add: dealwithincomepack_def fill_toget_list_def fill_loop_good handle_get_good handle_data_good handle_ack_good)
qed

text \<open>Everything the network may bring keeps a good peer good, and never stops it.\<close>

definition sound :: "peer \<Rightarrow> bool" where
  "sound s \<longleftrightarrow> peer_ok s \<and> good_peer s"

lemma sound_source: "sound s \<Longrightarrow> upload_source s"
  by (auto simp: sound_def good_peer_def good_world_def source_file_def upload_source_def)

interpretation wires: safe_machine packet_step "\<lambda>_ e. acceptable (fst e)" sound
proof unfold_locales
  fix s and e :: "packet \<times> sockaddr_in" assume s: "sound s" and a: "acceptable (fst e)"
  obtain xs where i: "peer_inv s xs" "good_peer s" using s by (auto simp: sound_def peer_ok_def)
  obtain p addr where e: "e = (p, addr)" by (cases e)
  have "packet_adm s (p, addr)" using acceptable_adm [OF i(2)] a e by simp
  from dealwith_inv [OF i(1) sound_source [OF s] this] obtain s' xs' where
    d: "dealwithincomepack p addr s = Inr s'" "peer_inv s' xs'" by blast
  moreover have "good_peer s'" using postD [OF dealwith_good [OF i(2,1)] d(1)] a e by simp
  ultimately show "\<exists>s'. packet_step s e = Inr s' \<and> sound s'" by (auto simp: sound_def peer_ok_def packet_step_def e)
qed

section \<open>A turn\<close>

subsection \<open>Requests\<close>

lemma timeout_loop_good: "good_peer s \<Longrightarrow> post (timeout_loop fuel t p c s) (\<lambda>(k, s'). good_peer s')"
proof (induction fuel arbitrary: p c s)
  case 0
  then show ?case by (cases p) simp_all
next
  case (Suc fuel)
  then show ?case by (cases p) (auto simp: Let_def intro!: peer_posts)
qed

lemma check_timeout_good: "good_peer s \<Longrightarrow> post (check_timeout s) (\<lambda>(k, s'). good_peer s')"
  by (auto simp: check_timeout_def time_now_def good_peerD intro!: timeout_loop_good)

lemma form_GET_honest: "post (form_GET n) honest"
proof (cases "form_GET n")
  case (Inr p)
  then have "20 \<le> length (node_hash n)" by (auto simp: form_GET_def mem_read_def HASH_SIZE_def ebind_eq_Inr split: if_splits)
  with Inr show ?thesis
    by (auto simp: form_GET_def mem_read_def HASH_SIZE_def HEADER_LEN_def honest_def acceptable_def wf_packet_def overhead_def
        body_def wire_bytes_def zero_packet_def BUFLEN2_def)
qed simp

lemma send_get_good: "good_peer s \<Longrightarrow> post (send_get p s) good_peer"
  by (auto simp: send_get_def intro!: peer_posts form_GET_honest [THEN post_mono] send_pack_good [THEN post_mono] good_peerD)

lemma pick_loop_good: "good_peer s \<Longrightarrow> post (pick_loop fuel p q m a c s) (\<lambda>(k, s'). good_peer s')"
proof (induction fuel arbitrary: a c s)
  case 0
  then show ?case by (cases a) simp_all
next
  case (Suc fuel)
  then show ?case by (cases a) (auto intro!: peer_posts send_get_good [THEN post_mono])
qed

lemma GET_sender_good: "good_peer s \<Longrightarrow> post (GET_sender s) (\<lambda>(k, s'). good_peer s')"
  by (auto simp: GET_sender_def pick_tosend_GET_def Let_def intro!: pick_loop_good [THEN post_mono])

lemma WhoHas_sender_good:
  assumes g: "good_peer s" and i: "peer_inv s xs"
  shows "post (WhoHas_sender (lst s Need) ps s) good_peer"
proof -
  have s: "shape s xs" using i by (simp add: peer_inv_def)
  obtain groups where w: "WhoHas_sender (lst s Need) ps s =
      Inr (s\<lparr>wd := record_sent (wd s) (broadcasts (router (wd s)) (me_id (me s)) ps (whohas_packets groups))\<rparr>)"
    "concat groups = unclaimed_in s xs (map (hash_of (info (hp s))) (xs Need))" "\<forall>g\<in>set groups. g \<noteq> [] \<and> length g \<le> 50"
    using WhoHas_sender_result [OF s] by blast
  have "length x = 20" if "g \<in> set groups" "x \<in> set g" for g x
  proof -
    have "x \<in> set (concat groups)" using that by auto
    then obtain a where "a \<in> set (xs Need)" "x = hash_of (info (hp s)) a" by (auto simp: w(2) unclaimed_in_def)
    with i show ?thesis by (fastforce simp: peer_inv_def nodes_ok_def node_ok_def hash_of_def)
  qed
  with w(3) have "honest p" if "p \<in> set (whohas_packets groups)" for p
    using that by (auto simp: whohas_packets_def intro!: honest_hash_packet)
  then have "\<forall>d\<in>set (broadcasts (router (wd s)) (me_id (me s)) ps (whohas_packets groups)). good_dgram (router (wd s)) d"
    using emitted_good by (fastforce simp: broadcasts_def)
  with good_world_record [OF good_peerD(2) [OF g]] g show ?thesis unfolding w(1) by simp
qed

lemma ask_around_good:
  assumes g: "good_peer s" and i: "peer_inv s xs"
  shows "post (ask_around s) good_peer"
proof -
  from GET_sender_kept [OF i] obtain k s1 xs1 where r: "GET_sender s = Inr (k, s1)" "peer_inv s1 xs1" by blast
  have "good_peer s1" using postD [OF GET_sender_good [OF g] r(1)] by simp
  with WhoHas_sender_good [OF _ r(2)] r(1) show ?thesis by (simp add: ask_around_def Let_def)
qed

subsection \<open>Transfers\<close>

lemma put_window_good: "good_peer s \<Longrightarrow> good_window W \<Longrightarrow> good_world (chunk_file (config s)) w \<Longrightarrow> post (put_window p W w s) good_peer"
  by (auto simp: put_window_def good_node_def intro!: set_node_good)

lemma check_recvack_timeout_good: "good_peer s \<Longrightarrow> post (check_recvack_timeout p s) (\<lambda>(k, s'). good_peer s')"
  by (auto simp: check_recvack_timeout_def abort_upload_def time_now_def Let_def good_peerD intro!: peer_posts)

lemma upload_loop_good: "good_peer s \<Longrightarrow> post (upload_loop fuel p s) good_peer"
proof (induction fuel arbitrary: p s)
  case 0
  then show ?case by (cases p) simp_all
next
  case (Suc fuel)
  note put = put_window_good [THEN post_mono]
  show ?case
  proof (cases p)
    case (Some a)
    with Suc.prems show ?thesis
      by (auto simp: good_node_def split: option.split intro!: Suc.IH load_good_peer [THEN post_mono]
          window_sender_good [where w = "wd s" and loc = "chunk_file (config s)" for s, THEN post_mono] put
          check_datapack_timeout_good [where w = "wd s" and loc = "chunk_file (config s)" for s, THEN post_mono] check_recvack_timeout_good [THEN post_mono] move_in_good [THEN post_mono] good_peerD)
  qed (use Suc.prems in simp)
qed

lemma uploads_loop_good: "good_peer s \<Longrightarrow> post (uploads_loop s) good_peer"
  by (simp add: uploads_loop_def upload_loop_good)

lemma source_file_update: "source_file fs loc \<Longrightarrow> name \<noteq> loc \<Longrightarrow> source_file (fs(name \<mapsto> f)) loc"
  unfolding source_file_def by (elim exE conjE) (rule exI, rule exI, intro conjI, auto)

lemma os_write_good:
  assumes "good_world loc w" and "os_write w fd bs = (r, w')"
  shows "good_world loc w'"
  using assms
  by (auto simp: os_write_def good_world_def Let_def source_file_update sparesD spares_move split: option.splits if_splits)

lemma os_lseek_good: "good_world loc w \<Longrightarrow> good_world loc (os_lseek w fd pos)"
  by (auto simp: os_lseek_def good_world_def spares_move split: option.split)

lemma write_loop_good: "good_world loc w \<Longrightarrow> post (write_loop fuel b k fd ret wr w) (\<lambda>(r, w'). good_world loc w')"
proof (induction fuel arbitrary: ret wr w)
  case 0
  then show ?case by (subst write_loop.simps) simp
next
  case (Suc fuel)
  show ?case
    by (subst write_loop.simps)
       (auto simp: Let_def Suc.prems split: prod.split intro!: post_any [where m = "int_mult a b" for a b] read_posts Suc.IH
         dest: os_write_good [OF os_lseek_good [OF Suc.prems]])
qed

lemma reap_good: "good_world loc w \<Longrightarrow> post (reap fuel rs k fd w) (\<lambda>(r, w'). good_world loc w')"
  by (auto simp: reap_def split: if_splits intro!: post_any [where m = "merge_loop n i b p k" for n i b p k]
      post_any [where m = "check_onechunk_hash b h" for b h] write_loop_good)

lemma os_close_good [simp]: "good_world loc w \<Longrightarrow> good_world loc (os_close w fd)"
  by (auto simp: os_close_def good_world_def spares_del)

lemma finish_one_download_good: "good_peer s \<Longrightarrow> post (finish_one_download p s) good_peer"
  by (auto simp: finish_one_download_def intro!: peer_posts)

lemma complete_mydownload_good: "good_peer s \<Longrightarrow> post (complete_mydownload s) good_peer"
  by (auto simp: complete_mydownload_def Let_def good_peerD intro!: peer_posts clear_in_good)

lemma check_recvdata_timeout_good: "good_peer s \<Longrightarrow> post (check_recvdata_timeout p s) (\<lambda>(k, s'). good_peer s')"
  by (auto simp: check_recvdata_timeout_def time_now_def Let_def good_peerD intro!: peer_posts)

lemma download_loop_good: "good_peer s \<Longrightarrow> post (download_loop wfuel fuel p s) good_peer"
proof (induction fuel arbitrary: p s)
  case 0
  then show ?case by (cases p) simp_all
next
  case (Suc fuel)
  show ?case
  proof (cases p)
    case (Some a)
    with Suc.prems show ?thesis
      by (auto split: option.split intro!: read_posts Suc.IH complete_mydownload_good check_recvdata_timeout_good [THEN post_mono]
          reap_good [where loc = "chunk_file (config s)" for s, THEN post_mono] finish_one_download_good [THEN post_mono] good_peerD)
  qed (use Suc.prems in simp)
qed

lemma downloads_loop_good: "good_peer s \<Longrightarrow> post (downloads_loop wfuel s) good_peer"
  by (simp add: downloads_loop_def download_loop_good)

text \<open>
  The part of a turn after the inputs: unless a transfer is late or a chunk complete it yields
  the next state; otherwise it may also stop as \<open>turn_work_outcome\<close> says.
\<close>

lemma turn_work_sound:
  assumes "sound s" and "turn_work wfuel s = Inr s'"
  shows "sound s'"
proof -
  obtain xs where i: "peer_inv s xs" "good_peer s" using assms(1) by (auto simp: sound_def peer_ok_def)
  from timeout_kept [OF i(1)] obtain k s1 xs1 where s1: "check_timeout s = Inr (k, s1)" "peer_inv s1 xs1" by blast
  from assms(2) s1(1) obtain s2 s3 where s3: "ask_around s1 = Inr s2" "uploads_loop s2 = Inr s3" "downloads_loop wfuel s3 = Inr s'"
    by (auto simp: turn_work_def ebind_eq_Inr)
  have "good_peer s1" using postD [OF check_timeout_good [OF i(2)] s1(1)] by simp
  from postD [OF ask_around_good [OF this s1(2)] s3(1)] have "good_peer s2" .
  from postD [OF uploads_loop_good [OF this] s3(2)] have "good_peer s3" .
  from postD [OF downloads_loop_good [OF this] s3(3)] have "good_peer s'" .
  moreover have "peer_ok s'"
    using turn_work_outcome [OF i(1), of wfuel] assms(2) by auto
  ultimately show ?thesis by (simp add: sound_def)
qed

subsection \<open>Commands\<close>

lemma os_open_good:
  assumes "good_world loc w" and "os_open w name = (fd, w')" and "name \<noteq> loc"
  shows "good_world loc w'"
  using assms by (auto simp: os_open_def good_world_def source_file_update spares_upd split: if_splits)

lemma good_peer_config [simp]: "chunk_file c = chunk_file (config s) \<Longrightarrow> good_peer (s\<lparr>config := c\<rparr>) = good_peer s"
  by (simp add: good_peer_def)

lemma clear_in_config: "good_peer s \<Longrightarrow> post (clear_in l s) (\<lambda>s'. good_peer s' \<and> config s' = config s)"
  by (rule post_conj [OF clear_in_good]) (auto simp: clear_in_def intro!: post_any [where m = "clear_hashchunk_list h l" for h l])

lemma good_peer_world: "good_peer s \<Longrightarrow> chunk_file (config s) = loc \<Longrightarrow> good_world loc (wd s)"
  by (auto dest: good_peerD)

lemma reset_mydownload_good:
  assumes "good_peer s" and "cstr out \<noteq> chunk_file (config s)"
  shows "post (reset_mydownload c out s) good_peer"
  using assms
  by (auto simp: reset_mydownload_def Let_def split_beta good_peerD os_open_good [OF good_peer_world surjective_pairing]
      intro!: clear_in_config [THEN post_mono] read_posts parse_hasneed_list_good [THEN post_mono])

end
