(* ===== verification/Network.thy ===== *)
theory Network
  imports Honest
begin

text \<open>
  Peers that talk to each other: any number of hosts, each started by \<open>main\<close> and each making
  turns of \<open>peer_run\<close> in any interleaving, with a network that may lose, repeat, delay and
  reorder what they send.
\<close>

section \<open>Hosts\<close>

type_synonym host = "buf \<times> user_iobuf \<times> peer"

definition host_world :: "host \<Rightarrow> world" where
  "host_world st = wd (snd (snd st))"

text \<open>A host between two turns: nothing is left in the receive buffer and its peer is sound.\<close>

definition host_ok :: "host \<Rightarrow> bool" where
  "host_ok st \<longleftrightarrow> (case st of (b, u, s) \<Rightarrow>
     holds b [] \<and> (\<exists>str. u = clean_buf str \<and> 0 \<notin> set str \<and> 10 \<notin> set str) \<and> sound s)"

lemma host_ok_turn: "host_ok st \<Longrightarrow> turn_inv st"
  by (auto simp: host_ok_def turn_inv_def sound_def)

lemma host_ok_good: "host_ok st \<Longrightarrow> d \<in> set (sent (host_world st)) \<Longrightarrow> good_dgram (router (host_world st)) d"
  by (auto simp: host_ok_def host_world_def sound_def good_peer_def good_world_def)

section \<open>Commands\<close>

text \<open>As \<open>line_adm\<close>; and the output file is not the file that names the data of the uploads.\<close>

definition command_adm :: "peer \<Rightarrow> byte list \<Rightarrow> bool" where
  "command_adm s line \<longleftrightarrow> line_adm s line \<and>
     (case scan_get line of None \<Rightarrow> True | Some (chunkf, outf) \<Rightarrow> outf \<noteq> chunk_file (config s))"

lemma handle_user_input_good:
  assumes "good_peer s" and "command_adm s line"
  shows "post (handle_user_input s line) good_peer"
proof (cases "scan_get line")
  case None
  with assms(1) show ?thesis by (simp add: handle_user_input_def)
next
  case (Some r)
  then obtain chunkf outf where r: "scan_get line = Some (chunkf, outf)" by (cases r) auto
  with assms(2) have "plain_name outf" "outf \<noteq> chunk_file (config s)" by (auto simp: command_adm_def line_adm_def)
  with reset_mydownload_good [OF assms(1), of outf chunkf] r assms(1) show ?thesis
    by (simp add: handle_user_input_def process_get_def plain_name_cstr)
qed

interpretation commands: line_handler handle_user_input command_adm sound
proof unfold_locales
  fix s line assume s: "sound s" and l: "command_adm s line"
  then obtain xs where i: "peer_inv s xs" "good_peer s" by (auto simp: sound_def peer_ok_def)
  have "line_adm s line" using l by (simp add: command_adm_def)
  from handle_user_input_inv [OF i(1) this] obtain s' xs' where r: "handle_user_input s line = Inr s'" "peer_inv s' xs'" by blast
  with postD [OF handle_user_input_good [OF i(2) l] r(1)] show "\<exists>s'. handle_user_input s line = Inr s' \<and> sound s'"
    by (auto simp: sound_def peer_ok_def)
qed

section \<open>What a turn may bring\<close>

text \<open>
  A datagram that some host has sent, in the same mode of the router. The source address is the
  sender's or the router's; the code does not trust it.
\<close>

definition delivered :: "('h \<Rightarrow> host) \<Rightarrow> 'h \<Rightarrow> datagram option option \<Rightarrow> bool" where
  "delivered n i nt \<longleftrightarrow> (case nt of None \<Rightarrow> True | Some dg \<Rightarrow> \<exists>src j d. dg = Some (src, snd d) \<and>
     d \<in> set (sent (host_world (n j))) \<and>
     giSpiffyEnabled (router (host_world (n j))) = giSpiffyEnabled (router (host_world (n i))))"

definition typed :: "user_iobuf \<Rightarrow> peer \<Rightarrow> byte list option option \<Rightarrow> bool" where
  "typed u s ti \<longleftrightarrow> (case ti of None \<Rightarrow> True | Some input \<Rightarrow>
     \<exists>bs str. input = Some bs \<and> u = clean_buf str \<and> length str + length bs \<le> 4096 \<and> 0 \<notin> set (str @ bs) \<and>
       accepts handle_user_input command_adm s (lines_of (str @ bs)))"

definition receive :: "(nat \<Rightarrow> byte) \<Rightarrow> datagram option option \<Rightarrow> buf \<Rightarrow> peer \<Rightarrow> (buf \<times> peer) res" where
  "receive junk nt b s = (case nt of None \<Rightarrow> Inr (b, s) | Some d \<Rightarrow> process_inbound_udp junk d b s)"

definition possible :: "(nat \<Rightarrow> byte) \<Rightarrow> ('h \<Rightarrow> host) \<Rightarrow> 'h \<Rightarrow> turn \<Rightarrow> bool" where
  "possible junk n i t \<longleftrightarrow> (case n i of (b, u, s) \<Rightarrow> ready t \<longrightarrow> delivered n i (net t) \<and>
     (\<forall>b1 s1. receive junk (net t) b s = Inr (b1, s1) \<longrightarrow> typed u s1 (term_input t)))"

text \<open>What an honest host has sent arrives as one packet.\<close>

lemma dgram_arrives:
  assumes "good_dgram g d" and "giSpiffyEnabled g = giSpiffyEnabled g'"
  shows "\<exists>p src'. honest p \<and> arrival g' (src, snd d) src' (wire_bytes p)"
proof -
  obtain p to where p: "honest p" "d \<in> set (emitted g to (wire_bytes p))" using assms(1) by (auto simp: good_dgram_def)
  show ?thesis
  proof (cases "giSpiffyEnabled g")
    case True
    with p(2) have "sin_family to = AF_INET" "emitted g to (wire_bytes p) = [d]" by (auto simp: emitted_def split: if_splits)
    then have "arrival g' (src, snd d) \<lparr>sin_family = AF_INET, sin_port = gsSrcPort g, sin_addr = glSrcAddr g\<rparr> (wire_bytes p)"
      using True assms(2) by (auto simp: arrival_def intro!: exI [of _ g] exI [of _ to])
    with p(1) show ?thesis by blast
  next
    case False
    with p(2) have "snd d = wire_bytes p" by (simp add: emitted_def)
    with p(1) False assms(2) show ?thesis by (auto simp: arrival_def)
  qed
qed

lemma packet_arrives:
  assumes "holds b []" and "sound s" and "honest p" and "arrival (router (wd s)) d src (wire_bytes p)"
  shows "\<exists>b1 s1. process_inbound_udp junk (Some d) b s = Inr (b1, s1) \<and> holds b1 [] \<and> sound s1 \<and> peer_frame s s1"
proof -
  have p: "wf_packet p" "length [] + length (wire_bytes p) \<le> BUFLEN2" "acceptable (as_received p)"
    using assms(3) acceptable_received by (auto simp: honest_def)
  obtain xs where i: "peer_inv s xs" "good_peer s" using assms(2) by (auto simp: sound_def peer_ok_def)
  from arrival_datagram [OF assms(4,1) p(2), of junk] obtain b1 where
    b1: "holds b1 (concat (map wire_bytes [p]) @ [])" "process_inbound_udp junk (Some d) b s = inbound_loop b1 src s" by auto
  from inbound_loop_holds [OF _ b1(1), of src s] p(1) obtain b2 where
    "holds b2 []" "inbound_loop b1 src s = ebind (packet_step s (as_received p, src)) (\<lambda>s'. Inr (b2, s'))"
    by auto
  moreover from wires.step_safe [OF assms(2), of "(as_received p, src)"] p(3) obtain s1 where
    "packet_step s (as_received p, src) = Inr s1" "sound s1" by auto
  moreover from this dealwith_inv [OF i(1) sound_source [OF assms(2)] acceptable_adm [OF i(2) p(3)], of src] have "peer_frame s s1"
    by auto
  ultimately show ?thesis using b1(2) by auto
qed

lemma receive_safe:
  assumes "\<And>j. host_ok (n j)" and "delivered n i nt" and "n i = (b, u, s)"
  shows "\<exists>b1 s1. receive junk nt b s = Inr (b1, s1) \<and> holds b1 [] \<and> sound s1 \<and> peer_frame s s1"
proof (cases nt)
  case None
  with assms(1) [of i] assms(3) show ?thesis by (auto simp: receive_def host_ok_def)
next
  case (Some dg)
  with assms(2) obtain src j d where d: "dg = Some (src, snd d)" "d \<in> set (sent (host_world (n j)))"
    "giSpiffyEnabled (router (host_world (n j))) = giSpiffyEnabled (router (host_world (n i)))" by (auto simp: delivered_def)
  have r: "router (host_world (n i)) = router (wd s)" by (simp add: assms(3) host_world_def)
  from dgram_arrives [OF host_ok_good [OF assms(1) d(2)] d(3), of src] obtain p src' where
    "honest p" "arrival (router (wd s)) (src, snd d) src' (wire_bytes p)" unfolding r by blast
  moreover have "holds b []" "sound s" using assms(1) [of i] assms(3) by (auto simp: host_ok_def)
  ultimately show ?thesis using packet_arrives Some d(1) by (simp add: receive_def)
qed

lemma typed_safe:
  assumes "u = clean_buf str0" "0 \<notin> set str0" "10 \<notin> set str0" and "sound s" and "typed u s ti"
  shows "\<exists>u1 s1. (case ti of None \<Rightarrow> Inr (u, s) | Some i \<Rightarrow> process_user_input handle_user_input i u s) = Inr (u1, s1) \<and>
    (\<exists>str. u1 = clean_buf str \<and> 0 \<notin> set str \<and> 10 \<notin> set str) \<and> sound s1"
proof (cases ti)
  case None
  with assms show ?thesis by auto
next
  case (Some i)
  with assms(5) obtain bs str where a: "i = Some bs" "u = clean_buf str" "length str + length bs \<le> 4096" "0 \<notin> set (str @ bs)"
    "accepts handle_user_input command_adm s (lines_of (str @ bs))" by (auto simp: typed_def)
  from commands.read_safe [OF assms(4) a(3-5)] Some a(1,2) show ?thesis by auto
qed

lemma read_inputs_host:
  assumes "\<And>j. host_ok (n j)" and "possible junk n i t"
  shows "\<exists>st. read_inputs junk t (n i) = Inr st \<and> host_ok st"
proof -
  obtain b u s where st: "n i = (b, u, s)" by (cases "n i") auto
  show ?thesis
  proof (cases "ready t")
    case False
    with assms(1) [of i] st show ?thesis by (simp add: read_inputs_def)
  next
    case True
    with assms(2) st have d: "delivered n i (net t)"
      and ty: "\<And>b1 s1. receive junk (net t) b s = Inr (b1, s1) \<Longrightarrow> typed u s1 (term_input t)" by (auto simp: possible_def)
    from receive_safe [OF assms(1) d st, of junk] obtain b1 s1 where
      r: "receive junk (net t) b s = Inr (b1, s1)" "holds b1 []" "sound s1" by blast
    obtain str where str: "u = clean_buf str" "0 \<notin> set str" "10 \<notin> set str" using assms(1) [of i] st by (auto simp: host_ok_def)
    from typed_safe [OF str r(3) ty [OF r(1)]] obtain u1 s2 where
      "(case term_input t of None \<Rightarrow> Inr (u, s1) | Some i \<Rightarrow> process_user_input handle_user_input i u s1) = Inr (u1, s2)"
      "\<exists>str. u1 = clean_buf str \<and> 0 \<notin> set str \<and> 10 \<notin> set str" "sound s2" by blast
    with True st r show ?thesis by (simp add: read_inputs_def receive_def host_ok_def)
  qed
qed

section \<open>A turn of one host\<close>

text \<open>No transfer is late and no chunk complete once the inputs of the turn are read.\<close>

definition punctual :: "(nat \<Rightarrow> byte) \<Rightarrow> host \<Rightarrow> turn \<Rightarrow> bool" where
  "punctual junk st t \<longleftrightarrow>
     (case read_inputs junk t st of Inl _ \<Rightarrow> True | Inr (b, u, s) \<Rightarrow> \<forall>xs. peer_inv s xs \<longrightarrow> in_time s xs)"

text \<open>The two ways in which a turn that is not punctual may end.\<close>

definition late_fault :: "nat \<Rightarrow> fault \<Rightarrow> bool" where
  "late_fault wfuel e \<longleftrightarrow> e = UseAfterFree \<or> (\<exists>rs k fd w. reap wfuel rs k fd w = Inl e)"

lemma host_turn:
  assumes "\<And>j. host_ok (n j)" and "possible junk n i t"
  shows "(\<exists>st. peer_turn junk wfuel t (n i) = Inr st \<and> host_ok st) \<or>
    \<not> punctual junk (n i) t \<and> (\<exists>e. peer_turn junk wfuel t (n i) = Inl e \<and> late_fault wfuel e)"
proof -
  from read_inputs_host [OF assms] obtain b u s where r: "read_inputs junk t (n i) = Inr (b, u, s)" "host_ok (b, u, s)" by auto
  then obtain xs where i: "peer_inv s xs" and s: "sound s" by (auto simp: host_ok_def sound_def peer_ok_def)
  have p: "peer_turn junk wfuel t (n i) = ebind (turn_work wfuel s) (\<lambda>s'. Inr (b, u, s'))"
    using r(1) by (simp add: peer_turn_work)
  have go: "\<exists>st. peer_turn junk wfuel t (n i) = Inr st \<and> host_ok st" if "turn_work wfuel s = Inr s'" for s'
    using turn_work_sound [OF s that] that r(2) p by (simp add: host_ok_def)
  show ?thesis
  proof (cases "punctual junk (n i) t")
    case True
    then have "in_time s xs" using r(1) i by (simp add: punctual_def)
    with turn_work_safe [OF i] go show ?thesis by blast
  next
    case False
    with turn_work_outcome [OF i, of wfuel] go p show ?thesis by (auto simp: late_fault_def)
  qed
qed

section \<open>The start of a host\<close>

text \<open>
  Files and options with which \<open>main\<close> reaches the event loop, as in \<open>start_establishes_invariant\<close>,
  and with which the host can serve uploads: the file that \<open>-c\<close> names gives a data file.
\<close>

definition boots ::
  "(byte list \<Rightarrow> u32 option) \<Rightarrow> (byte list \<Rightarrow> u32 option) \<Rightarrow> byte list option \<Rightarrow> (byte \<times> byte list) list \<Rightarrow>
   world \<Rightarrow> bt_config \<Rightarrow> peer_entry list \<Rightarrow> (nat \<times> byte list) list \<Rightarrow> host \<Rightarrow> bool" where
  "boots resolve inet_aton env opts w c ps es st \<longleftrightarrow>
     (\<exists>d. apply_options opts (testing_defaults bt_init, 0) = Inr (c, d)) \<and>
     files w (peer_list_file c) = Some (concat (map entry_line ps)) \<and> list_all (wf_entry resolve) ps \<and>
     identity c \<noteq> 0 \<and> identity c \<in> (\<lambda>e. int (entry_id e)) ` set ps \<and>
     chunk_file c \<noteq> [] \<and> has_chunk_file c \<noteq> [] \<and>
     files w (has_chunk_file c) = Some (concat (map chunk_line es)) \<and>
     list_all wf_chunk es \<and> (\<forall>e\<in>set es. fst e < 4096) \<and> 0 \<le> max_conn c \<and> can_open w winlog_name \<and>
     source_file (files w) (chunk_file c) \<and> sent w = [] \<and> open_fds w = (\<lambda>_. None) \<and>
     start_peer resolve inet_aton env opts w = Inr st"

definition started :: "host \<Rightarrow> bool" where
  "started st \<longleftrightarrow> (\<exists>resolve inet_aton env opts w c ps es. boots resolve inet_aton env opts w c ps es st)"

lemma spiffy_init_world:
  "sent (snd (spiffy_init inet_aton w env i a)) = sent w" "files (snd (spiffy_init inet_aton w env i a)) = files w"
  "open_fds (snd (spiffy_init inet_aton w env i a)) = open_fds w"
  by (auto simp: spiffy_init_def Let_def split: option.split)

lemma init_peerme_good: "post (init_peerme c w) (\<lambda>s. good_heap (hp s) \<and> config s = c \<and> wd s = w)"
proof -
  have "good_heap empty_heap" by (simp add: good_heap_def empty_heap_def)
  then show ?thesis
    by (auto simp: init_peerme_def Let_def intro!: parse_hasneed_list_good [THEN post_mono])
qed

lemma init_winlog_post:
  "post (init_winlog f w) (\<lambda>(_, w1). sent w1 = sent w \<and> files w1 = files w \<and> open_fds w1 = open_fds w \<and>
     write_result w1 = write_result w)"
  by (auto simp: init_winlog_def gettimeofday_def)

lemma start_peer_good:
  assumes "apply_options opts (testing_defaults bt_init, 0) = Inr (c, d)"
  shows "post (start_peer resolve inet_aton env opts w) (\<lambda>(b, u, s). good_heap (hp s) \<and> chunk_file (config s) = chunk_file c \<and>
    sent (wd s) = sent w \<and> files (wd s) = files w \<and> open_fds (wd s) = open_fds w)"
proof -
  have "post (bt_parse_peer_list resolve (files w) c) (\<lambda>c'. chunk_file c' = chunk_file c)"
    by (auto simp: bt_parse_peer_list_def split: option.split intro: post_any)
  then have "post (bt_parse_command_line resolve (files w) opts (testing_defaults bt_init, 0))
      (\<lambda>(c', d'). chunk_file c' = chunk_file c)"
    by (auto simp: bt_parse_command_line_def assms split: option.split elim!: post_mono)
  then show ?thesis
    unfolding start_peer_def
    by (auto simp: peer_run_setup_def spiffy_init_world case_prod_beta elim!: post_mono
        intro!: init_winlog_post [THEN post_mono] init_peerme_good [THEN post_mono])
qed

lemma started_ok:
  assumes "started st"
  shows "host_ok st"
proof -
  obtain resolve inet_aton env opts w c d ps es where a:
    "apply_options opts (testing_defaults bt_init, 0) = Inr (c, d)"
    "files w (peer_list_file c) = Some (concat (map entry_line ps))" "list_all (wf_entry resolve) ps"
    "identity c \<noteq> 0" "identity c \<in> (\<lambda>e. int (entry_id e)) ` set ps" "chunk_file c \<noteq> []" "has_chunk_file c \<noteq> []"
    "files w (has_chunk_file c) = Some (concat (map chunk_line es))"
    "list_all wf_chunk es" "\<forall>e\<in>set es. fst e < 4096" "0 \<le> max_conn c" "can_open w winlog_name"
    and g: "source_file (files w) (chunk_file c)" "sent w = []" "open_fds w = (\<lambda>_. None)"
    and st: "start_peer resolve inet_aton env opts w = Inr st"
    using assms unfolding started_def boots_def by (elim exE conjE) (rule that)
  from start_peer_inv [OF a, of inet_aton env] st obtain s as where s: "st = (zero_buf, create_userbuf, s)" "peer_inv s (has_only as)"
    by auto
  from postD [OF start_peer_good [OF a(1)] st] g have "good_peer s"
    by (simp add: s(1) good_peer_def good_world_def spares_def)
  moreover have "holds zero_buf []" by (simp add: holds_def zero_buf_def)
  ultimately show ?thesis using s create_userbuf_clean by (auto simp: host_ok_def sound_def peer_ok_def intro!: exI [of _ "[]"])
qed

section \<open>Reachable networks\<close>

inductive reachable :: "('h \<Rightarrow> host) \<Rightarrow> bool" where
  start: "(\<And>i. started (n i)) \<Longrightarrow> reachable n"
| turn: "reachable n \<Longrightarrow> possible junk n i t \<Longrightarrow> peer_turn junk wfuel t (n i) = Inr st \<Longrightarrow> reachable (n(i := st))"

lemma reachable_ok: "reachable n \<Longrightarrow> host_ok (n j)"
proof (induction arbitrary: j rule: reachable.induct)
  case (start n)
  then show ?case by (rule started_ok)
next
  case (turn n junk i t wfuel st)
  with host_turn [of n junk i t wfuel] show ?case by auto
qed

section \<open>Properties\<close>


text \<open>A network of one host with two chunks and a data file to serve them from.\<close>

definition sample_net_world :: world where
  "sample_net_world = sample_start\<lparr>files := (files sample_start)(ascii ''chunkfile'' \<mapsto> [70, 58, 32, 100, 10], [100] \<mapsto> [])\<rparr>"

lemma sample_net_started:
  "\<exists>st as. start_peer (\<lambda>_. Some 1) (\<lambda>_. None) None [] sample_net_world = Inr st \<and> started st \<and>
    peer_inv (snd (snd st)) (has_only as)"
proof -
  let ?c = "testing_defaults bt_init" and ?ps = "[\<lparr>entry_id = 1, entry_host = [104], entry_port = 5\<rparr>]"
  have o: "apply_options [] (testing_defaults bt_init, 0) = Inr (?c, 0)" by simp
  have n: "peer_list_file ?c = ascii ''nodes.map''" "has_chunk_file ?c = ascii ''haschunks''" "identity ?c = 1" "max_conn ?c = 0"
    "chunk_file ?c = ascii ''chunkfile''" by (simp_all add: testing_defaults_def bt_init_def)
  have f: "files sample_net_world (peer_list_file ?c) = Some (concat (map entry_line ?ps))"
    "files sample_net_world (has_chunk_file ?c) = Some (concat (map chunk_line sample_chunks))"
    "files sample_net_world (chunk_file ?c) = Some [70, 58, 32, 100, 10]" "files sample_net_world [100] = Some []"
    unfolding n by (simp_all add: sample_net_world_def sample_start_def ascii_def)
  have l: "list_all (wf_entry (\<lambda>_. Some 1)) ?ps"
    by (simp add: wf_entry_def entry_line_def is_space_def show_nat.simps)
  have x: "identity ?c \<noteq> 0" "identity ?c \<in> (\<lambda>e. int (entry_id e)) ` set ?ps" "chunk_file ?c \<noteq> []" "has_chunk_file ?c \<noteq> []"
    "0 \<le> max_conn ?c" unfolding n by (simp_all add: ascii_def)
  have c: "list_all wf_chunk sample_chunks" "\<forall>e\<in>set sample_chunks. fst e < 4096"
    by (simp_all add: sample_chunks_def wf_chunk_def)
  have w: "sent sample_net_world = []" "open_fds sample_net_world = (\<lambda>_. None)" "can_open sample_net_world winlog_name"
    by (simp_all add: sample_net_world_def sample_start_def quiet_world_def)
  have src: "source_file (files sample_net_world) (chunk_file ?c)"
    using f(3,4) sample_fs_simps(3) by (auto simp: source_file_def)
  from start_peer_inv [OF o f(1) l x(1-4) f(2) c x(5) w(3), of "\<lambda>_. None" None] obtain s as where
    st: "start_peer (\<lambda>_. Some 1) (\<lambda>_. None) None [] sample_net_world = Inr (zero_buf, create_userbuf, s)"
    "peer_inv s (has_only as)" by blast
  with o f(1) l x f(2) c src w have "started (zero_buf, create_userbuf, s)" unfolding started_def boots_def by blast
  with st show ?thesis by fastforce
qed

lemma idle_in_time:
  assumes "peer_inv s (has_only as)" and "peer_inv s xs"
  shows "in_time s xs"
proof -
  have l: "xs l = has_only as l" for l
    using assms lists_okD(2) [OF shapeD(1), of s _ l] is_list_unique by (metis peer_inv_def)
  show ?thesis unfolding in_time_def l by simp
qed


end
