(* ===== verification/ChunkTransfer.thy ===== *)
theory ChunkTransfer
  imports Network
begin

text \<open>
  The transfer of one chunk between two peers, turn by turn of \<open>peer_run\<close>: what a turn that brings
  one DATA packet does to the receiving peer, and one that brings an ACK to the sending peer.
\<close>

section \<open>A turn that brings one packet\<close>

definition packet_turn :: "sockaddr_in \<Rightarrow> byte list \<Rightarrow> turn" where
  "packet_turn src bs = \<lparr>ready = True, net = Some (Some (src, bs)), term_input = None\<rparr>"

lemma turn_packet:
  assumes "holds b []" and "\<not> giSpiffyEnabled (router (wd s))" and "wf_packet p" "length (wire_bytes p) \<le> BUFLEN2"
    and d: "dealwithincomepack (as_received p) src s = Inr s1" and w: "turn_work wfuel s1 = Inr s2"
  shows "\<exists>b'. holds b' [] \<and> peer_turn junk wfuel (packet_turn src (wire_bytes p)) (b, u, s) = Inr (b', u, s2)"
proof -
  have "arrival (router (wd s)) (src, wire_bytes p) src (wire_bytes p)" using assms(2) by (simp add: arrival_def)
  from arrival_datagram [OF this assms(1), of junk] assms(4) obtain b1 where
    b1: "holds b1 (concat (map wire_bytes [p]) @ [])" "process_inbound_udp junk (Some (src, wire_bytes p)) b s = inbound_loop b1 src s"
    by auto
  from inbound_loop_holds [OF _ b1(1), of src s] assms(3) obtain b2 where
    "holds b2 []" "inbound_loop b1 src s = ebind (packet_step s (as_received p, src)) (\<lambda>s'. Inr (b2, s'))" by auto
  with b1(2) d w show ?thesis
    by (intro exI [of _ b2]) (simp add: peer_turn_work read_inputs_def packet_turn_def)
qed

section \<open>The quiet parts of a turn\<close>

lemma check_timeout_quiet: "shape s xs \<Longrightarrow> xs Sent = [] \<Longrightarrow> check_timeout s = Inr (0, ticked 1 s)"
  using cursor_start [of s xs Sent] by (simp add: check_timeout_def time_now_def ticked_def)

lemma GET_sender_quiet: "peer_inv s xs \<Longrightarrow> xs To_send = [] \<Longrightarrow> GET_sender s = Inr (0, s)"
  using GET_sender_inv [of s xs] by simp

lemma ask_around_quiet:
  assumes i: "peer_inv s xs" and "xs To_send = []" and "xs Need = [] \<or> xs Downloading \<noteq> []"
  shows "ask_around s = Inr s"
proof -
  have s: "shape s xs" and ck: "counters_ok s xs" using i by (auto simp: peer_inv_def)
  show ?thesis
  proof (cases "xs Need = []")
    case True
    then have "needlist (mydownload (me s)) = None" using cursor_start [OF s, of Need] by simp
    with GET_sender_quiet [OF i assms(2)] show ?thesis by (simp add: ask_around_def Let_def WhoHas_sender_def)
  next
    case False
    with assms(3) ck have "concurr_download_num (mydownload (me s)) \<noteq> 0"
      by (cases "xs Downloading") (auto simp: counters_ok_def)
    with GET_sender_quiet [OF i assms(2)] show ?thesis by (simp add: ask_around_def Let_def)
  qed
qed

lemma uploads_quiet: "shape s xs \<Longrightarrow> xs Uploading = [] \<Longrightarrow> uploads_loop s = Inr s"
  using cursor_start [of s xs Uploading] by (simp add: uploads_loop_def)

lemma downloads_quiet: "shape s xs \<Longrightarrow> xs Downloading = [] \<Longrightarrow> downloads_loop wfuel s = Inr s"
  using cursor_start [of s xs Downloading] by (simp add: downloads_loop_def)

lemma receiver_work:
  assumes i: "peer_inv s xs" and x: "xs To_send = []" "xs Sent = []" "xs Downloading = [a]" "xs Uploading = []"
  shows "turn_work wfuel s = downloads_loop wfuel (ticked 1 s)"
proof -
  have s: "shape s xs" using i by (simp add: peer_inv_def)
  have i1: "peer_inv (ticked 1 s) xs" "shape (ticked 1 s) xs" using i s by simp_all
  show ?thesis
    using check_timeout_quiet [OF s x(2)] ask_around_quiet [OF i1(1) x(1)] uploads_quiet [OF i1(2) x(4)] x(3)
    by (simp add: turn_work_def)
qed

lemma sender_work:
  assumes i: "peer_inv s xs" and x: "xs Need = []" "xs To_send = []" "xs Sent = []"
    and u: "uploads_loop (ticked 1 s) = Inr s'" "peer_inv s' xs'" "xs' Downloading = []"
  shows "turn_work wfuel s = Inr s'"
proof -
  have s: "shape s xs" "shape s' xs'" using i u(2) by (simp_all add: peer_inv_def)
  have i1: "peer_inv (ticked 1 s) xs" using i by simp
  show ?thesis
    using check_timeout_quiet [OF s(1) x(3)] ask_around_quiet [OF i1 x(2)] u(1) downloads_quiet [OF s(2) u(3)] x(1)
    by (simp add: turn_work_def)
qed

text \<open>All readings of the clock lie within ten seconds.\<close>

definition swift :: "world \<Rightarrow> bool" where
  "swift w \<longleftrightarrow> (\<forall>i j. clock w i - clock w j \<le> 5 * TIMEOUT_SEC)"

lemma swift_frame: "peer_frame s s' \<Longrightarrow> swift (wd s') = swift (wd s)"
  by (auto simp: swift_def peer_frame_def dest: calm_clock)

section \<open>The receiving peer\<close>

text \<open>DATA packet \<open>i\<close> of a chunk, as the receiver decodes it.\<close>

definition data_for :: "byte list \<Rightarrow> int \<Rightarrow> packet \<Rightarrow> bool" where
  "data_for data i p \<longleftrightarrow> Packet_Type p = 3 \<and> Chunkhash_Num p = 0 \<and> sint (Seq_Num p) = i \<and> genuine data p"

text \<open>
  The first \<open>k\<close> packets of the only chunk that is needed have arrived, in order, from the host with
  the given port; for \<open>k = 0\<close> the chunk has been requested.
\<close>

definition download_at :: "byte list \<Rightarrow> int \<Rightarrow> u16 \<Rightarrow> int \<Rightarrow> peer \<Rightarrow> (list_var \<Rightarrow> nat list) \<Rightarrow> hash_chunk \<Rightarrow> bool" where
  "download_at data cid port k s xs n \<longleftrightarrow> peer_inv s xs \<and> length (xs Need) = 1 \<and> xs To_send = [] \<and> xs Uploading = [] \<and>
     sin_port (node_from n) = port \<and> node_hash n = fips_sha1 data \<and> chunkid n = cid \<and>
     (if k = 0 then (\<exists>a. xs Sent = [a] \<and> xs Downloading = [] \<and> info (hp s) a = Some n)
      else (\<exists>a rs. xs Sent = [] \<and> xs Downloading = [a] \<and> info (hp s) a = Some n \<and> node_time n \<in> range (clock (wd s)) \<and>
             Recver n = Some rs \<and> assembling data rs \<and> nothing_ahead rs \<and> NPE rs = k + 1))"

lemma created_receiver:
  assumes "create_Recver h = Inr rs" and "length h = 20"
  shows "assembling data rs" "nothing_ahead rs" "NPE rs = 1"
proof -
  have "20 \<le> length h" using assms(2) by simp
  from create_Recver_inv [OF this] assms(1) have "recv_inv rs" "NPE rs = 1" "recv_bytesnum rs = 0" "recv_buf rs = (\<lambda>_. None)"
    by auto
  then show "assembling data rs" "nothing_ahead rs" "NPE rs = 1" by (simp_all add: assembling_def nothing_ahead_def)
qed

lemma next_data:
  assumes a: "assembling data rs" "nothing_ahead rs" "NPE rs = k + 1" and k: "k < 512" and p: "data_for data (k + 1) p"
  shows "\<exists>rs' w'. upon_receiving_datapack w p rs addr = Inr (rs', w') \<and> assembling data rs' \<and> nothing_ahead rs' \<and>
    NPE rs' = k + 2 \<and> sent w' = sent w @ emitted (router w) addr (wire_bytes (form_ACK_pack (k + 1)))"
proof -
  have i: "recv_inv rs" using a(1) by (simp add: assembling_def)
  have "genuine data p" "sint (Seq_Num p) = NPE rs" "NPE rs \<le> 512" using p a(3) k by (simp_all add: data_for_def)
  from receive_next [OF i a(2) this(3,2), of w addr] assembling_step [OF a(1) this(1), of w addr] a(3) show ?thesis
    by (auto simp: acks_Suc [where k = 0, simplified])
qed

lemma data_step:
  assumes d: "download_at data cid port k s xs n" and k: "0 \<le> k" "k < 512" and p: "data_for data (k + 1) p"
    and src: "sin_port src = port"
  shows "\<exists>s' xs' n'. dealwithincomepack p src s = Inr s' \<and> download_at data cid port (k + 1) s' xs' n' \<and> peer_frame s s' \<and>
    scalars s' = scalars s \<and> xs' Need = xs Need \<and>
    sent (wd s') = sent (wd s) @ emitted (router (wd s)) src (wire_bytes (form_ACK_pack (k + 1)))"
proof -
  have i: "peer_inv s xs" and x: "length (xs Need) = 1" "xs To_send = []" "xs Uploading = []"
    and n: "sin_port (node_from n) = port" "node_hash n = fips_sha1 data" "chunkid n = cid"
    using d by (simp_all add: download_at_def)
  have s: "shape s xs" using i by (simp add: peer_inv_def)
  have pt: "dealwithincomepack p src s = handle_data p src s" "Chunkhash_Num p = 0"
    using p by (simp_all add: data_for_def dealwithincomepack_def)
  obtain r1 where r1: "find_node_by_addr (hp s) (lst s Downloading) src = Inr r1"
    "r1 = None \<longleftrightarrow> sin_port src \<notin> port_of (info (hp s)) ` set (xs Downloading)"
    "\<And>a. r1 = Some a \<Longrightarrow> a \<in> set (xs Downloading) \<and> port_of (info (hp s)) a = sin_port src"
    using find_addr [OF s, where l = Downloading and addr = src] by blast
  let ?w = "(wd s)\<lparr>ticks := Suc (ticks (wd s))\<rparr>"
  show ?thesis
  proof (cases "k = 0")
    case True
    then obtain a where a: "xs Sent = [a]" "xs Downloading = []" "info (hp s) a = Some n" using d by (auto simp: download_at_def)
    obtain r2 where r2: "find_node_by_addr (hp s) (lst s Sent) src = Inr r2"
      "r2 = None \<longleftrightarrow> sin_port src \<notin> port_of (info (hp s)) ` set (xs Sent)"
      "\<And>a. r2 = Some a \<Longrightarrow> a \<in> set (xs Sent) \<and> port_of (info (hp s)) a = sin_port src"
      using find_addr [OF s, where l = Sent and addr = src] by blast
    have "r1 = None" "r2 = Some a" using r1(2) r2(2,3) a n(1) src by (auto simp: port_of_def)
    then have f: "find_node_by_addr (hp s) (lst s Downloading) src = Inr None"
      "find_node_by_addr (hp s) (lst s Sent) src = Inr (Some a)" "a \<in> set (xs Sent)" using r1(1) r2(1) a(1) by auto
    from handle_data_first [OF i pt(2) f] obtain s' n' rs rs' w' t where h:
      "handle_data p src s = Inr s'" "peer_inv s' (xs(Sent := remove1 a (xs Sent), Downloading := a # xs Downloading))"
      "peer_frame s s'" "scalars s' = scalars s" "info (hp s) a = Some n'" "create_Recver (node_hash n') = Inr rs"
      "upon_receiving_datapack ?w p rs src = Inr (rs', w')" "wd s' = w'" "t \<in> range (clock (wd s))"
      "info (hp s') = (info (hp s))(a \<mapsto> n'\<lparr>node_time := t, Recver := Some rs'\<rparr>)" by blast
    have nn: "n' = n" using h(5) a(3) by simp
    have cr: "create_Recver (fips_sha1 data) = Inr rs" "length (fips_sha1 data) = 20" using h(6) nn n(2) by simp_all
    have "NPE rs = k + 1" using created_receiver(3) [OF cr] True by simp
    from next_data [OF created_receiver(1,2) [OF cr] this k(2) p, of ?w src] h(7) have rs:
      "assembling data rs'" "nothing_ahead rs'" "NPE rs' = k + 2"
      "sent w' = sent (wd s) @ emitted (router (wd s)) src (wire_bytes (form_ACK_pack (k + 1)))" by auto
    let ?xs = "xs(Sent := remove1 a (xs Sent), Downloading := a # xs Downloading)"
    have "clock (wd s') = clock (wd s)" using h(3) by (simp add: peer_frame_def calm_clock)
    then have "download_at data cid port (k + 1) s' ?xs (n\<lparr>node_time := t, Recver := Some rs'\<rparr>)"
      using h(2,9,10) rs(1-3) x n a True nn by (simp add: download_at_def)
    with h pt(1) rs(4) show ?thesis
      by (intro exI [of _ s'] exI [of _ ?xs] exI [of _ "n\<lparr>node_time := t, Recver := Some rs'\<rparr>"]) simp
  next
    case False
    then obtain a rs where a: "xs Sent = []" "xs Downloading = [a]" "info (hp s) a = Some n" "Recver n = Some rs"
      "assembling data rs" "nothing_ahead rs" "NPE rs = k + 1" using d by (auto simp: download_at_def)
    have "r1 = Some a" using r1(2,3) a n(1) src by (cases r1) (auto simp: port_of_def)
    then have f: "find_node_by_addr (hp s) (lst s Downloading) src = Inr (Some a)" "a \<in> set (xs Downloading)"
      using r1(1) a(2) by auto
    from handle_data_running [OF i f, of p] obtain s' n' rs0 rs' w' t where h:
      "handle_data p src s = Inr s'" "peer_inv s' xs" "peer_frame s s'" "scalars s' = scalars s" "info (hp s) a = Some n'"
      "Recver n' = Some rs0" "upon_receiving_datapack ?w p rs0 src = Inr (rs', w')" "wd s' = w'" "t \<in> range (clock (wd s))"
      "info (hp s') = (info (hp s))(a \<mapsto> n'\<lparr>node_time := t, Recver := Some rs'\<rparr>)" by blast
    have nn: "n' = n" "rs0 = rs" using h(5,6) a(3,4) by auto
    from next_data [OF a(5-7) k(2) p, of ?w src] h(7) nn(2) have rs:
      "assembling data rs'" "nothing_ahead rs'" "NPE rs' = k + 2"
      "sent w' = sent (wd s) @ emitted (router (wd s)) src (wire_bytes (form_ACK_pack (k + 1)))" by auto
    have "clock (wd s') = clock (wd s)" using h(3) by (simp add: peer_frame_def calm_clock)
    then have "download_at data cid port (k + 1) s' xs (n\<lparr>node_time := t, Recver := Some rs'\<rparr>)"
      using h(2,9,10) rs(1-3) x n a k(1) nn(1) by (simp add: download_at_def)
    with h pt(1) rs(4) show ?thesis
      by (intro exI [of _ s'] exI [of _ xs] exI [of _ "n\<lparr>node_time := t, Recver := Some rs'\<rparr>"]) simp
  qed
qed

lemma scalars_ticked [simp]: "scalars (ticked m s) = scalars s"
  by (simp add: scalars_def)

lemma sent_ticked [simp]: "sent (wd (ticked m s)) = sent (wd s)" "router (wd (ticked m s)) = router (wd s)"
  by (simp_all add: ticked_def)

lemma download_at_ticked [simp]: "download_at data cid port k (ticked m s) xs n = download_at data cid port k s xs n"
  by (simp add: download_at_def)

text \<open>A turn with the next packet, when it is not the last one.\<close>

lemma data_turn:
  assumes d: "download_at data cid port k s xs n" and k: "0 \<le> k" "k < 511" and p: "data_for data (k + 1) p"
    and src: "sin_port src = port" and sw: "swift (wd s)"
  shows "\<exists>s1 s' xs' n'. dealwithincomepack p src s = Inr s1 \<and> turn_work wfuel s1 = Inr s' \<and>
    download_at data cid port (k + 1) s' xs' n' \<and> peer_frame s s' \<and> scalars s' = scalars s \<and> xs' Need = xs Need \<and>
    sent (wd s') = sent (wd s) @ emitted (router (wd s)) src (wire_bytes (form_ACK_pack (k + 1)))"
proof -
  have "k < 512" using k(2) by simp
  from data_step [OF d k(1) this p src] obtain s1 xs' n' where s1: "dealwithincomepack p src s = Inr s1"
    "download_at data cid port (k + 1) s1 xs' n'" "peer_frame s s1" "scalars s1 = scalars s" "xs' Need = xs Need"
    "sent (wd s1) = sent (wd s) @ emitted (router (wd s)) src (wire_bytes (form_ACK_pack (k + 1)))" by blast
  obtain a rs where a: "peer_inv s1 xs'" "xs' To_send = []" "xs' Sent = []" "xs' Downloading = [a]" "xs' Uploading = []"
    "info (hp s1) a = Some n'" "node_time n' \<in> range (clock (wd s1))" "Recver n' = Some rs" "assembling data rs" "NPE rs = k + 2"
    using s1(2) k(1) by (auto simp: download_at_def)
  have "recv_bytesnum rs \<noteq> CHUNK_SIZE" using a(9,10) k(2) by (simp add: assembling_def CHUNK_SIZE_def)
  moreover have "\<not> download_expired (info (hp s1)) (clock (wd s1) j) a" for j
    using a(6,7) sw swift_frame [OF s1(3)] by (auto simp: download_expired_def swift_def not_less)
  ultimately have "waiting (ticked 1 s1) [a]" using a(6,8) by (simp add: waiting_def chunk_complete_def)
  with downloads_loop_walk [of "ticked 1 s1" xs' "[a]" "[]" wfuel] a(1,4) have
    "downloads_loop wfuel (ticked 1 s1) = Inr (ticked 2 s1)" by (auto simp: numeral_2_eq_2)
  then have "turn_work wfuel s1 = Inr (ticked 2 s1)" using receiver_work [OF a(1-5)] by simp
  with s1 peer_frame_ticked [OF s1(3)] show ?thesis
    by (intro exI [of _ s1] exI [of _ "ticked 2 s1"] exI [of _ xs'] exI [of _ n']) simp
qed

text \<open>The turn with the last packet writes the chunk and completes the download.\<close>

lemma last_data_turn:
  assumes d: "download_at data cid port 511 s xs n" and p: "data_for data 512 p" and src: "sin_port src = port"
    and l: "length data = 524288" and w: "progressing_writes (wd s)"
    and fd: "open_fds (wd s) (output_fd (mydownload (me s))) = Some (name, pos)"
  shows "\<exists>s1 s'. dealwithincomepack p src s = Inr s1 \<and> turn_work 524288 s1 = Inr s' \<and>
    (\<exists>xs'. peer_inv s' xs' \<and> xs' Need = [] \<and> xs' To_send = [] \<and> xs' Sent = [] \<and> xs' Downloading = []) \<and>
    content (wd s') name = overwrite (content (wd s) name) (nat (cid * CHUNK_SIZE)) data \<and>
    open_fds (wd s') (output_fd (mydownload (me s))) = None \<and> config s' = config s \<and> router (wd s') = router (wd s) \<and>
    sent (wd s') = sent (wd s) @ emitted (router (wd s)) src (wire_bytes (form_ACK_pack 512))"
proof -
  from data_step [OF d _ _ _ src, of p] p obtain s1 xs' n' where s1: "dealwithincomepack p src s = Inr s1"
    "download_at data cid port 512 s1 xs' n'" "peer_frame s s1" "scalars s1 = scalars s" "xs' Need = xs Need"
    "sent (wd s1) = sent (wd s) @ emitted (router (wd s)) src (wire_bytes (form_ACK_pack 512))" by auto
  obtain a rs where a: "peer_inv s1 xs'" "xs' To_send = []" "xs' Sent = []" "xs' Downloading = [a]" "xs' Uploading = []"
    "info (hp s1) a = Some n'" "Recver n' = Some rs" "assembling data rs" "NPE rs = 513"
    "length (xs' Need) = 1" "node_hash n' = fips_sha1 data" "chunkid n' = cid"
    using s1(2) by (auto simp: download_at_def)
  have i: "peer_inv (ticked 1 s1) xs'" "a \<in> set (xs' Downloading)" "info (hp (ticked 1 s1)) a = Some n'" using a by simp_all
  have full: "recv_bytesnum rs = CHUNK_SIZE" using a(8,9) by (simp add: assembling_def CHUNK_SIZE_def)
  have frame: "open_fds (wd s1) = open_fds (wd s)" "write_result (wd s1) = write_result (wd s)" "content (wd s1) = content (wd s)"
    using s1(3) by (auto simp: peer_frame_def calm_def content_def)
  have fd1: "output_fd (mydownload (me s1)) = output_fd (mydownload (me s))" using scalarsD(3) [OF s1(4)] .
  have w1: "progressing_writes (wd (ticked 1 s1))" using w frame(2) by (simp add: progressing_writes_def ticked_def)
  have o1: "open_fds (wd (ticked 1 s1)) (output_fd (mydownload (me (ticked 1 s1)))) = Some (name, pos)"
    using fd frame(1) fd1 by (simp add: ticked_def)
  have c1: "content (wd (ticked 1 s1)) = content (wd s)" using frame(3) by (simp add: ticked_def content_def fun_eq_iff)
  from last_chunk_result [OF i(1) a(10) i(2,3) a(7) full a(8) l w1 o1] obtain s' where s':
    "downloads_loop 524288 (ticked 1 s1) = Inr s'" "peer_inv s' (xs'(Need := [], To_send := [], Sent := [], Downloading := []))"
    "content (wd s') name = overwrite (content (wd s) name) (nat (cid * CHUNK_SIZE)) data"
    "open_fds (wd s') (output_fd (mydownload (me s))) = None" "sent (wd s') = sent (wd s1)" "config s' = config s1"
    "router (wd s') = router (wd s1)"
    unfolding c1 using a(11,12) fd1 by auto
  have "turn_work 524288 s1 = Inr s'" using receiver_work [OF a(1-5)] s'(1) by simp
  moreover have "config s' = config s" "router (wd s') = router (wd s)" using s'(6,7) s1(3) by (simp_all add: peer_frame_def calm_def)
  ultimately show ?thesis using s1(1,6) s'(2-5)
    by (intro exI [of _ s1] exI [of _ s'] conjI exI [of _ "xs'(Need := [], To_send := [], Sent := [], Downloading := [])"]) simp_all
qed

section \<open>The sending peer\<close>

text \<open>What the operations on a window leave of it.\<close>

lemma slot_derefD: "slot_deref b i = Inr p \<Longrightarrow> b i = Some p"
  by (auto simp: slot_deref_def slot_get_def res_simps split: option.splits)

lemma slot_setD: "slot_set b i x = Inr b' \<Longrightarrow> b' = b(i := x)"
  by (auto simp: slot_set_def res_simps)

lemma slow_start_keeps:
  assumes "slow_start W = Inr W'"
  shows "slot_bytes W' = slot_bytes W" "dst W' = dst W" "LPS W' = LPA W"
proof -
  obtain p b where p: "slot_deref (sender_buf W) (LPA W) = Inr p" "slot_set (sender_buf W) (LPA W) (Some (p\<lparr>ACKed_num := 1\<rparr>)) = Inr b"
    "W' = recount (W\<lparr>ssthresh := halved_threshold W, congwin_size := 1, LPS := LPA W, sender_buf := b\<rparr>)"
    using assms by (auto simp: slow_start_def Let_def ebind_eq_Inr)
  then have "sender_buf W (LPA W) = Some p" "b = (sender_buf W)(LPA W := Some (p\<lparr>ACKed_num := 1\<rparr>))"
    by (auto dest: slot_derefD slot_setD)
  then show "slot_bytes W' = slot_bytes W" "dst W' = dst W" "LPS W' = LPA W"
    by (auto simp: p(3) slot_bytes_def wire_bytes_def wire_header_def body_def fun_eq_iff)
qed

lemma check_datapack_timeout_keeps:
  assumes "check_datapack_timeout w W = Inr (r, W', w')" and "win_inv W" "LPA W + 1 < LPR W"
  shows "slot_bytes W' = slot_bytes W" "dst W' = dst W" "LPS W' \<le> LPS W" "LPA W' = LPA W" "LPR W' = LPR W" "sent w' = sent w"
    "win_inv W'"
proof -
  have "W' = W \<or> slow_start W = Inr W'"
    using assms(1) by (auto simp: check_datapack_timeout_def Let_def ebind_eq_Inr split: prod.splits if_splits)
  with slow_start_keeps [of W W'] show "slot_bytes W' = slot_bytes W" "dst W' = dst W" by auto
  from check_datapack_timeout_inv [OF assms(2,3), of w] assms(1)
  show "LPA W' = LPA W" "LPR W' = LPR W" "sent w' = sent w" "win_inv W'" "LPS W' \<le> LPS W" by auto
qed

lemma upon_receive_ACK_keeps:
  assumes "win_inv W" and "ack_ok W p" and "upon_receive_ACK p W = Inr (r, W')"
  shows "slot_bytes W' = slot_bytes W" "dst W' = dst W" "LPS W' \<le> max (LPS W) (uint (ACK_Num p))"
proof -
  define c where "c = ACK_Num p"
  have "slot_bytes W' = slot_bytes W \<and> dst W' = dst W \<and> LPS W' \<le> max (LPS W) (uint c)"
  proof (cases "c < 1")
    case True
    with assms(3) show ?thesis by (simp add: upon_receive_ACK_def Let_def c_def)
  next
    case False
    have b: "win_base W" using assms(1) by (simp add: win_inv_def)
    note bb = win_base_bounds [OF b]
    have lt: "uint c < 514" using assms(2) bb by (simp add: ack_ok_def c_def)
    obtain q sb where q: "slot_deref (sender_buf W) (uint c) = Inr q"
      "slot_set (sender_buf W) (uint c) (Some (q\<lparr>ACKed_num := ACKed_num q + 1\<rparr>)) = Inr sb"
      using assms(3) False by (auto simp: upon_receive_ACK_def Let_def ebind_eq_Inr c_def [symmetric])
    let ?W = "W\<lparr>sender_buf := sb\<rparr>"
    have "sender_buf W (uint c) = Some q" "sb = (sender_buf W)(uint c := Some (q\<lparr>ACKed_num := ACKed_num q + 1\<rparr>))"
      using q by (auto dest: slot_derefD slot_setD)
    then have V: "slot_bytes ?W = slot_bytes W" using slot_bytes_ACKed by simp
    have s: "sint c = uint c" using ack_numbers(1) [OF lt, of 0] by simp
    consider l g where "W' = recount (?W\<lparr>LPA := l, LPS := uint c, congwin_size := g\<rparr>)"
      | l g where "W' = recount (?W\<lparr>LPA := l, congwin_size := g\<rparr>)"
      | W1 where "slow_start ?W = Inr W1" "W' = recount W1" | "W' = recount ?W" | "W' = ?W"
      using assms(3) False q s by (auto simp: upon_receive_ACK_def Let_def ebind_eq_Inr c_def [symmetric] split: if_splits)
    then show ?thesis
    proof cases
      case 3
      with slow_start_keeps [OF 3(1)] V bb show ?thesis by (simp add: slot_bytes_cong [of "recount W1" W1])
    qed (use V in \<open>auto simp: slot_bytes_def fun_eq_iff\<close>)
  qed
  then show "slot_bytes W' = slot_bytes W" "dst W' = dst W" "LPS W' \<le> max (LPS W) (uint (ACK_Num p))" by (simp_all add: c_def)
qed

lemma sends_window_result:
  assumes i: "win_inv W" and r: "sends_window w W = Inr (r, W1, w1)"
  shows "\<exists>j. LPS W1 = LPS W + int j \<and> sent w1 = sent w @ burst (router w) W (LPS W) j \<and> same_but_sent W W1 \<and>
    (LPA W < LPR W - 1 \<longrightarrow> LPA W < LPS W1)"
proof (cases "LPS W < LPR W - 1")
  case False
  then have "W1 = W" "w1 = w" using r by (simp_all add: sends_window_def)
  with False show ?thesis by (intro exI [of _ 0]) (auto simp: burst_def same_but_sent_def)
next
  case True
  let ?k = "min (nat (sendable W)) (nat (LPR W - 1 - LPS W))"
  from window_sender_sends [OF i, of w] r True have s: "same_but_sent W W1" "LPS W1 = LPS W + int ?k"
    "sent w1 = sent w @ burst (router w) W (LPS W) ?k" by (auto simp: sends_window_def)
  have b: "LPA W \<le> LPS W" using i by (simp add: win_inv_def win_base_def)
  have "LPA W < LPS W1"
  proof (cases "LPS W = LPA W")
    case e: True
    then have "0 < sendable W" using i True by (auto simp: win_inv_def)
    then have "0 < int ?k" using True by simp
    with s(2) e show ?thesis by linarith
  qed (use s(2) b in linarith)
  with s show ?thesis by blast
qed

text \<open>
  The only upload is at work: of the packets \<open>B 1\<close> to \<open>B 512\<close> the first \<open>k\<close> are acknowledged and at
  least the first \<open>hi\<close> have been sent to the host \<open>to\<close>.
\<close>

definition upload_at ::
  "(int \<Rightarrow> byte list) \<Rightarrow> sockaddr_in \<Rightarrow> int \<Rightarrow> int \<Rightarrow> peer \<Rightarrow> (list_var \<Rightarrow> nat list) \<Rightarrow> nat \<Rightarrow> bool" where
  "upload_at B to k hi s xs a \<longleftrightarrow> peer_inv s xs \<and> xs Need = [] \<and> xs To_send = [] \<and> xs Sent = [] \<and> xs Downloading = [] \<and>
     xs Uploading = [a] \<and> hi \<le> 512 \<and> (\<forall>i. 1 \<le> i \<and> i \<le> hi \<longrightarrow> (to, B i) \<in> set (sent (wd s))) \<and>
     (\<exists>n W. info (hp s) a = Some n \<and> congWin n = Some W \<and> sin_port (node_from n) = sin_port to \<and>
        node_time n \<in> range (clock (wd s)) \<and> win_inv W \<and> LPR W = 513 \<and> LPA W = k \<and> LPS W \<le> hi \<and> dst W = to \<and>
        slot_bytes W = B)"

lemma upload_at_ticked [simp]: "upload_at B to k hi (ticked m s) xs a = upload_at B to k hi s xs a"
  by (simp add: upload_at_def)

lemma burst_plain:
  assumes "\<not> giSpiffyEnabled g"
  shows "set (burst g W i n) = {(dst W, slot_bytes W j) | j. i < j \<and> j \<le> i + int n}"
proof -
  have b: "set (burst g W i n) = (\<lambda>k. (dst W, slot_bytes W (i + 1 + int k))) ` {0..<n}"
    using assms by (simp add: burst_def emitted_def)
  have "(dst W, slot_bytes W j) \<in> set (burst g W i n)" if "i < j" "j \<le> i + int n" for j
    unfolding b using that by (intro image_eqI [of _ _ "nat (j - i - 1)"]) auto
  then show ?thesis unfolding b by auto
qed

text \<open>A pass over the uploads sends at least the packet after the last one acknowledged.\<close>

lemma upload_pass:
  assumes u: "upload_at B to k hi s xs a" and k: "k < 512" and sw: "swift (wd s)" and g: "\<not> giSpiffyEnabled (router (wd s))"
  shows "\<exists>s' hi'. uploads_loop s = Inr s' \<and> upload_at B to k hi' s' xs a \<and> k < hi' \<and> peer_frame s s'"
proof -
  obtain n W where i: "peer_inv s xs" "xs Uploading = [] @ a # []" and hi: "hi \<le> 512"
    and snt: "\<And>i. 1 \<le> i \<Longrightarrow> i \<le> hi \<Longrightarrow> (to, B i) \<in> set (sent (wd s))"
    and n: "info (hp s) a = Some n" "congWin n = Some W" "sin_port (node_from n) = sin_port to"
      "node_time n \<in> range (clock (wd s))"
    and W: "win_inv W" "LPR W = 513" "LPA W = k" "LPS W \<le> hi" "dst W = to" "slot_bytes W = B"
    using u by (auto simp: upload_at_def)
  have s: "shape s xs" using i(1) by (simp add: peer_inv_def)
  have nd: "\<not> upload_done (info (hp s)) a" using n(1,2) W(2,3) k by (simp add: upload_done_def)
  have ex: "\<not> upload_expired (info (hp s)) (clock (wd s) j) a" for j
  proof -
    obtain m where "node_time n = clock (wd s) m" using n(4) by auto
    moreover have "clock (wd s) j - clock (wd s) m \<le> 5 * TIMEOUT_SEC" using sw by (simp add: swift_def)
    ultimately show ?thesis using n(1) by (simp add: upload_expired_def TIMEOUT_SEC_def)
  qed
  from upload_turn_busy [OF i nd, of "fresh (hp s)"] ex obtain s' where s':
    "upload_loop (Suc (fresh (hp s))) (Some a) s = upload_loop (fresh (hp s)) (first_of []) s'" "peer_inv s' xs" "peer_frame s s'"
    "upload_moves a s s'" by metis
  have run: "uploads_loop s = Inr s'" using s'(1) cursor_start [OF s, of Uploading] i(2) by (simp add: uploads_loop_def)
  from s'(4) n(1,2) obtain W1 W2 w1 w2 r r' where m: "sends_window (wd s) W = Inr (r, W1, w1)" "win_inv W1"
    "check_datapack_timeout w1 W1 = Inr (r', W2, w2)" "info (hp s') = (info (hp s))(a \<mapsto> n\<lparr>congWin := Some W2\<rparr>)"
    "sent (wd s') = sent w2" by (auto simp: upload_moves_def)
  from sends_window_result [OF W(1) m(1)] obtain j where j: "LPS W1 = LPS W + int j"
    "sent w1 = sent (wd s) @ burst (router (wd s)) W (LPS W) j" "same_but_sent W W1" "k < LPS W1" using W(2,3) k by auto
  have W1: "LPA W1 = k" "LPR W1 = 513" "dst W1 = to" "slot_bytes W1 = B" using j(3) W by (simp_all add: same_but_sent_def)
  have "LPA W1 + 1 < LPR W1" using W1(1,2) k by simp
  note W2 = check_datapack_timeout_keeps [OF m(3,2) this]
  let ?hi = "max hi (LPS W1)"
  have "LPS W1 \<le> 512" using m(2) W1(2) by (simp add: win_inv_def win_base_def)
  moreover have "(to, B i) \<in> set (sent (wd s'))" if i: "1 \<le> i" "i \<le> ?hi" for i
  proof (cases "i \<le> hi")
    case True
    then show ?thesis using snt [OF i(1)] m(5) W2(6) j(2) by simp
  next
    case False
    then have "LPS W < i \<and> i \<le> LPS W + int j" using i W(4) j(1) by auto
    then have "(to, B i) \<in> set (burst (router (wd s)) W (LPS W) j)" using W(5,6) by (auto simp: burst_plain [OF g])
    then show ?thesis using m(5) W2(6) j(2) by simp
  qed
  moreover have "clock (wd s') = clock (wd s)" using s'(3) by (simp add: peer_frame_def calm_clock)
  ultimately have "upload_at B to k ?hi s' xs a"
    using u s'(2) hi m(4) n(3,4) W1 W2 by (auto simp: upload_at_def)
  with run s'(3) j(4) show ?thesis by (intro exI [of _ s'] exI [of _ ?hi]) simp
qed

text \<open>A turn with the next acknowledgement, when it is not the last one.\<close>

lemma ack_received:
  assumes u: "upload_at B to k hi s xs a" and k: "0 \<le> k" "k < hi" and src: "sin_port src = sin_port to"
  shows "\<exists>s'. dealwithincomepack (form_ACK_pack (k + 1)) src s = Inr s' \<and> upload_at B to (k + 1) hi s' xs a \<and> peer_frame s s'"
proof -
  let ?p = "form_ACK_pack (k + 1)"
  obtain n W where i: "peer_inv s xs" "xs Uploading = [a]" and hi: "hi \<le> 512"
    and n: "info (hp s) a = Some n" "congWin n = Some W" "sin_port (node_from n) = sin_port to"
    and W: "win_inv W" "LPR W = 513" "LPA W = k" "LPS W \<le> hi" "dst W = to" "slot_bytes W = B"
    using u by (auto simp: upload_at_def)
  have s: "shape s xs" using i(1) by (simp add: peer_inv_def)
  obtain r where r: "find_node_by_addr (hp s) (lst s Uploading) src = Inr r"
    "r = None \<longleftrightarrow> sin_port src \<notin> port_of (info (hp s)) ` set (xs Uploading)"
    "\<And>b. r = Some b \<Longrightarrow> b \<in> set (xs Uploading) \<and> port_of (info (hp s)) b = sin_port src"
    using find_addr [OF s, where l = Uploading and addr = src] by blast
  have "r = Some a" using r(2,3) i(2) n(1,3) src by (cases r) (auto simp: port_of_def)
  then have f: "find_node_by_addr (hp s) (lst s Uploading) src = Inr (Some a)" "a \<in> set (xs Uploading)" using r(1) i(2) by auto
  have "uint (word_of_int (k + 1) :: u32) = k + 1" using k hi by (subst uint_word_of_int) simp
  then have num: "uint (ACK_Num ?p) = k + 1" by (simp add: form_ACK_pack_def del: of_int_add)
  have ok: "ack_ok W ?p" using num W(2) k hi by (simp add: ack_ok_def)
  from handle_ack_running [OF i(1) f n(1,2) ok] obtain s' t x V where s': "handle_ack ?p src s = Inr s'" "peer_inv s' xs"
    "peer_frame s s'" "upon_receive_ACK ?p W = Inr (x, V)" "wd s' = (wd s)\<lparr>ticks := Suc (ticks (wd s))\<rparr>"
    "t \<in> range (clock (wd s))" "info (hp s') = (info (hp s))(a \<mapsto> n\<lparr>node_time := t, congWin := Some V\<rparr>)" by blast
  from upon_receive_ACK_inv [OF W(1) ok] s'(4) num W(3) have V: "win_inv V" "LPR V = LPR W" "LPA V = k + 1" by auto
  from upon_receive_ACK_keeps [OF W(1) ok s'(4)] num W(4) k(2) have K: "slot_bytes V = slot_bytes W" "dst V = dst W" "LPS V \<le> hi"
    by auto
  have "upload_at B to (k + 1) hi s' xs a" using u s'(2,5,6,7) n(3) V K W(2,5,6) by (auto simp: upload_at_def)
  moreover have "Packet_Type ?p = 4" by (simp add: form_ACK_pack_def)
  then have "dealwithincomepack ?p src s = Inr s'" using s'(1) by (simp add: dealwithincomepack_def)
  ultimately show ?thesis using s'(3) by blast
qed

lemma ack_turn:
  assumes u: "upload_at B to k hi s xs a" and k: "0 \<le> k" "k < hi" "k < 511" and src: "sin_port src = sin_port to"
    and sw: "swift (wd s)" and g: "\<not> giSpiffyEnabled (router (wd s))"
  shows "\<exists>s1 s' hi'. dealwithincomepack (form_ACK_pack (k + 1)) src s = Inr s1 \<and> turn_work wfuel s1 = Inr s' \<and>
    upload_at B to (k + 1) hi' s' xs a \<and> k + 1 < hi' \<and> peer_frame s s'"
proof -
  from ack_received [OF u k(1,2) src] obtain s1 where s1: "dealwithincomepack (form_ACK_pack (k + 1)) src s = Inr s1"
    "upload_at B to (k + 1) hi s1 xs a" "peer_frame s s1" by blast
  have g1: "\<not> giSpiffyEnabled (router (wd (ticked 1 s1)))" "swift (wd (ticked 1 s1))"
    using g sw s1(3) by (auto simp: peer_frame_def calm_def swift_def)
  have "upload_at B to (k + 1) hi (ticked 1 s1) xs a" "k + 1 < 512" using s1(2) k(3) by simp_all
  from upload_pass [OF this g1(2,1)] obtain s' hi' where s': "uploads_loop (ticked 1 s1) = Inr s'"
    "upload_at B to (k + 1) hi' s' xs a" "k + 1 < hi'" "peer_frame (ticked 1 s1) s'" by blast
  have x: "peer_inv s1 xs" "xs Need = []" "xs To_send = []" "xs Sent = []" "peer_inv s' xs" "xs Downloading = []"
    using s1(2) s'(2) by (auto simp: upload_at_def)
  have "turn_work wfuel s1 = Inr s'" by (rule sender_work [OF x(1-4) s'(1) x(5,6)])
  moreover have "peer_frame s s'" using peer_frame_trans [OF peer_frame_ticked [OF s1(3)] s'(4)] .
  ultimately show ?thesis using s1(1) s'(2,3) by blast
qed

text \<open>The last acknowledgement ends the upload.\<close>

lemma last_ack_turn:
  assumes u: "upload_at B to 511 hi s xs a" and hi: "511 < hi" and src: "sin_port src = sin_port to"
  shows "\<exists>s1 s'. dealwithincomepack (form_ACK_pack 512) src s = Inr s1 \<and> turn_work wfuel s1 = Inr s' \<and>
    peer_inv s' (xs(Uploading := [], Uploaded := a # xs Uploaded)) \<and> peer_frame s s'"
proof -
  from ack_received [OF u _ hi src] obtain s1 where s1: "dealwithincomepack (form_ACK_pack 512) src s = Inr s1"
    "upload_at B to 512 hi s1 xs a" "peer_frame s s1" by auto
  let ?s = "ticked 1 s1"
  have i: "peer_inv ?s xs" "xs Uploading = [] @ a # []" "xs Need = []" "xs To_send = []" "xs Sent = []" "xs Downloading = []"
    and d: "upload_done (info (hp ?s)) a"
    using s1(2) by (auto simp: upload_at_def upload_done_def)
  from upload_turn_done [OF i(1,2) d, of "fresh (hp ?s)"] obtain s' where s':
    "upload_loop (Suc (fresh (hp ?s))) (Some a) ?s = upload_loop (fresh (hp ?s)) (first_of []) s'"
    "peer_inv s' (xs(Uploading := [] @ [], Uploaded := a # xs Uploaded))" "peer_frame ?s s'" by blast
  have s: "shape ?s xs" using i(1) by (simp add: peer_inv_def)
  have "uploads_loop ?s = Inr s'" using s'(1) cursor_start [OF s, of Uploading] i(2) by (simp add: uploads_loop_def)
  from sender_work [OF _ i(3-5) this s'(2)] i have "turn_work wfuel s1 = Inr s'" by simp
  moreover have "peer_frame s s'" using peer_frame_trans [OF peer_frame_ticked [OF s1(3)] s'(3)] .
  ultimately show ?thesis using s1(1) s'(2) by auto
qed

section \<open>The start of an upload\<close>

text \<open>The bytes \<open>B i\<close> are those of DATA packet \<open>i\<close> of the chunk.\<close>

definition carrying :: "byte list \<Rightarrow> (int \<Rightarrow> byte list) \<Rightarrow> bool" where
  "carrying data B \<longleftrightarrow> (\<forall>i. 1 \<le> i \<and> i \<le> 512 \<longrightarrow>
     (\<exists>q. B i = wire_bytes q \<and> wf_packet q \<and> length (wire_bytes q) \<le> BUFLEN2 \<and> data_for data i (as_received q)))"

lemma filled_carrying:
  assumes f: "filled data SW 512 W" and l: "length data = 524288"
  shows "carrying data (slot_bytes W)"
  unfolding carrying_def
proof (intro allI impI)
  fix i :: int assume i: "1 \<le> i \<and> i \<le> 512"
  then obtain q where q: "sender_buf W i = Some q" "data_packet i q" "payload q = Some (fragment data i)"
    using f by (auto simp: filled_def carries_def)
  have wf: "wf_packet q" "Packet_Type q = 3" "Hd_len q = 16" "Seq_Num q = of_int i" using q(2) by (simp_all add: data_packet_def)
  have b: "length (body q) = 1024" using q(3) i length_fragment [OF l, of i] by (simp add: body_def)
  have "Chunkhash_Num q = 0" using wf(1,2) by (simp add: wf_packet_def)
  moreover have "sint (Seq_Num q) = i" using i wf(4) by (simp add: signed_of_int signed_take_bit_int_eq_self)
  moreover have "data_bytes q = 1024" using wf b by (simp add: data_bytes_def wf_packet_def overhead_def)
  ultimately have "data_for data i (as_received q)"
    using wf(2) q(3) by (simp add: data_for_def as_received_def genuine_def genuine_at_def data_bytes_def)
  moreover have "length (wire_bytes q) \<le> BUFLEN2" using b wf(2) by (simp add: wire_bytes_def BUFLEN2_def)
  moreover have "slot_bytes W i = wire_bytes q" using q(1) by (simp add: slot_bytes_def)
  ultimately show "\<exists>q. slot_bytes W i = wire_bytes q \<and> wf_packet q \<and> length (wire_bytes q) \<le> BUFLEN2 \<and> data_for data i (as_received q)"
    using wf(1) by auto
qed

text \<open>
  The peer has nothing to do; it can serve every chunk that it has from the data file, and the
  chunk list says the truth about it.
\<close>

definition can_serve :: "peer \<Rightarrow> (list_var \<Rightarrow> nat list) \<Rightarrow> byte list \<Rightarrow> bool" where
  "can_serve s xs datafile \<longleftrightarrow> peer_inv s xs \<and> (\<forall>l. l \<noteq> Has \<longrightarrow> xs l = []) \<and>
     concurr_upload_num (myupload (me s)) < max_upload_num (myupload (me s)) \<and>
     (\<exists>master name. files (wd s) (chunk_file (config s)) = Some master \<and> read_master_line master = Inr name \<and>
        files (wd s) name = Some datafile) \<and>
     (\<forall>a\<in>set (xs Has). \<forall>c. info (hp s) a = Some c \<longrightarrow> node_hash c = fips_sha1 (chunk_image datafile (chunkid c)))"

lemma get_turn:
  assumes c: "can_serve s xs datafile" and p: "Packet_Type p = 2" "payload p = Some hash" "length hash = 20"
    and h: "hash \<in> hash_of (info (hp s)) ` set (xs Has)" and sw: "swift (wd s)" and g: "\<not> giSpiffyEnabled (router (wd s))"
  shows "\<exists>s1 s' xs' B hi a data. dealwithincomepack p to s = Inr s1 \<and> turn_work wfuel s1 = Inr s' \<and>
    upload_at B to 0 hi s' xs' a \<and> 0 < hi \<and> carrying data B \<and> length data = 524288 \<and> fips_sha1 data = hash \<and> peer_frame s s'"
proof -
  obtain master name where i: "peer_inv s xs" and x: "\<And>l. l \<noteq> Has \<Longrightarrow> xs l = []"
    and room: "concurr_upload_num (myupload (me s)) < max_upload_num (myupload (me s))"
    and f: "files (wd s) (chunk_file (config s)) = Some master" "read_master_line master = Inr name" "files (wd s) name = Some datafile"
    and tr: "\<And>a c. a \<in> set (xs Has) \<Longrightarrow> info (hp s) a = Some c \<Longrightarrow> node_hash c = fips_sha1 (chunk_image datafile (chunkid c))"
    using c by (auto simp: can_serve_def)
  have s: "shape s xs" using i by (simp add: peer_inv_def)
  have src: "upload_source s" using f by (simp add: upload_source_def)
  have rd: "payload_read p 0 (int HASH_SIZE) = Inr hash"
    using p(2,3) by (simp add: payload_read_def mem_read_def HASH_SIZE_def)
  have none: "find_node_by_addr (hp s) (lst s l) to = Inr None" if "l \<noteq> Has" for l
    using find_addr [OF s, where l = l and addr = to] x [OF that] by (metis image_is_empty empty_iff list.set(1))
  have "sin_port to \<notin> port_of (info (hp s)) ` set (xs Uploading)" using x [of Uploading] by simp
  from init_upload_inv [OF i src room this rd p(3)] obtain r s1 xs1 where v: "init_upload p to s = Inr (r, s1)"
    "peer_inv s1 xs1" "peer_frame s s1" and w: "r = 1 \<and> (\<exists>a n W. xs1 = xs(Uploading := a # xs Uploading) \<and> info (hp s1) a = Some n \<and>
      node_from n = to \<and> node_hash n = hash \<and> congWin n = Some W \<and> win_inv W \<and> dst W = to \<and>
      node_time n \<in> range (clock (wd s)) \<and> sent (wd s1) = sent (wd s) \<and>
      (\<exists>h\<in>set (xs Has). \<exists>c. info (hp s) h = Some c \<and> node_hash c = hash \<and> loaded s (chunkid c) W))"
    unfolding if_P [OF h] by blast
  from w obtain a n W c where u: "xs1 = xs(Uploading := a # xs Uploading)" "info (hp s1) a = Some n"
    "node_from n = to" "node_hash n = hash" "congWin n = Some W" "win_inv W" "dst W = to"
    "node_time n \<in> range (clock (wd s))" "node_hash c = hash" "loaded s (chunkid c) W" "\<exists>h\<in>set (xs Has). info (hp s) h = Some c"
    by blast
  let ?data = "chunk_image datafile (chunkid c)" and ?xs = "xs(Uploading := a # xs Uploading)"
  obtain W0 where W: "filled ?data W0 512 W" "LPA W = 0" "LPS W = 0" using u(10) f by (auto simp: loaded_def)
  have dig: "fips_sha1 ?data = hash" using u(9,11) tr by auto
  have lpr: "LPR W = 513" using W(1) by (auto simp: filled_def)
  have "handle_get p to s = Inr s1"
    using room none [of Uploading] none [of Uploaded] v(1) w by (simp add: handle_get_def)
  then have d: "dealwithincomepack p to s = Inr s1" using p(1) by (simp add: dealwithincomepack_def)
  have g1: "\<not> giSpiffyEnabled (router (wd (ticked 1 s1)))" "swift (wd (ticked 1 s1))"
    using g sw v(3) by (auto simp: peer_frame_def calm_def swift_def)
  have ck: "clock (wd s1) = clock (wd s)" using v(3) by (simp add: peer_frame_def calm_clock)
  have "upload_at (slot_bytes W) to 0 0 s1 ?xs a"
    using v(2) u(1-3,5-8) W(2,3) lpr x [of Need] x [of To_send] x [of Sent] x [of Downloading] x [of Uploading] ck
    by (auto simp: upload_at_def)
  then have "upload_at (slot_bytes W) to 0 0 (ticked 1 s1) ?xs a" by simp
  from upload_pass [OF this _ g1(2,1)] obtain s' hi where s': "uploads_loop (ticked 1 s1) = Inr s'"
    "upload_at (slot_bytes W) to 0 hi s' ?xs a" "0 < hi" "peer_frame (ticked 1 s1) s'" by auto
  have y: "?xs Need = []" "?xs To_send = []" "?xs Sent = []" "?xs Downloading = []" "peer_inv s' ?xs"
    using x s'(2) by (auto simp: upload_at_def)
  have "turn_work wfuel s1 = Inr s'" by (rule sender_work [OF v(2) [unfolded u(1)] y(1-3) s'(1) y(5,4)])
  moreover have "peer_frame s s'" using peer_frame_trans [OF peer_frame_ticked [OF v(3)] s'(4)] .
  moreover have "carrying ?data (slot_bytes W)" by (rule filled_carrying [OF W(1)]) simp
  ultimately show ?thesis using d s'(2,3) dig
    by (intro exI [of _ s1] exI [of _ s'] exI [of _ ?xs] exI [of _ "slot_bytes W"] exI [of _ hi] exI [of _ a] exI [of _ ?data]) simp
qed

end
