(* ===== verification/Handshake.thy ===== *)
theory Handshake
  imports ChunkTransfer
begin

text \<open>
  How a download begins, turn by turn of \<open>peer_run\<close>: the command and the WHOHAS broadcast, the
  IHAVE answer, and the GET request.
\<close>

section \<open>A command in one turn\<close>

definition line_turn :: "byte list \<Rightarrow> turn" where
  "line_turn line = \<lparr>ready = True, net = None, term_input = Some (Some (line @ [10]))\<rparr>"

lemma lines_of_line:
  assumes "10 \<notin> set line"
  shows "lines_of (line @ [10]) = [line]" "rest_of (line @ [10]) = []"
proof -
  have "10 \<in> set (line @ [10])" by simp
  then obtain l r where l: "line @ [10] = l @ 10 # r" "takeWhile (\<lambda>c. c \<noteq> 10) (line @ [10]) = l"
    "lines_of (line @ [10]) = l # lines_of r" "rest_of (line @ [10]) = rest_of r" by (rule newline_split)
  have "l = line" using l(2) takeWhile_upto [OF assms, of "[]"] by simp
  with l(1) have "l = line" "r = []" by simp_all
  then show "lines_of (line @ [10]) = [line]" "rest_of (line @ [10]) = []"
    using l(3,4) by (simp_all add: lines_of.simps [of "[]"] rest_of_def)
qed

lemma turn_line:
  assumes "length line \<le> 4095" and "0 \<notin> set line" "10 \<notin> set line"
    and h: "handle_user_input s line = Inr s1" and w: "turn_work wfuel s1 = Inr s2"
  shows "peer_turn junk wfuel (line_turn line) (b, clean_buf [], s) = Inr (b, clean_buf [], s2)"
proof -
  note lines_of_line [OF assms(3)]
  with process_user_input_clean [of "[]" "line @ [10]" handle_user_input s] assms(1,2) h have
    "process_user_input handle_user_input (Some (line @ [10])) (clean_buf []) s = Inr (clean_buf [], s1)" by simp
  with w show ?thesis by (simp add: peer_turn_work read_inputs_def line_turn_def)
qed

lemma plain_name_bytes:
  assumes "plain_name w"
  shows "0 \<notin> set w" "10 \<notin> set w" "length w \<le> 120"
proof -
  have c: "\<not> is_space c \<and> c \<noteq> 0" if "c \<in> set w" for c using assms that by (simp add: plain_name_def list_all_iff)
  show "0 \<notin> set w" using c [of 0] by blast
  show "10 \<notin> set w" using c [of 10] by (auto simp: is_space_def)
  show "length w \<le> 120" using assms by (simp add: plain_name_def)
qed

lemma get_line_bytes:
  assumes "plain_name chunkf" and "plain_name outf"
  shows "length (get_line chunkf outf) \<le> 4095" "0 \<notin> set (get_line chunkf outf)" "10 \<notin> set (get_line chunkf outf)"
  using plain_name_bytes [OF assms(1)] plain_name_bytes [OF assms(2)] by (simp_all add: get_line_def ascii_def)

section \<open>Asking\<close>

text \<open>Datagrams with one hash: WHOHAS of type 0 and IHAVE of type 1.\<close>

abbreviation one_hash :: "byte \<Rightarrow> byte list \<Rightarrow> packet" where
  "one_hash t hash \<equiv> hash_packet t 1 hash"

lemma one_hash:
  assumes "length hash = 20" and "t \<le> 1"
  shows "wf_packet (one_hash t hash)" "length (wire_bytes (one_hash t hash)) \<le> BUFLEN2"
    "as_received (one_hash t hash) = one_hash t hash" "carries_hashes (one_hash t hash) [hash]"
    "Packet_Type (one_hash t hash) = t"
proof -
  show "wf_packet (one_hash t hash)" using assms by (intro hash_packet_wf) (simp_all add: HASH_SIZE_def)
  from length_wire_bytes [OF this] show "length (wire_bytes (one_hash t hash)) \<le> BUFLEN2"
    by (simp add: hash_packet_def HEADER_LEN_def HASH_SIZE_def BUFLEN2_def)
  show "carries_hashes (one_hash t hash) [hash]" using assms by (simp add: carries_hashes_def hash_packet_def zero_packet_def)
qed (simp_all add: as_received_def hash_packet_def zero_packet_def)

lemma concat_single: "concat gs = [x] \<Longrightarrow> \<forall>g\<in>set gs. g \<noteq> [] \<Longrightarrow> gs = [[x]]"
  by (cases gs; cases "hd gs"; cases "tl gs") (auto simp: neq_Nil_conv)

text \<open>One chunk is needed, nobody has been asked for it yet.\<close>

definition asking :: "byte list \<Rightarrow> int \<Rightarrow> peer \<Rightarrow> (list_var \<Rightarrow> nat list) \<Rightarrow> bool" where
  "asking hash cid s xs \<longleftrightarrow> peer_inv s xs \<and> xs To_send = [] \<and> xs Sent = [] \<and> xs Downloading = [] \<and> xs Uploading = [] \<and>
     0 < max_download_num (mydownload (me s)) \<and>
     (\<exists>a c. xs Need = [a] \<and> info (hp s) a = Some c \<and> node_hash c = hash \<and> chunkid c = cid)"

lemma no_claims: "asking hash cid s xs \<Longrightarrow> claims xs = {}"
  by (simp add: asking_def claims_def)

lemma asking_counters:
  assumes "asking hash cid s xs"
  shows "concurr_download_num (mydownload (me s)) = 0"
  using assms by (auto simp: asking_def peer_inv_def counters_ok_def)

lemma broadcast_reaches:
  assumes "q \<in> set ps" and "peer_id q \<noteq> myid" and "\<not> giSpiffyEnabled g" and "p \<in> set pks"
  shows "(peer_addr q, wire_bytes p) \<in> set (broadcasts g myid ps pks)"
  using assms by (auto simp: broadcasts_def emitted_def)

text \<open>What a turn of an asking peer does that has not found the chunk: it asks every other peer.\<close>

lemma asking_turn:
  assumes a: "asking hash cid s xs" and found: "howmany_found (mydownload (me s)) < howmany_need (mydownload (me s))"
    and g: "\<not> giSpiffyEnabled (router (wd s))"
  shows "\<exists>s'. turn_work wfuel s = Inr s' \<and> asking hash cid s' xs \<and> peer_frame s s' \<and> scalars s' = scalars s \<and>
    (\<forall>q\<in>set (peers (config s)). peer_id q \<noteq> me_id (me s) \<longrightarrow> (peer_addr q, wire_bytes (one_hash 0 hash)) \<in> set (sent (wd s')))"
proof -
  obtain x c where x: "xs Need = [x]" "info (hp s) x = Some c" "node_hash c = hash" using a by (auto simp: asking_def)
  have e: "peer_inv s xs" "xs To_send = []" "xs Sent = []" "xs Downloading = []" "xs Uploading = []"
    using a by (simp_all add: asking_def)
  have i: "peer_inv (ticked 1 s) xs" "shape s xs" "shape (ticked 1 s) xs" using e(1) by (simp, simp_all add: peer_inv_def)
  let ?s = "ticked 1 s" and ?d = "mydownload (me s)"
  from WhoHas_sender_result [OF i(3), of "peers (config s)"] obtain groups where w:
    "WhoHas_sender (lst ?s Need) (peers (config s)) ?s =
      Inr (?s\<lparr>wd := record_sent (wd ?s) (broadcasts (router (wd ?s)) (me_id (me s)) (peers (config s)) (whohas_packets groups))\<rparr>)"
    "concat groups = unclaimed_in ?s xs [hash]" "\<forall>y\<in>set groups. y \<noteq> [] \<and> length y \<le> 50"
    using x by (auto simp: hash_of_def)
  let ?s' = "?s\<lparr>wd := record_sent (wd ?s) (broadcasts (router (wd ?s)) (me_id (me s)) (peers (config s)) (whohas_packets groups))\<rparr>"
  have "concat groups = [hash]" using w(2) no_claims [OF a] by (simp add: unclaimed_in_def)
  then have "groups = [[hash]]" using w(3) by (intro concat_single) auto
  then have gs: "whohas_packets groups = [one_hash 0 hash]" by (simp add: whohas_packets_def)
  have as: "asking hash cid ?s' xs" using a by (simp add: asking_def)
  then have i': "peer_inv ?s' xs" "shape ?s' xs" by (simp_all add: asking_def peer_inv_def)
  have "ask_around ?s = Inr ?s'"
    using GET_sender_quiet [OF i(1) e(2)] w(1) found asking_counters [OF a] a
    by (simp add: ask_around_def Let_def asking_def)
  then have "turn_work wfuel s = Inr ?s'"
    using check_timeout_quiet [OF i(2) e(3)] uploads_quiet [OF i'(2) e(5)] downloads_quiet [OF i'(2) e(4)]
    by (simp add: turn_work_def)
  moreover have "peer_frame s ?s'" "scalars ?s' = scalars s" by (simp_all add: peer_frame_def calm_def ticked_def scalars_def)
  ultimately show ?thesis using as g broadcast_reaches [where pks = "whohas_packets groups"]
    by (intro exI [of _ ?s']) (auto simp: gs)
qed

text \<open>The command \<open>GET chunkfile outputfile\<close> for a chunk file with one line.\<close>

lemma command_turn:
  assumes i: "peer_inv s xs" and up: "xs Uploading = []" and n: "plain_name chunkf" "plain_name outf"
    and f: "files (wd s) chunkf = Some (chunk_line (cid, hash))" "cid < 4096" "length hash = 20"
    and m: "0 < max_conn (config s)" and o: "can_open (wd s) outf" and g: "\<not> giSpiffyEnabled (router (wd s))"
  shows "\<exists>s1 s' xs'. handle_user_input s (get_line chunkf outf) = Inr s1 \<and> turn_work wfuel s1 = Inr s' \<and>
    asking hash (int cid) s' xs' \<and> content (wd s') outf = content (wd s) outf \<and> clock (wd s') = clock (wd s) \<and>
    router (wd s') = router (wd s) \<and> write_result (wd s') = write_result (wd s) \<and>
    open_fds (wd s') (output_fd (mydownload (me s'))) = Some (outf, 0) \<and>
    (\<forall>q\<in>set (peers (config s)). peer_id q \<noteq> me_id (me s) \<longrightarrow> (peer_addr q, wire_bytes (one_hash 0 hash)) \<in> set (sent (wd s')))"
proof -
  have es: "files (wd s) chunkf = Some (concat (map chunk_line [(cid, hash)]))" "list_all wf_chunk [(cid, hash)]"
    "\<forall>e\<in>set [(cid, hash)]. fst e < 4096" using f by (simp_all add: wf_chunk_def)
  from reset_mydownload_inv [OF i es n(2)] obtain s1 as where s1: "reset_mydownload chunkf outf s = Inr s1"
    "peer_inv s1 ((cleared xs)(Need := as))" "map (\<lambda>a. the (info (hp s1) a)) as = [chunk_node (config s) (cid, hash)]"
    "howmany_need (mydownload (me s1)) = 1" "howmany_found (mydownload (me s1)) = 0"
    "config s1 = (config s)\<lparr>output_file := outf\<rparr>" "(output_fd (mydownload (me s1)), wd s1) = os_open (wd s) outf"
    "max_download_num (mydownload (me s1)) = max_conn (config s)" "me_id (me s1) = me_id (me s)" by auto
  have h: "handle_user_input s (get_line chunkf outf) = Inr s1"
    using scan_get_line [OF n] n(2) s1(1) by (simp add: handle_user_input_def process_get_def plain_name_def)
  obtain a where a: "as = [a]" "the (info (hp s1) a) = chunk_node (config s) (cid, hash)" using s1(3) by (auto simp: map_eq_Cons_conv)
  let ?xs = "(cleared xs)(Need := as)"
  have "info (hp s1) a \<noteq> None" using shapeD(5) [of s1 ?xs a Need] s1(2) a(1) by (auto simp: peer_inv_def)
  then have "info (hp s1) a = Some (chunk_node (config s) (cid, hash))" using a(2) by auto
  then have "asking hash (int cid) s1 ?xs" using s1(2,8) a(1) up m by (simp add: asking_def chunk_node_def)
  moreover have w: "output_fd (mydownload (me s1)) = next_fd (wd s)" "files (wd s1) = (files (wd s))(outf \<mapsto> content (wd s) outf)"
    "open_fds (wd s1) = (open_fds (wd s))(next_fd (wd s) \<mapsto> (outf, 0))" "clock (wd s1) = clock (wd s)"
    "router (wd s1) = router (wd s)" "write_result (wd s1) = write_result (wd s)"
    using s1(7) o by (auto simp: os_open_def content_def)
  ultimately obtain s' where s': "turn_work wfuel s1 = Inr s'" "asking hash (int cid) s' ?xs" "peer_frame s1 s'" "scalars s' = scalars s1"
    "\<forall>q\<in>set (peers (config s1)). peer_id q \<noteq> me_id (me s1) \<longrightarrow> (peer_addr q, wire_bytes (one_hash 0 hash)) \<in> set (sent (wd s'))"
    using asking_turn [of hash "int cid" s1 ?xs wfuel] s1(4,5) g by auto
  have "content (wd s1) outf = content (wd s) outf" using w(2) by (simp add: content_def)
  then have "content (wd s') outf = content (wd s) outf" "clock (wd s') = clock (wd s)" "router (wd s') = router (wd s)"
    "write_result (wd s') = write_result (wd s)" "open_fds (wd s') (output_fd (mydownload (me s'))) = Some (outf, 0)"
    using s'(3) w scalarsD(3) [OF s'(4)] by (auto simp: peer_frame_def calm_def content_def)
  with h s'(1,2,5) s1(6,9) show ?thesis
    by (intro exI [of _ s1] exI [of _ s'] exI [of _ ?xs]) simp
qed

section \<open>Answering\<close>

lemma quiet_turn:
  assumes i: "peer_inv s xs" and x: "\<And>l. l \<noteq> Has \<Longrightarrow> xs l = []"
  shows "turn_work wfuel s = Inr (ticked 1 s)"
proof -
  have i1: "peer_inv (ticked 1 s) xs" "shape (ticked 1 s) xs" using i by (simp, simp add: peer_inv_def)
  have e: "xs Need = []" "xs To_send = []" "xs Sent = []" "xs Uploading = []" "xs Downloading = []" by (rule x; simp)+
  show ?thesis by (rule sender_work [OF i e(1-3) uploads_quiet [OF i1(2) e(4)] i1(1) e(5)])
qed

text \<open>A host that has the chunk answers, and can serve it afterwards.\<close>

lemma whohas_turn:
  assumes c: "can_serve s xs datafile" and h: "hash \<in> hash_of (info (hp s)) ` set (xs Has)" "length hash = 20"
    and g: "\<not> giSpiffyEnabled (router (wd s))"
  shows "\<exists>s1 s'. dealwithincomepack (one_hash 0 hash) to s = Inr s1 \<and> turn_work wfuel s1 = Inr s' \<and> can_serve s' xs datafile \<and>
    hp s' = hp s \<and> peer_frame s s' \<and> (to, wire_bytes (one_hash 1 hash)) \<in> set (sent (wd s'))"
proof -
  have i: "peer_inv s xs" and x: "\<And>l. l \<noteq> Has \<Longrightarrow> xs l = []" using c by (simp_all add: can_serve_def)
  have s: "shape s xs" using i by (simp add: peer_inv_def)
  have t: "(0::byte) \<le> 1" by simp
  let ?s = "s\<lparr>wd := record_sent (wd s) (emitted (router (wd s)) to (wire_bytes (one_hash 1 hash)))\<rparr>"
  have "having s xs [hash] = [hash]" using h(1) by (simp add: having_def)
  with IHav_sender_result [OF s one_hash(4) [OF h(2) t], of to] have "dealwithincomepack (one_hash 0 hash) to s = Inr ?s"
    using one_hash(5) [OF h(2) t] by (simp add: dealwithincomepack_def)
  moreover have "peer_inv ?s xs" using i by simp
  from quiet_turn [OF this x] have "turn_work wfuel ?s = Inr (ticked 1 ?s)" .
  moreover have "can_serve (ticked 1 ?s) xs datafile" using c by (simp add: can_serve_def ticked_def)
  moreover have "peer_frame s (ticked 1 ?s)" by (simp add: peer_frame_def calm_def ticked_def)
  ultimately show ?thesis using g
    by (intro exI [of _ ?s] exI [of _ "ticked 1 ?s"]) (simp add: emitted_def)
qed

section \<open>Requesting\<close>

definition fd_kept :: "peer \<Rightarrow> peer \<Rightarrow> bool" where
  "fd_kept s s' \<longleftrightarrow> output_fd (mydownload (me s')) = output_fd (mydownload (me s))"

lemma put_list_fd: "output_fd (mydownload (me (put_list l p s))) = output_fd (mydownload (me s))"
  by (rule scalarsD(3)) simp

lemma send_get_fd: "post (send_get p s) (fd_kept s)"
  by (auto simp: send_get_def move_in_def stamp_node_def set_node_def fd_kept_def put_list_fd case_prod_beta intro!: post_any)

lemma pick_loop_fd: "post (pick_loop fuel sl dl m p c s) (\<lambda>(k, s'). fd_kept s s')"
proof (induction fuel arbitrary: p c s)
  case 0
  then show ?case by (cases p) (simp_all add: fd_kept_def)
next
  case (Suc fuel)
  show ?case
  proof (cases p)
    case (Some a)
    have ih: "post (pick_loop fuel sl dl m q k s1) (\<lambda>(k, s'). fd_kept s s')" if "fd_kept s s1" for q k s1
      using Suc.IH [of q k s1] by (rule post_mono) (use that in \<open>auto simp: fd_kept_def\<close>)
    have kept: "fd_kept s s" by (simp add: fd_kept_def)
    from Some kept show ?thesis
      by (auto intro!: post_any [where m = "load h p" for h p] post_any [where m = "find_node_by_addr h l addr" for h l addr]
          send_get_fd [THEN post_mono] ih)
  qed (simp add: fd_kept_def)
qed

lemma GET_sender_fd: "GET_sender s = Inr (k, s') \<Longrightarrow> fd_kept s s'"
proof -
  have "post (GET_sender s) (\<lambda>(k, s'). fd_kept s s')"
    by (auto simp: GET_sender_def pick_tosend_GET_def Let_def fd_kept_def [of s s] add_downloads_def upd_down_def
        intro!: pick_loop_fd [THEN post_mono]) (auto simp: fd_kept_def)
  then show "GET_sender s = Inr (k, s') \<Longrightarrow> fd_kept s s'" by simp
qed

lemma one_offer:
  assumes a: "asking hash cid s xs" and len: "length hash = 20"
  shows "\<exists>s' a m. dealwithincomepack (one_hash 1 hash) src s = Inr s' \<and> peer_inv s' (xs(To_send := [a])) \<and>
    info (hp s') a = Some m \<and> node_from m = src \<and> node_hash m = hash \<and> chunkid m = cid \<and> peer_frame s s' \<and>
    fd_kept s s' \<and> max_download_num (mydownload (me s')) = max_download_num (mydownload (me s))"
proof -
  obtain x c where x: "xs Need = [x]" "info (hp s) x = Some c" "node_hash c = hash" "chunkid c = cid" using a by (auto simp: asking_def)
  have i: "peer_inv s xs" and e: "xs To_send = []" "xs Sent = []" "xs Downloading = []" using a by (simp_all add: asking_def)
  have s: "shape s xs" using i by (simp add: peer_inv_def)
  have hx: "hash_of (info (hp s)) x = hash" using x(2,3) by (simp add: hash_of_def)
  obtain r where r: "find_node (hp s) (lst s Need) hash = Inr r" "r = None \<longleftrightarrow> hash \<notin> hash_of (info (hp s)) ` set (xs Need)"
    "\<And>a. r = Some a \<Longrightarrow> a \<in> set (xs Need) \<and> hash_of (info (hp s)) a = hash" using find_hash_of [OF s len] by metis
  have n: "find_node (hp s) (lst s Need) hash = Inr (Some x)" using r x(1) hx by (cases r) auto
  obtain r where "find_node (hp s) (lst s To_send) hash = Inr r" "r = None \<longleftrightarrow> hash \<notin> hash_of (info (hp s)) ` set (xs To_send)"
    using find_hash_of [OF s len] by metis
  then have t: "find_node (hp s) (lst s To_send) hash = Inr None" using e(1) by simp
  have w: "wanted hash (Some x) s = Inr True" using wanted_result [OF s len] e(2,3) by (simp add: running_def)
  have "hash \<notin> hash_of (info (hp s)) ` claims xs" using no_claims [OF a] by simp
  from add_offer_inv [OF i len _ hx this, of src] x(1,2,4) e(1) obtain s1 b m where o: "add_offer src hash (Some x) s = Inr s1"
    "peer_inv s1 (xs(To_send := [b]))" "peer_frame s s1" "scalars s1 = scalars s" "info (hp s1) b = Some m" "node_from m = src"
    "node_hash m = hash" "chunkid m = cid" by auto
  have one: "fill_one src hash s = Inr (add_found 1 s1)" using n t w o(1) by (simp add: fill_one_def)
  have l: "(1::byte) \<le> 1" by simp
  note p = one_hash(4,5) [OF len l]
  have "payload_read (one_hash 1 hash) (int (0 * HASH_SIZE)) (int HASH_SIZE) = Inr hash"
    using payload_read_hash [OF p(1), of 0] by simp
  moreover have "unat (Chunkhash_Num (one_hash 1 hash)) = Suc 0" using p(1) by (simp add: carries_hashes_def)
  ultimately have "dealwithincomepack (one_hash 1 hash) src s = Inr (add_found 1 s1)"
    using p(2) one by (simp add: dealwithincomepack_def fill_toget_list_def)
  moreover have "peer_inv (add_found 1 s1) (xs(To_send := [b]))" using o(2) by (simp add: peer_inv_def shape_def counters_ok_def)
  moreover have "peer_frame s (add_found 1 s1)" using o(3) by (simp add: peer_frame_def)
  moreover have "fd_kept s (add_found 1 s1)" "max_download_num (mydownload (me (add_found 1 s1))) = max_download_num (mydownload (me s))"
    using scalarsD(3,5) [OF o(4)] by (simp_all add: fd_kept_def add_found_def upd_down_def)
  ultimately show ?thesis using o(5-8)
    by (intro exI [of _ "add_found 1 s1"] exI [of _ b] exI [of _ m]) simp
qed

text \<open>An asking peer that receives an IHAVE requests the chunk from the sender of it.\<close>

lemma ihave_turn:
  assumes a: "asking hash cid s xs" and len: "length hash = 20" and g: "\<not> giSpiffyEnabled (router (wd s))"
  shows "\<exists>s1 s' xs' n p. dealwithincomepack (one_hash 1 hash) src s = Inr s1 \<and> turn_work wfuel s1 = Inr s' \<and>
    (\<forall>data. fips_sha1 data = hash \<longrightarrow> download_at data cid (sin_port src) 0 s' xs' n) \<and> peer_frame s s' \<and> fd_kept s s' \<and>
    form_GET n = Inr p \<and> node_hash n = hash \<and> (src, wire_bytes p) \<in> set (sent (wd s'))"
proof -
  from one_offer [OF a len, of src] obtain s1 b m where s1: "dealwithincomepack (one_hash 1 hash) src s = Inr s1"
    "peer_inv s1 (xs(To_send := [b]))" "info (hp s1) b = Some m" "node_from m = src" "node_hash m = hash" "chunkid m = cid"
    "peer_frame s s1" "fd_kept s s1" "max_download_num (mydownload (me s1)) = max_download_num (mydownload (me s))" by blast
  let ?xs = "xs(To_send := [b])" and ?s = "ticked 1 s1"
  have e: "?xs Sent = []" "?xs Downloading = []" "?xs Uploading = []" "length (?xs Need) = 1" using a by (auto simp: asking_def)
  have i: "peer_inv ?s ?xs" "shape s1 ?xs" using s1(2) by (simp, simp add: peer_inv_def)
  have "concurr_download_num (mydownload (me ?s)) \<noteq> max_download_num (mydownload (me ?s))"
    using s1(2,9) a e by (auto simp: peer_inv_def counters_ok_def asking_def)
  moreover have "find (\<lambda>a. \<not> offer_busy (info (hp ?s)) ?xs a) (?xs To_send) = Some b" using e(1,2) by (simp add: offer_busy_def running_def)
  ultimately obtain s2 t p where s2: "GET_sender ?s = Inr (1, s2)" "peer_inv s2 (?xs(To_send := [], Sent := [b]))" "peer_frame ?s s2"
    "info (hp s2) b = Some (m\<lparr>node_time := t\<rparr>)" "form_GET m = Inr p"
    "sent (wd s2) = sent (wd ?s) @ emitted (router (wd ?s)) src (wire_bytes p)"
    using GET_sender_inv [OF i(1)] s1(3,4) e(1) by auto
  let ?ys = "?xs(To_send := [], Sent := [b])" and ?n = "m\<lparr>node_time := t\<rparr>"
  have i2: "shape s2 ?ys" using s2(2) by (simp add: peer_inv_def)
  have "turn_work wfuel s1 = Inr s2"
    using check_timeout_quiet [OF i(2) e(1)] s2(1) uploads_quiet [OF i2] downloads_quiet [OF i2] e
    by (simp add: turn_work_def ask_around_def Let_def)
  moreover have "download_at data cid (sin_port src) 0 s2 ?ys ?n" if "fips_sha1 data = hash" for data
    using s2(2,4) s1(4-6) e that by (simp add: download_at_def)
  moreover have "peer_frame s s2" using peer_frame_trans [OF peer_frame_ticked [OF s1(7)] s2(3)] .
  moreover have "fd_kept s s2" using s1(8) GET_sender_fd [OF s2(1)] by (simp add: fd_kept_def)
  moreover have "router (wd ?s) = router (wd s)" using s1(7) by (simp add: peer_frame_def calm_def)
  then have "(src, wire_bytes p) \<in> set (sent (wd s2))" using s2(6) g by (simp add: emitted_def)
  moreover have "form_GET ?n = Inr p" "node_hash ?n = hash" using s2(5) s1(5) by (simp_all add: form_GET_def)
  ultimately show ?thesis using s1(1)
    by (intro exI [of _ s1] exI [of _ s2] exI [of _ ?ys] exI [of _ ?n] exI [of _ p]) simp
qed

end
