(* ===== verification/Session.thy ===== *)
theory Session
  imports Handshake
begin

text \<open>
  A download over the network: two hosts, each making turns of \<open>peer_run\<close>, from the command
  \<open>GET chunkfile outputfile\<close> to the chunk in the output file.
\<close>

section \<open>The network at work\<close>

text \<open>
  Host \<open>h\<close> has the address \<open>addr h\<close>. A hop is one turn of one host: it delivers a datagram that some
  host has sent to this one, neither using the router. The fuel of \<open>reap\<close> is one unit per byte of a
  chunk.
\<close>

definition direct :: "host \<Rightarrow> bool" where
  "direct st \<longleftrightarrow> \<not> giSpiffyEnabled (router (host_world st))"

inductive hop :: "(nat \<Rightarrow> byte) \<Rightarrow> ('h \<Rightarrow> sockaddr_in) \<Rightarrow> ('h \<Rightarrow> host) \<Rightarrow> ('h \<Rightarrow> host) \<Rightarrow> bool" for junk addr where
  deliver: "direct (n g) \<Longrightarrow> direct (n h) \<Longrightarrow> (addr h, bs) \<in> set (sent (host_world (n g))) \<Longrightarrow>
    peer_turn junk 524288 (packet_turn (addr g) bs) (n h) = Inr st \<Longrightarrow> hop junk addr n (n(h := st))"

text \<open>What is needed of a host: an empty receive buffer, no router, and clocks that advance little.\<close>

definition plain_host :: "buf \<Rightarrow> peer \<Rightarrow> bool" where
  "plain_host b s \<longleftrightarrow> holds b [] \<and> \<not> giSpiffyEnabled (router (wd s)) \<and> swift (wd s)"

lemma plain_direct: "plain_host b s \<Longrightarrow> direct (b, u, s)"
  by (simp add: plain_host_def direct_def host_world_def)

lemma plain_host_frame:
  assumes "plain_host b s" and "peer_frame s s'" and "holds b' []"
  shows "plain_host b' s'"
proof -
  have "router (wd s') = router (wd s)" using assms(2) by (simp add: peer_frame_def calm_def)
  with assms swift_frame [OF assms(2)] show ?thesis by (simp add: plain_host_def)
qed

text \<open>A turn that brings one packet, as a hop.\<close>

lemma packet_hop:
  assumes st: "n h = (b, u, s)" and p: "plain_host b s" and g: "direct (n g)" and d: "(addr h, wire_bytes p) \<in> set (sent (host_world (n g)))"
    and wf: "wf_packet p" "length (wire_bytes p) \<le> BUFLEN2"
    and run: "dealwithincomepack (as_received p) (addr g) s = Inr s1" "turn_work 524288 s1 = Inr s2"
  shows "\<exists>b'. holds b' [] \<and> hop junk addr n (n(h := (b', u, s2)))"
proof -
  have "holds b []" "\<not> giSpiffyEnabled (router (wd s))" using p by (simp_all add: plain_host_def)
  from turn_packet [OF this wf run, of junk u] obtain b' where b': "holds b' []"
    "peer_turn junk 524288 (packet_turn (addr g) (wire_bytes p)) (n h) = Inr (b', u, s2)" by (auto simp: st)
  have "direct (n h)" using plain_direct [OF p] by (simp add: st)
  from hop.deliver [OF g this d b'(2)] b'(1) show ?thesis by blast
qed

section \<open>The exchange of DATA and ACK packets\<close>

definition uploading :: "byte list \<Rightarrow> sockaddr_in \<Rightarrow> int \<Rightarrow> host \<Rightarrow> bool" where
  "uploading data to k st \<longleftrightarrow> (\<exists>b u s B hi xs a. st = (b, u, s) \<and> plain_host b s \<and> upload_at B to k hi s xs a \<and> k < hi \<and>
     carrying data B)"

definition downloading :: "byte list \<Rightarrow> int \<Rightarrow> sockaddr_in \<Rightarrow> byte list \<Rightarrow> byte list \<Rightarrow> int \<Rightarrow> host \<Rightarrow> bool" where
  "downloading data cid src name old k st \<longleftrightarrow> (\<exists>b u s xs n pos. st = (b, u, s) \<and> plain_host b s \<and>
     download_at data cid (sin_port src) k s xs n \<and> progressing_writes (wd s) \<and> content (wd s) name = old \<and>
     open_fds (wd s) (output_fd (mydownload (me s))) = Some (name, pos))"

lemma transfer_direct:
  "uploading data to k st \<Longrightarrow> direct st" "downloading data cid src name old k st \<Longrightarrow> direct st"
  by (auto simp: uploading_def downloading_def plain_direct)

lemma next_data_sent:
  assumes u: "uploading data to k st" and k: "0 \<le> k"
  shows "\<exists>q. (to, wire_bytes q) \<in> set (sent (host_world st)) \<and> wf_packet q \<and> length (wire_bytes q) \<le> BUFLEN2 \<and>
    data_for data (k + 1) (as_received q)"
proof -
  obtain b us s B hi xs a where s: "st = (b, us, s)" "upload_at B to k hi s xs a" "k < hi" "carrying data B"
    using u by (auto simp: uploading_def)
  have "hi \<le> 512" "(to, B (k + 1)) \<in> set (sent (wd s))" using s(2,3) k by (auto simp: upload_at_def)
  moreover have "1 \<le> k + 1 \<and> k + 1 \<le> 512" using k s(3) \<open>hi \<le> 512\<close> by simp
  with s(4) obtain q where "B (k + 1) = wire_bytes q" "wf_packet q" "length (wire_bytes q) \<le> BUFLEN2"
    "data_for data (k + 1) (as_received q)" unfolding carrying_def by blast
  ultimately show ?thesis by (auto simp: s(1) host_world_def)
qed

lemma ack_packet:
  "as_received (form_ACK_pack i) = form_ACK_pack i" "wf_packet (form_ACK_pack i)" "length (wire_bytes (form_ACK_pack i)) \<le> BUFLEN2"
  using form_ACK_pack_wf [of i]
  by (simp_all add: as_received_def form_ACK_pack_def zero_packet_def wire_bytes_def body_def BUFLEN2_def)

text \<open>One round: the next DATA packet reaches the receiver, its acknowledgement the sender.\<close>

lemma data_hop:
  assumes d: "downloading data cid (addr g) name old k (n h)" and u: "uploading data (addr h) k (n g)"
    and k: "0 \<le> k" "k < 511"
  shows "\<exists>st. hop junk addr n (n(h := st)) \<and> downloading data cid (addr g) name old (k + 1) st \<and>
    (addr g, wire_bytes (form_ACK_pack (k + 1))) \<in> set (sent (host_world st))"
proof -
  obtain b us s xs nd pos where s: "n h = (b, us, s)" "plain_host b s" "download_at data cid (sin_port (addr g)) k s xs nd"
    "progressing_writes (wd s)" "content (wd s) name = old" "open_fds (wd s) (output_fd (mydownload (me s))) = Some (name, pos)"
    using d by (auto simp: downloading_def)
  have sw: "swift (wd s)" and g: "\<not> giSpiffyEnabled (router (wd s))" using s(2) by (simp_all add: plain_host_def)
  from next_data_sent [OF u k(1)] obtain q where q: "(addr h, wire_bytes q) \<in> set (sent (host_world (n g)))" "wf_packet q"
    "length (wire_bytes q) \<le> BUFLEN2" "data_for data (k + 1) (as_received q)" by blast
  from data_turn [OF s(3) k q(4) refl sw, of 524288] obtain s1 s' xs' n' where r:
    "dealwithincomepack (as_received q) (addr g) s = Inr s1" "turn_work 524288 s1 = Inr s'"
    "download_at data cid (sin_port (addr g)) (k + 1) s' xs' n'" "peer_frame s s'" "scalars s' = scalars s"
    "sent (wd s') = sent (wd s) @ emitted (router (wd s)) (addr g) (wire_bytes (form_ACK_pack (k + 1)))" by blast
  from packet_hop [where n = n and h = h and g = g and addr = addr, OF s(1,2) transfer_direct(1) [OF u] q(1-3) r(1,2), of junk] obtain b' where
    b': "holds b' []" "hop junk addr n (n(h := (b', us, s')))" by blast
  have c: "progressing_writes (wd s')" "content (wd s') name = old" "open_fds (wd s') = open_fds (wd s)"
    using s(4,5) r(4) by (simp_all add: peer_frame_def calm_def progressing_writes_def content_def)
  have "downloading data cid (addr g) name old (k + 1) (b', us, s')"
    using plain_host_frame [OF s(2) r(4) b'(1)] r(3) c s(6) scalarsD(3) [OF r(5)] by (auto simp: downloading_def)
  moreover have "(addr g, wire_bytes (form_ACK_pack (k + 1))) \<in> set (sent (host_world (b', us, s')))"
    using r(6) g by (simp add: host_world_def emitted_def)
  ultimately show ?thesis using b'(2) by blast
qed

lemma ack_hop:
  assumes u: "uploading data (addr h) k (n g)" and d: "(addr g, wire_bytes (form_ACK_pack (k + 1))) \<in> set (sent (host_world (n h)))" "direct (n h)"
    and k: "0 \<le> k" "k < 511"
  shows "\<exists>st. hop junk addr n (n(g := st)) \<and> uploading data (addr h) (k + 1) st"
proof -
  obtain b us s B hi xs a where s: "n g = (b, us, s)" "plain_host b s" "upload_at B (addr h) k hi s xs a" "k < hi" "carrying data B"
    using u by (auto simp: uploading_def)
  have sw: "swift (wd s)" and sp: "\<not> giSpiffyEnabled (router (wd s))" using s(2) by (simp_all add: plain_host_def)
  from ack_turn [OF s(3) k(1) s(4) k(2) refl sw sp, of 524288] obtain s1 s' hi' where r:
    "dealwithincomepack (form_ACK_pack (k + 1)) (addr h) s = Inr s1" "turn_work 524288 s1 = Inr s'"
    "upload_at B (addr h) (k + 1) hi' s' xs a" "k + 1 < hi'" "peer_frame s s'" by blast
  note p = ack_packet [of "k + 1"]
  from packet_hop [where n = n and h = g and g = h and addr = addr, OF s(1,2) d(2,1) p(2,3), of s1 s' junk] r(1,2) p(1) obtain b' where
    b': "holds b' []" "hop junk addr n (n(g := (b', us, s')))" by auto
  have "uploading data (addr h) (k + 1) (b', us, s')"
    using plain_host_frame [OF s(2) r(5) b'(1)] r(3,4) s(5) by (auto simp: uploading_def)
  with b'(2) show ?thesis by blast
qed

text \<open>Other hosts are not concerned.\<close>

definition others_kept :: "'h \<Rightarrow> 'h \<Rightarrow> ('h \<Rightarrow> host) \<Rightarrow> ('h \<Rightarrow> host) \<Rightarrow> bool" where
  "others_kept g h n n' \<longleftrightarrow> (\<forall>i. i \<noteq> g \<longrightarrow> i \<noteq> h \<longrightarrow> n' i = n i)"

lemma hops_two: "(hop junk addr ^^ k) n n1 \<Longrightarrow> hop junk addr n1 n2 \<Longrightarrow> hop junk addr n2 n3 \<Longrightarrow> (hop junk addr ^^ (k + 2)) n n3"
  unfolding add_2_eq_Suc' by (rule relpowp_Suc_I, rule relpowp_Suc_I)

lemma exchange:
  assumes "downloading data cid (addr g) name old 0 (n h)" and "uploading data (addr h) 0 (n g)" and "g \<noteq> h" and "k \<le> 511"
  shows "\<exists>n'. (hop junk addr ^^ (2 * k)) n n' \<and> downloading data cid (addr g) name old (int k) (n' h) \<and>
    uploading data (addr h) (int k) (n' g) \<and> others_kept g h n n'"
  using assms(4)
proof (induction k)
  case 0
  with assms(1,2) show ?case by (intro exI [of _ n]) (simp add: others_kept_def)
next
  case (Suc k)
  then obtain n1 where n1: "(hop junk addr ^^ (2 * k)) n n1" "downloading data cid (addr g) name old (int k) (n1 h)"
    "uploading data (addr h) (int k) (n1 g)" "others_kept g h n n1" by auto
  have k: "0 \<le> int k" "int k < 511" using Suc.prems by simp_all
  from data_hop [where n = n1 and h = h and g = g and addr = addr, OF n1(2,3) k, of junk] obtain st where st: "hop junk addr n1 (n1(h := st))"
    "downloading data cid (addr g) name old (int k + 1) st"
    "(addr g, wire_bytes (form_ACK_pack (int k + 1))) \<in> set (sent (host_world st))" by blast
  let ?n = "n1(h := st)"
  have "uploading data (addr h) (int k) (?n g)" using n1(3) assms(3) by simp
  from ack_hop [where n = ?n and h = h and g = g and addr = addr, OF this _ _ k, of junk] st(3) transfer_direct(2) [OF st(2)] obtain st' where st': "hop junk addr ?n (?n(g := st'))"
    "uploading data (addr h) (int k + 1) st'" by auto
  have r: "(hop junk addr ^^ (2 * Suc k)) n (?n(g := st'))"
    using hops_two [OF n1(1) st(1) st'(1)] by (simp only: mult_Suc_right add.commute)
  have n2: "(?n(g := st')) h = st" "(?n(g := st')) g = st'" "others_kept g h n (?n(g := st'))" "int (Suc k) = int k + 1"
    using n1(4) assms(3) by (simp_all add: others_kept_def)
  show ?case
    by (intro exI [of _ "?n(g := st')"] conjI r n2(3); unfold n2(1,2,4)) (rule st(2), rule st'(2))
qed

section \<open>The last packet\<close>

definition received :: "byte list \<Rightarrow> int \<Rightarrow> byte list \<Rightarrow> byte list \<Rightarrow> host \<Rightarrow> bool" where
  "received data cid name old st \<longleftrightarrow> (\<exists>b u s xs. st = (b, u, s) \<and> peer_inv s xs \<and>
     (\<forall>l\<in>{Need, To_send, Sent, Downloading}. xs l = []) \<and>
     content (wd s) name = overwrite old (nat (cid * CHUNK_SIZE)) data)"

definition served :: "host \<Rightarrow> bool" where
  "served st \<longleftrightarrow> (\<exists>b u s xs. st = (b, u, s) \<and> peer_inv s xs \<and> xs Uploading = [])"

lemma last_data_hop:
  assumes d: "downloading data cid (addr g) name old 511 (n h)" and u: "uploading data (addr h) 511 (n g)"
    and l: "length data = 524288"
  shows "\<exists>st. hop junk addr n (n(h := st)) \<and> received data cid name old st \<and>
    (addr g, wire_bytes (form_ACK_pack 512)) \<in> set (sent (host_world st)) \<and> direct st"
proof -
  obtain b us s xs nd pos where s: "n h = (b, us, s)" "plain_host b s" "download_at data cid (sin_port (addr g)) 511 s xs nd"
    "progressing_writes (wd s)" "content (wd s) name = old" "open_fds (wd s) (output_fd (mydownload (me s))) = Some (name, pos)"
    using d by (auto simp: downloading_def)
  have sp: "\<not> giSpiffyEnabled (router (wd s))" using s(2) by (simp add: plain_host_def)
  from next_data_sent [OF u] obtain q where q: "(addr h, wire_bytes q) \<in> set (sent (host_world (n g)))" "wf_packet q"
    "length (wire_bytes q) \<le> BUFLEN2" "data_for data 512 (as_received q)" by auto
  from last_data_turn [OF s(3) q(4) refl l s(4,6)] obtain s1 s' xs' where r:
    "dealwithincomepack (as_received q) (addr g) s = Inr s1" "turn_work 524288 s1 = Inr s'"
    "peer_inv s' xs'" "xs' Need = []" "xs' To_send = []" "xs' Sent = []" "xs' Downloading = []"
    "content (wd s') name = overwrite old (nat (cid * CHUNK_SIZE)) data"
    "sent (wd s') = sent (wd s) @ emitted (router (wd s)) (addr g) (wire_bytes (form_ACK_pack 512))"
    "router (wd s') = router (wd s)"
    unfolding s(5) by blast
  from packet_hop [where n = n and h = h and g = g and addr = addr, OF s(1,2) transfer_direct(1) [OF u] q(1-3) r(1,2), of junk] obtain b' where
    b': "hop junk addr n (n(h := (b', us, s')))" by blast
  have "received data cid name old (b', us, s')" using r(3-8) by (auto simp: received_def)
  moreover have "(addr g, wire_bytes (form_ACK_pack 512)) \<in> set (sent (host_world (b', us, s')))"
    using r(9) sp by (simp add: host_world_def emitted_def)
  moreover have "direct (b', us, s')" using r(10) sp by (simp add: direct_def host_world_def)
  ultimately show ?thesis using b' by blast
qed

lemma last_ack_hop:
  assumes u: "uploading data (addr h) 511 (n g)" and d: "(addr g, wire_bytes (form_ACK_pack 512)) \<in> set (sent (host_world (n h)))" "direct (n h)"
  shows "\<exists>st. hop junk addr n (n(g := st)) \<and> served st"
proof -
  obtain b us s B hi xs a where s: "n g = (b, us, s)" "plain_host b s" "upload_at B (addr h) 511 hi s xs a" "511 < hi"
    using u by (auto simp: uploading_def)
  from last_ack_turn [OF s(3,4) refl, of 524288] obtain s1 s' where r:
    "dealwithincomepack (form_ACK_pack 512) (addr h) s = Inr s1" "turn_work 524288 s1 = Inr s'"
    "peer_inv s' (xs(Uploading := [], Uploaded := a # xs Uploaded))" by blast
  note p = ack_packet [of 512]
  from packet_hop [where n = n and h = g and g = h and addr = addr, OF s(1,2) d(2,1) p(2,3), of s1 s' junk] r(1,2) p(1)
  obtain b' where "hop junk addr n (n(g := (b', us, s')))" by auto
  moreover have "served (b', us, s')" using r(3) by (auto simp: served_def)
  ultimately show ?thesis by blast
qed

text \<open>From the request to the chunk in the file.\<close>

lemma transfer:
  assumes d: "downloading data cid (addr g) name old 0 (n h)" and u: "uploading data (addr h) 0 (n g)" and "g \<noteq> h"
    and l: "length data = 524288"
  shows "\<exists>n'. (hop junk addr ^^ 1024) n n' \<and> received data cid name old (n' h) \<and> served (n' g) \<and> others_kept g h n n'"
proof -
  from exchange [where n = n and h = h and g = g and addr = addr and k = 511, OF d u assms(3)] obtain n1 where
    n1: "(hop junk addr ^^ 1022) n n1" "downloading data cid (addr g) name old 511 (n1 h)"
    "uploading data (addr h) 511 (n1 g)" "others_kept g h n n1" by auto
  from last_data_hop [where n = n1 and h = h and g = g and addr = addr, OF n1(2,3) l, of junk] obtain st where
    st: "hop junk addr n1 (n1(h := st))" "received data cid name old st"
    "(addr g, wire_bytes (form_ACK_pack 512)) \<in> set (sent (host_world st))" "direct st" by blast
  let ?n = "n1(h := st)"
  have "uploading data (addr h) 511 (?n g)" using n1(3) assms(3) by simp
  from last_ack_hop [where n = ?n and h = h and g = g and addr = addr, OF this, of junk] st(3,4) obtain st' where
    st': "hop junk addr ?n (?n(g := st'))" "served st'" by auto
  have r: "(hop junk addr ^^ 1024) n (?n(g := st'))"
    using hops_two [OF n1(1) st(1) st'(1)] by simp
  have n2: "(?n(g := st')) h = st" "(?n(g := st')) g = st'" "others_kept g h n (?n(g := st'))"
    using n1(4) assms(3) by (simp_all add: others_kept_def)
  show ?thesis
    by (intro exI [of _ "?n(g := st')"] conjI r n2(3); unfold n2(1,2)) (rule st(2), rule st'(2))
qed

section \<open>The handshake\<close>

text \<open>A host that has the chunk with this digest and can serve it.\<close>

definition supplier :: "byte list \<Rightarrow> host \<Rightarrow> bool" where
  "supplier hash st \<longleftrightarrow> (\<exists>b u s xs datafile. st = (b, u, s) \<and> plain_host b s \<and> can_serve s xs datafile \<and>
     hash \<in> hash_of (info (hp s)) ` set (xs Has))"

text \<open>
  A host that can look for the chunk: a chunk file names it, the output file can be opened and
  written, and the peer list holds the supplier as another peer.
\<close>

definition requester :: "sockaddr_in \<Rightarrow> byte list \<Rightarrow> byte list \<Rightarrow> nat \<Rightarrow> byte list \<Rightarrow> host \<Rightarrow> bool" where
  "requester src chunkf outf cid hash st \<longleftrightarrow> (\<exists>b s xs. st = (b, clean_buf [], s) \<and> plain_host b s \<and> peer_inv s xs \<and>
     xs Uploading = [] \<and> plain_name chunkf \<and> plain_name outf \<and> files (wd s) chunkf = Some (chunk_line (cid, hash)) \<and>
     cid < 4096 \<and> length hash = 20 \<and> 0 < max_conn (config s) \<and> can_open (wd s) outf \<and> progressing_writes (wd s) \<and>
     (\<exists>q\<in>set (peers (config s)). peer_addr q = src \<and> peer_id q \<noteq> me_id (me s)))"

definition searching :: "byte list \<Rightarrow> int \<Rightarrow> byte list \<Rightarrow> byte list \<Rightarrow> host \<Rightarrow> bool" where
  "searching hash cid name old st \<longleftrightarrow> (\<exists>b u s xs pos. st = (b, u, s) \<and> plain_host b s \<and> asking hash cid s xs \<and>
     progressing_writes (wd s) \<and> content (wd s) name = old \<and> open_fds (wd s) (output_fd (mydownload (me s))) = Some (name, pos))"

lemma seeking_direct: "supplier hash st \<Longrightarrow> direct st" "searching hash cid name old st \<Longrightarrow> direct st"
  by (auto simp: supplier_def searching_def plain_direct)

lemma command_hop:
  assumes "requester src chunkf outf cid hash (n h)"
  shows "\<exists>st. peer_turn junk 524288 (line_turn (get_line chunkf outf)) (n h) = Inr st \<and>
    searching hash (int cid) outf (content (host_world (n h)) outf) st \<and>
    (src, wire_bytes (one_hash 0 hash)) \<in> set (sent (host_world st))"
proof -
  obtain b s xs q where s: "n h = (b, clean_buf [], s)" "plain_host b s" "peer_inv s xs" "xs Uploading = []" "plain_name chunkf"
    "plain_name outf" "files (wd s) chunkf = Some (chunk_line (cid, hash))" "cid < 4096" "length hash = 20"
    "0 < max_conn (config s)" "can_open (wd s) outf" "progressing_writes (wd s)" "q \<in> set (peers (config s))"
    "peer_addr q = src" "peer_id q \<noteq> me_id (me s)" using assms by (auto simp: requester_def)
  have g: "\<not> giSpiffyEnabled (router (wd s))" using s(2) by (simp add: plain_host_def)
  from command_turn [OF s(3-11) g, of 524288] obtain s1 s' xs' where r:
    "handle_user_input s (get_line chunkf outf) = Inr s1" "turn_work 524288 s1 = Inr s'" "asking hash (int cid) s' xs'"
    "content (wd s') outf = content (wd s) outf" "clock (wd s') = clock (wd s)" "router (wd s') = router (wd s)"
    "write_result (wd s') = write_result (wd s)" "open_fds (wd s') (output_fd (mydownload (me s'))) = Some (outf, 0)"
    "\<forall>q\<in>set (peers (config s)). peer_id q \<noteq> me_id (me s) \<longrightarrow> (peer_addr q, wire_bytes (one_hash 0 hash)) \<in> set (sent (wd s'))"
    by blast
  from turn_line [OF get_line_bytes [OF s(5,6)] r(1,2)] have
    t: "peer_turn junk 524288 (line_turn (get_line chunkf outf)) (n h) = Inr (b, clean_buf [], s')" by (simp add: s(1))
  have "plain_host b s'" using s(2) r(5,6) by (simp add: plain_host_def swift_def)
  moreover have "progressing_writes (wd s')" using s(12) r(7) by (simp add: progressing_writes_def)
  ultimately have "searching hash (int cid) outf (content (wd s) outf) (b, clean_buf [], s')"
    using r(3,4,8) by (auto simp: searching_def)
  moreover have "(src, wire_bytes (one_hash 0 hash)) \<in> set (sent (wd s'))" using r(9) s(13-15) by blast
  ultimately show ?thesis using t by (intro exI [of _ "(b, clean_buf [], s')"]) (simp add: host_world_def s(1))
qed

lemma whohas_hop:
  assumes u: "supplier hash (n g)" and d: "(addr g, wire_bytes (one_hash 0 hash)) \<in> set (sent (host_world (n h)))" "direct (n h)"
    and len: "length hash = 20"
  shows "\<exists>st. hop junk addr n (n(g := st)) \<and> supplier hash st \<and> (addr h, wire_bytes (one_hash 1 hash)) \<in> set (sent (host_world st))"
proof -
  obtain b us s xs datafile where s: "n g = (b, us, s)" "plain_host b s" "can_serve s xs datafile"
    "hash \<in> hash_of (info (hp s)) ` set (xs Has)" using u by (auto simp: supplier_def)
  have sp: "\<not> giSpiffyEnabled (router (wd s))" using s(2) by (simp add: plain_host_def)
  from whohas_turn [OF s(3,4) len sp, of "addr h" 524288] obtain s1 s' where r:
    "dealwithincomepack (one_hash 0 hash) (addr h) s = Inr s1" "turn_work 524288 s1 = Inr s'" "can_serve s' xs datafile"
    "hp s' = hp s" "peer_frame s s'" "(addr h, wire_bytes (one_hash 1 hash)) \<in> set (sent (wd s'))" by blast
  note p = one_hash [OF len, of 0]
  from packet_hop [where n = n and h = g and g = h and addr = addr, OF s(1,2) d(2,1), of s1 s' junk] r(1,2) p obtain b' where
    b': "holds b' []" "hop junk addr n (n(g := (b', us, s')))" by auto
  have "supplier hash (b', us, s')" using plain_host_frame [OF s(2) r(5) b'(1)] r(3,4) s(4) by (auto simp: supplier_def)
  with b'(2) r(6) show ?thesis by (auto simp: host_world_def)
qed

lemma ihave_hop:
  assumes d: "searching hash cid name old (n h)" and i: "(addr h, wire_bytes (one_hash 1 hash)) \<in> set (sent (host_world (n g)))" "direct (n g)"
    and len: "length hash = 20"
  shows "\<exists>st p nd. hop junk addr n (n(h := st)) \<and> (\<forall>data. fips_sha1 data = hash \<longrightarrow> downloading data cid (addr g) name old 0 st) \<and>
    form_GET nd = Inr p \<and> node_hash nd = hash \<and> (addr g, wire_bytes p) \<in> set (sent (host_world st)) \<and> direct st"
proof -
  obtain b us s xs pos where s: "n h = (b, us, s)" "plain_host b s" "asking hash cid s xs" "progressing_writes (wd s)"
    "content (wd s) name = old" "open_fds (wd s) (output_fd (mydownload (me s))) = Some (name, pos)"
    using d by (auto simp: searching_def)
  have sp: "\<not> giSpiffyEnabled (router (wd s))" using s(2) by (simp add: plain_host_def)
  from ihave_turn [OF s(3) len sp, of "addr g" 524288] obtain s1 s' xs' nd p where r:
    "dealwithincomepack (one_hash 1 hash) (addr g) s = Inr s1" "turn_work 524288 s1 = Inr s'"
    "\<forall>data. fips_sha1 data = hash \<longrightarrow> download_at data cid (sin_port (addr g)) 0 s' xs' nd" "peer_frame s s'" "fd_kept s s'"
    "form_GET nd = Inr p" "node_hash nd = hash" "(addr g, wire_bytes p) \<in> set (sent (wd s'))" by blast
  note q = one_hash [OF len, of 1]
  from packet_hop [where n = n and h = h and g = g and addr = addr, OF s(1,2) i(2,1), of s1 s' junk] r(1,2) q obtain b' where
    b': "holds b' []" "hop junk addr n (n(h := (b', us, s')))" by auto
  have "progressing_writes (wd s')" "content (wd s') name = old" "open_fds (wd s') (output_fd (mydownload (me s'))) = Some (name, pos)"
    using s(4-6) r(4,5) by (simp_all add: peer_frame_def calm_def progressing_writes_def content_def fd_kept_def)
  then have "\<forall>data. fips_sha1 data = hash \<longrightarrow> downloading data cid (addr g) name old 0 (b', us, s')"
    using plain_host_frame [OF s(2) r(4) b'(1)] r(3) by (auto simp: downloading_def)
  with b'(2) r(6-8) plain_direct [OF plain_host_frame [OF s(2) r(4) b'(1)]] show ?thesis
    by (intro exI [of _ "(b', us, s')"] exI [of _ p] exI [of _ nd]) (simp add: host_world_def)
qed

lemma get_hop:
  assumes u: "supplier hash (n g)" and p: "form_GET nd = Inr p" "node_hash nd = hash"
    and d: "(addr g, wire_bytes p) \<in> set (sent (host_world (n h)))" "direct (n h)" and len: "length hash = 20"
  shows "\<exists>st data. hop junk addr n (n(g := st)) \<and> uploading data (addr h) 0 st \<and> length data = 524288 \<and> fips_sha1 data = hash"
proof -
  obtain b us s xs datafile where s: "n g = (b, us, s)" "plain_host b s" "can_serve s xs datafile"
    "hash \<in> hash_of (info (hp s)) ` set (xs Has)" using u by (auto simp: supplier_def)
  have sw: "swift (wd s)" and sp: "\<not> giSpiffyEnabled (router (wd s))" using s(2) by (simp_all add: plain_host_def)
  have l: "length (node_hash nd) = 20" using p(2) len by simp
  have q: "wf_packet p" "Packet_Type p = 2" "payload p = Some hash" using form_GET_result [OF l] p by auto
  have q': "Packet_Type (as_received p) = 2" "payload (as_received p) = Some hash" using q by (simp_all add: as_received_def)
  have "length (wire_bytes p) \<le> BUFLEN2" using q len by (simp add: wire_bytes_def body_def BUFLEN2_def)
  from get_turn [OF s(3) q' len s(4) sw sp, of "addr h" 524288] obtain s1 s' xs' B hi a data where r:
    "dealwithincomepack (as_received p) (addr h) s = Inr s1" "turn_work 524288 s1 = Inr s'" "upload_at B (addr h) 0 hi s' xs' a"
    "0 < hi" "carrying data B" "length data = 524288" "fips_sha1 data = hash" "peer_frame s s'" by blast
  from packet_hop [where n = n and h = g and g = h and addr = addr, OF s(1,2) d(2,1) q(1) \<open>length (wire_bytes p) \<le> BUFLEN2\<close> r(1,2), of junk]
  obtain b' where b': "holds b' []" "hop junk addr n (n(g := (b', us, s')))" by blast
  have "uploading data (addr h) 0 (b', us, s')"
    using plain_host_frame [OF s(2) r(8) b'(1)] r(3-5) by (auto simp: uploading_def)
  with b'(2) r(6,7) show ?thesis by blast
qed

section \<open>Properties\<close>

text \<open>
  C3. A download comes to its end: when the user of a host types \<open>GET chunkfile outputfile\<close>, the
  chunk file names one chunk, and a host of the peer list has that chunk, then there is a run
  of exactly 1027 more turns of the two hosts, each of which delivers a datagram that the other
  has sent (one WHOHAS, one IHAVE, one GET, and 512 DATA and ACK packets in turn), after which
  524288 bytes with the digest of the chunk file are at the place of the chunk in the output
  file, the requester has nothing left to do and the supplier no upload. No other host is needed.
\<close>

theorem download_completes:
  assumes "supplier hash (n g)" and "requester (addr g) chunkf outf cid hash (n h)" and "g \<noteq> h"
  shows "\<exists>st n' data. peer_turn junk 524288 (line_turn (get_line chunkf outf)) (n h) = Inr st \<and>
    (hop junk addr ^^ 1027) (n(h := st)) n' \<and> length data = 524288 \<and> fips_sha1 data = hash \<and>
    received data (int cid) outf (content (host_world (n h)) outf) (n' h) \<and> served (n' g) \<and> others_kept g h n n'"
proof -
  let ?old = "content (host_world (n h)) outf"
  have len: "length hash = 20" using assms(2) by (auto simp: requester_def)
  from command_hop [where n = n and h = h, OF assms(2), of junk] obtain s0 where
    s0: "peer_turn junk 524288 (line_turn (get_line chunkf outf)) (n h) = Inr s0" "searching hash (int cid) outf ?old s0"
    "(addr g, wire_bytes (one_hash 0 hash)) \<in> set (sent (host_world s0))" by blast
  let ?n0 = "n(h := s0)"
  have n0: "?n0 h = s0" "?n0 g = n g" using assms(3) by simp_all
  from whohas_hop [where n = ?n0 and h = h and g = g and addr = addr, unfolded n0, OF assms(1) s0(3) seeking_direct(2) [OF s0(2)] len, of junk] obtain s1 where
    s1: "hop junk addr ?n0 (?n0(g := s1))" "supplier hash s1" "(addr h, wire_bytes (one_hash 1 hash)) \<in> set (sent (host_world s1))"
    by blast
  let ?n1 = "?n0(g := s1)"
  have n1: "?n1 h = s0" "?n1 g = s1" using assms(3) by simp_all
  from ihave_hop [where n = ?n1 and h = h and g = g and addr = addr, unfolded n1, OF s0(2) s1(3) seeking_direct(1) [OF s1(2)] len, of junk] obtain s2 p nd where
    s2: "hop junk addr ?n1 (?n1(h := s2))" "\<And>data. fips_sha1 data = hash \<Longrightarrow> downloading data (int cid) (addr g) outf ?old 0 s2"
    "form_GET nd = Inr p" "node_hash nd = hash" "(addr g, wire_bytes p) \<in> set (sent (host_world s2))" "direct s2" by blast
  let ?n2 = "?n1(h := s2)"
  have n2: "?n2 h = s2" "?n2 g = s1" using assms(3) by simp_all
  from get_hop [where n = ?n2 and h = h and g = g and addr = addr, unfolded n2, OF s1(2) s2(3-6) len, of junk] obtain s3 data where
    s3: "hop junk addr ?n2 (?n2(g := s3))" "uploading data (addr h) 0 s3" "length data = 524288" "fips_sha1 data = hash" by blast
  let ?n3 = "?n2(g := s3)"
  have n3: "?n3 h = s2" "?n3 g = s3" "others_kept g h n ?n3" using assms(3) by (simp_all add: others_kept_def)
  from transfer [where n = ?n3 and h = h and g = g and addr = addr, unfolded n3(1,2), OF s2(2) [OF s3(4)] s3(2) assms(3) s3(3), of junk]
  obtain n' where n': "(hop junk addr ^^ 1024) ?n3 n'" "received data (int cid) outf ?old (n' h)" "served (n' g)"
    "others_kept g h ?n3 n'" by blast
  have "(hop junk addr ^^ 1027) ?n0 n'"
    using relpowp_Suc_I2 [where P = "hop junk addr", OF s1(1) relpowp_Suc_I2 [where P = "hop junk addr", OF s2(1)
      relpowp_Suc_I2 [where P = "hop junk addr", OF s3(1) n'(1)]]] by (simp only: Suc_numeral) simp
  moreover have "others_kept g h n n'" using n3(3) n'(4) by (simp add: others_kept_def)
  ultimately show ?thesis using s0(1) s3(3,4) n'(2,3) by blast
qed

text \<open>Host \<open>True\<close> has a chunk of zeros behind the bytes 1, 2, 3; host \<open>False\<close> looks for it.\<close>

definition served_digest :: "byte list" where
  "served_digest = fips_sha1 (chunk_image [1, 2, 3] 0)"

definition idle_peer :: "int \<Rightarrow> (byte list \<Rightarrow> byte list option) \<Rightarrow> heap \<Rightarrow> ptr \<Rightarrow> peer" where
  "idle_peer k fs h p = \<lparr>config = sample_config\<lparr>identity := k\<rparr>,
     me = \<lparr>me_id = k, me_addr = sample_addr_of 1, haslist = p,
       mydownload = \<lparr>output_fd = 0, concurr_download_num = 0, max_download_num = 3, howmany_found = 0,
         howmany_need = 0, needlist = None, get_tosend_quene = None, get_tosend_tail = None,
         get_sent_list = None, downloading_list = None\<rparr>,
       myupload = \<lparr>concurr_upload_num = 0, max_upload_num = 3, uploading_list = None, uploaded_list = None\<rparr>\<rparr>,
     hp = h, wd = quiet_world\<lparr>files := fs\<rparr>\<rparr>"

definition served_heap :: heap where
  "served_heap = \<lparr>nodes = [0 \<mapsto> \<lparr>node_from = sample_addr_of 1, node_hash = served_digest, chunkid = 0, next_node = None,
     node_time = 0, congWin = None, Recver = None\<rparr>], fresh = 1\<rparr>"

definition two_hosts :: "bool \<Rightarrow> host" where
  "two_hosts b = (zero_buf, clean_buf [], if b then idle_peer 1 sample_fs served_heap (Some 0)
     else idle_peer 2 [[103] \<mapsto> chunk_line (7, served_digest)] empty_heap None)"

lemma idle_inv:
  assumes "is_list h p as" and "heap_ok h" and "hashes_ok h" and "\<And>a. a \<in> set as \<Longrightarrow> \<exists>n. info h a = Some n \<and> node_ok Has n"
  shows "peer_inv (idle_peer k fs h p) (has_only as)"
proof -
  have "is_list h (lst (idle_peer k fs h p) l) (has_only as l)" for l
    using assms(1) by (cases l) (simp_all add: idle_peer_def is_list_def)
  moreover have "set (has_only as l) \<inter> set (has_only as m) = {}" if "l \<noteq> m" for l m
    using that by (cases l; cases m) simp_all
  ultimately have "shape (idle_peer k fs h p) (has_only as)"
    using assms(2,3) by (simp add: shape_def lists_ok_def) (simp add: idle_peer_def)
  moreover have "nodes_ok (info h) (has_only as)"
    unfolding nodes_ok_def using assms(4) by (metis has_only_simps(1,2) empty_iff list.set(1))
  moreover have "requests_ok (info h) (has_only as)" by (simp add: requests_ok_def claims_def running_def)
  moreover have "counters_ok (idle_peer k fs h p) (has_only as)" by (simp add: counters_ok_def idle_peer_def sample_config_def)
  moreover have "hp (idle_peer k fs h p) = h" by (simp add: idle_peer_def)
  ultimately show ?thesis by (simp add: peer_inv_def)
qed

lemma idle_plain: "plain_host zero_buf (idle_peer k fs h p)"
  by (simp add: plain_host_def holds_def zero_buf_def idle_peer_def quiet_world_def swift_def TIMEOUT_SEC_def)

lemma two_hosts_supplier: "supplier served_digest (two_hosts True)"
proof -
  let ?s = "idle_peer 1 sample_fs served_heap (Some 0)"
  have n: "info served_heap 0 = Some \<lparr>node_from = sample_addr_of 1, node_hash = served_digest, chunkid = 0, next_node = None,
     node_time = 0, congWin = None, Recver = None\<rparr>" by (simp add: served_heap_def info_def unlinked_def)
  have l: "length served_digest = 20" by (simp add: served_digest_def)
  have "is_list served_heap (Some 0) [0]" by (simp add: is_list_def served_heap_def)
  moreover have "heap_ok served_heap" by (simp add: heap_ok_def served_heap_def)
  moreover have "hashes_ok served_heap" using l
    by (auto simp: hashes_ok_def served_heap_def info_def unlinked_def split: if_splits)
  ultimately have i: "peer_inv ?s (has_only [0])" using n l by (intro idle_inv) (auto simp: node_ok_def)
  have "can_serve ?s (has_only [0]) [1, 2, 3]"
    unfolding can_serve_def using i n sample_fs_simps by (simp add: idle_peer_def sample_config_def quiet_world_def served_digest_def)
  moreover have "hash_of (info (hp ?s)) 0 = served_digest" using n by (simp add: hash_of_def idle_peer_def)
  ultimately show ?thesis using idle_plain unfolding supplier_def two_hosts_def by fastforce
qed

lemma two_hosts_requester: "requester (sample_addr_of 1) [103] [111] 7 served_digest (two_hosts False)"
proof -
  let ?fs = "[[103] \<mapsto> chunk_line (7, served_digest)]" and ?h = "empty_heap"
  have i: "peer_inv (idle_peer 2 ?fs ?h None) (has_only [])"
    by (rule idle_inv) (simp_all add: is_list_def empty_heap_def heap_ok_def hashes_ok_def info_def)
  have "plain_name [103]" "plain_name [111]" by (simp_all add: plain_name_def is_space_def)
  with i idle_plain [of 2 ?fs ?h None] show ?thesis
    unfolding requester_def two_hosts_def
    by (intro exI [of _ zero_buf] exI [of _ "idle_peer 2 ?fs ?h None"] exI [of _ "has_only []"])
      (simp add: idle_peer_def sample_config_def quiet_world_def served_digest_def progressing_writes_def)
qed

theorem download_completes_witness:
  "\<exists>st n' data. peer_turn (\<lambda>_. 0) 524288 (line_turn (get_line [103] [111])) (two_hosts False) = Inr st \<and>
    (hop (\<lambda>_. 0) (\<lambda>b. sample_addr_of (if b then 1 else 5)) ^^ 1027) (two_hosts(False := st)) n' \<and>
    fips_sha1 data = served_digest \<and> received data 7 [111] [] (n' False)"
proof -
  have "content (host_world (two_hosts False)) [111] = []" by (simp add: content_def host_world_def two_hosts_def idle_peer_def)
  with download_completes [where n = two_hosts and g = True and h = False and addr = "\<lambda>b. sample_addr_of (if b then 1 else 5)"
      and junk = "\<lambda>_. 0", OF two_hosts_supplier] two_hosts_requester show ?thesis by fastforce
qed

end
