(* ===== verification/Deployment.thy ===== *)
theory Deployment
  imports Session
begin

text \<open>
  The run of Session inside the network of Network: its turns lead from reachable states to reachable
  states, and hosts that \<open>main\<close> has started from suitable files are the hosts it needs. So a download
  completes from the files on the disks of two hosts on.
\<close>

section \<open>Hops are turns of the network\<close>

lemma hop_reachable:
  assumes "hop junk addr n n'" and "reachable n"
  shows "reachable n'"
  using assms(1)
proof (cases rule: hop.cases)
  case (deliver g h bs st)
  then have "delivered n h (Some (Some (addr g, bs)))" by (auto simp: delivered_def direct_def)
  then have "possible junk n h (packet_turn (addr g) bs)"
    by (auto simp: possible_def packet_turn_def typed_def)
  from reachable.turn [OF assms(2) this deliver(5)] show ?thesis by (simp add: deliver(1))
qed

lemma hops_reachable: "(hop junk addr ^^ k) n n' \<Longrightarrow> reachable n \<Longrightarrow> reachable n'"
proof (induction k arbitrary: n')
  case (Suc k)
  then obtain m where "(hop junk addr ^^ k) n m" "hop junk addr m n'" by auto
  with Suc hop_reachable show ?case by metis
qed simp

lemma command_possible:
  assumes r: "requester src chunkf outf cid hash (n h)" and o: "outf \<noteq> chunk_file (config (snd (snd (n h))))"
  shows "possible junk n h (line_turn (get_line chunkf outf))"
proof -
  obtain b s where s: "n h = (b, clean_buf [], s)" "plain_name chunkf" "plain_name outf"
    "files (wd s) chunkf = Some (chunk_line (cid, hash))" "cid < 4096" "length hash = 20"
    using r by (auto simp: requester_def)
  let ?line = "get_line chunkf outf"
  note line = get_line_bytes [OF s(2,3)]
  have "line_adm s ?line"
    unfolding line_adm_def scan_get_line [OF s(2,3)]
    using s(3-6) by (auto simp: wf_chunk_def intro!: exI [of _ "[(cid, hash)]"])
  then have c: "command_adm s ?line"
    using o by (simp add: command_adm_def scan_get_line [OF s(2,3)] s(1))
  have "accepts handle_user_input command_adm s (lines_of (?line @ [10]))"
    using c by (simp add: lines_of_line(1) [OF line(3)] split: sum.split)
  then have "typed (clean_buf []) s (Some (Some (?line @ [10])))"
    using line(1,2) by (auto simp: typed_def intro!: exI [of _ "[]"])
  then show ?thesis by (simp add: possible_def s(1) line_turn_def delivered_def receive_def)
qed

section \<open>Hosts that were started for it\<close>

text \<open>A network without delays and router.\<close>

definition calm_start :: "world \<Rightarrow> bool" where
  "calm_start w \<longleftrightarrow> swift w \<and> \<not> giSpiffyEnabled (router w)"

text \<open>
  The disk of a supplier: the file that \<open>-c\<close> names gives a data file, and the has-chunk file lists the
  chunks of this data file with their digests, the wanted one among them.
\<close>

definition seeds :: "world \<Rightarrow> bt_config \<Rightarrow> (nat \<times> byte list) list \<Rightarrow> byte list \<Rightarrow> bool" where
  "seeds w c es hash \<longleftrightarrow> calm_start w \<and> 0 < max_conn c \<and> hash \<in> snd ` set es \<and>
     (\<exists>master name datafile. files w (chunk_file c) = Some master \<and> read_master_line master = Inr name \<and>
        files w name = Some datafile \<and> (\<forall>e\<in>set es. snd e = fips_sha1 (chunk_image datafile (int (fst e)))))"

text \<open>
  The disk of a requester: a chunk file with one chunk, an output file that can be written, and a
  peer list with another peer at the address of the supplier.
\<close>

definition wants ::
  "world \<Rightarrow> bt_config \<Rightarrow> (byte list \<Rightarrow> u32 option) \<Rightarrow> peer_entry list \<Rightarrow> sockaddr_in \<Rightarrow>
   byte list \<Rightarrow> byte list \<Rightarrow> nat \<Rightarrow> byte list \<Rightarrow> bool" where
  "wants w c resolve ps src chunkf outf cid hash \<longleftrightarrow> calm_start w \<and> 0 < max_conn c \<and>
     plain_name chunkf \<and> plain_name outf \<and> outf \<noteq> chunk_file c \<and>
     files w chunkf = Some (chunk_line (cid, hash)) \<and> cid < 4096 \<and> length hash = 20 \<and>
     can_open w outf \<and> progressing_writes w \<and>
     (\<exists>e\<in>set ps. peer_addr (entry_peer resolve e) = src \<and> int (entry_id e) \<noteq> identity c)"

lemma boots_state:
  assumes "boots resolve inet_aton None opts w c ps es st"
  obtains s as port where "st = (zero_buf, clean_buf [], s)" "peer_inv s (has_only as)"
    "map (\<lambda>a. the (info (hp s) a)) as = rev (map (chunk_node (config s)) es)"
    "config s = c\<lparr>peers := rev (map (entry_peer resolve) ps), myport := port\<rparr>" "me_id (me s) = identity c"
    "concurr_upload_num (myupload (me s)) = 0" "max_upload_num (myupload (me s)) = max_conn c"
    "wd s = w\<lparr>ticks := Suc (ticks w), start_tm := micro_clock w (ticks w)\<rparr>"
proof -
  obtain d where a: "apply_options opts (testing_defaults bt_init, 0) = Inr (c, d)"
    "files w (peer_list_file c) = Some (concat (map entry_line ps))" "list_all (wf_entry resolve) ps"
    "identity c \<noteq> 0" "identity c \<in> (\<lambda>e. int (entry_id e)) ` set ps" "chunk_file c \<noteq> []" "has_chunk_file c \<noteq> []"
    "files w (has_chunk_file c) = Some (concat (map chunk_line es))"
    "list_all wf_chunk es" "\<forall>e\<in>set es. fst e < 4096" "0 \<le> max_conn c" "can_open w winlog_name"
    and st: "start_peer resolve inet_aton None opts w = Inr st"
    using assms unfolding boots_def by (elim exE conjE) (rule that)
  from start_peer_inv [OF a, of inet_aton None] st show ?thesis
    by (auto simp: create_userbuf_clean intro!: that)
qed

lemma boots_started: "boots resolve inet_aton env opts w c ps es st \<Longrightarrow> started st"
  unfolding started_def by (intro exI)

lemma calm_start_plain:
  assumes "calm_start w" and "wd s = w\<lparr>ticks := t, start_tm := m\<rparr>"
  shows "plain_host zero_buf s"
  using assms by (simp add: calm_start_def plain_host_def swift_def holds_def zero_buf_def)

lemma boots_supplier:
  assumes "boots resolve inet_aton None opts w c ps es st" and "seeds w c es hash"
  shows "supplier hash st"
proof -
  obtain s as port where s: "st = (zero_buf, clean_buf [], s)" "peer_inv s (has_only as)"
    "map (\<lambda>a. the (info (hp s) a)) as = rev (map (chunk_node (config s)) es)"
    "config s = c\<lparr>peers := rev (map (entry_peer resolve) ps), myport := port\<rparr>" "me_id (me s) = identity c"
    "concurr_upload_num (myupload (me s)) = 0" "max_upload_num (myupload (me s)) = max_conn c"
    "wd s = w\<lparr>ticks := Suc (ticks w), start_tm := micro_clock w (ticks w)\<rparr>"
    by (rule boots_state [OF assms(1)])
  obtain master name datafile where f: "calm_start w" "0 < max_conn c" "hash \<in> snd ` set es" "files w (chunk_file c) = Some master"
    "read_master_line master = Inr name" "files w name = Some datafile"
    "\<forall>e\<in>set es. snd e = fips_sha1 (chunk_image datafile (int (fst e)))" using assms(2) unfolding seeds_def by blast
  have nodes: "(\<lambda>a. the (info (hp s) a)) ` set as = chunk_node (config s) ` set es"
    using arg_cong [OF s(3), of set] by simp
  have "node_hash m = fips_sha1 (chunk_image datafile (chunkid m))" if "a \<in> set as" "info (hp s) a = Some m" for a m
  proof -
    have "m \<in> chunk_node (config s) ` set es" using that nodes by (metis image_eqI option.sel)
    then show ?thesis using f(7) by (auto simp: chunk_node_def)
  qed
  then have "can_serve s (has_only as) datafile"
    unfolding can_serve_def using s(2,4,6-8) f(2,4-6) by (auto simp: has_only_def)
  moreover have "hash_of (info (hp s)) ` set as = snd ` set es"
  proof -
    have "hash_of (info (hp s)) ` set as = node_hash ` (\<lambda>a. the (info (hp s) a)) ` set as"
      by (simp add: image_image hash_of_def)
    then show ?thesis by (simp add: nodes image_image chunk_node_def)
  qed
  then have "hash \<in> hash_of (info (hp s)) ` set (has_only as Has)" using f(3) by (simp add: has_only_def)
  ultimately show ?thesis
    using calm_start_plain [OF f(1) s(8)] s(1) unfolding supplier_def by blast
qed

lemma boots_requester:
  assumes "boots resolve inet_aton None opts w c ps es st" and "wants w c resolve ps src chunkf outf cid hash"
  shows "requester src chunkf outf cid hash st" and "chunk_file (config (snd (snd st))) = chunk_file c"
    and "content (host_world st) outf = content w outf"
proof -
  obtain s as port where s: "st = (zero_buf, clean_buf [], s)" "peer_inv s (has_only as)"
    "map (\<lambda>a. the (info (hp s) a)) as = rev (map (chunk_node (config s)) es)"
    "config s = c\<lparr>peers := rev (map (entry_peer resolve) ps), myport := port\<rparr>" "me_id (me s) = identity c"
    "concurr_upload_num (myupload (me s)) = 0" "max_upload_num (myupload (me s)) = max_conn c"
    "wd s = w\<lparr>ticks := Suc (ticks w), start_tm := micro_clock w (ticks w)\<rparr>"
    by (rule boots_state [OF assms(1)])
  obtain e where e: "e \<in> set ps" "peer_addr (entry_peer resolve e) = src" "int (entry_id e) \<noteq> identity c"
    using assms(2) by (auto simp: wants_def)
  then have "\<exists>q\<in>set (peers (config s)). peer_addr q = src \<and> peer_id q \<noteq> me_id (me s)"
    using s(4,5) by (auto simp: entry_peer_def intro!: bexI [of _ e])
  moreover have "progressing_writes (wd s)" "plain_host zero_buf s"
    using assms(2) calm_start_plain [OF _ s(8)] by (simp_all add: wants_def progressing_writes_def s(8))
  ultimately show "requester src chunkf outf cid hash st"
    unfolding requester_def using assms(2) s(1,2,4,8)
    by (intro exI [of _ zero_buf] exI [of _ s] exI [of _ "has_only as"]) (simp add: wants_def has_only_def)
  show "chunk_file (config (snd (snd st))) = chunk_file c" "content (host_world st) outf = content w outf"
    by (simp_all add: s(1,4,8) host_world_def content_def)
qed

section \<open>Properties\<close>

text \<open>
  C2. From disk to disk: take any network of started hosts, of which one was started on a disk with a
  data file and a truthful list of its chunks, and another on a disk with a chunk file that names one of
  these chunks and with the first host in its peer list. Then the command \<open>GET chunkfile outputfile\<close> on
  the second leads, by turns that all belong to this network, to a state in which 524288 bytes with
  the digest of the chunk file are at the place of the chunk in the output file, and the rest of the
  file is what it was.
\<close>

theorem download_from_disk_to_disk:
  fixes n :: "'h \<Rightarrow> host" and addr :: "'h \<Rightarrow> sockaddr_in"
  assumes "\<And>i. started (n i)" and "g \<noteq> h"
    and g: "boots r1 a1 None opts1 w1 c1 ps1 es1 (n g)" "seeds w1 c1 es1 hash"
    and h: "boots r2 a2 None opts2 w2 c2 ps2 es2 (n h)" "wants w2 c2 r2 ps2 (addr g) chunkf outf cid hash"
  shows "\<exists>n' data. reachable n' \<and> length data = 524288 \<and> fips_sha1 data = hash \<and>
    content (host_world (n' h)) outf = overwrite (content w2 outf) (cid * 524288) data"
proof -
  have n: "reachable n" by (rule reachable.start) (rule assms(1))
  note q = boots_requester [OF h]
  from download_completes [where n = n and g = g and h = h and addr = addr, OF boots_supplier [OF g] q(1) assms(2)]
  obtain st n' data where r: "peer_turn (\<lambda>_. 0) 524288 (line_turn (get_line chunkf outf)) (n h) = Inr st"
    "(hop (\<lambda>_. 0) addr ^^ 1027) (n(h := st)) n'" "length data = 524288" "fips_sha1 data = hash"
    "received data (int cid) outf (content (host_world (n h)) outf) (n' h)" by blast
  have "outf \<noteq> chunk_file (config (snd (snd (n h))))" using h(2) q(2) by (simp add: wants_def)
  from reachable.turn [OF n command_possible [where n = n and h = h, OF q(1) this] r(1)] have "reachable (n(h := st))" .
  from hops_reachable [OF r(2) this] have "reachable n'" .
  moreover have "content (host_world (n' h)) outf = overwrite (content (host_world (n h)) outf) (cid * 524288) data"
    using r(5) by (auto simp: received_def host_world_def CHUNK_SIZE_def nat_mult_distrib)
  then have "content (host_world (n' h)) outf = overwrite (content w2 outf) (cid * 524288) data" by (simp only: q(3))
  ultimately show ?thesis using r(3,4) by blast
qed

text \<open>
  Two disks: one with the bytes 1, 2, 3 as data file, whose only chunk its list names, and one with a
  chunk file that asks for this digest as chunk 7; the same peer list on both.
\<close>

definition two_entries :: "peer_entry list" where
  "two_entries = [\<lparr>entry_id = 1, entry_host = [104], entry_port = 5\<rparr>, \<lparr>entry_id = 2, entry_host = [104], entry_port = 6\<rparr>]"

definition disk :: "(nat \<times> byte list) list \<Rightarrow> world" where
  "disk es = quiet_world\<lparr>files := [ascii ''nodes.map'' \<mapsto> concat (map entry_line two_entries),
     ascii ''haschunks'' \<mapsto> concat (map chunk_line es), ascii ''chunkfile'' \<mapsto> [70, 58, 32, 100, 10],
     [100] \<mapsto> [1, 2, 3], [103] \<mapsto> chunk_line (7, served_digest)]\<rparr>"

definition seeder_config :: bt_config where
  "seeder_config = (testing_defaults bt_init)\<lparr>max_conn := 4\<rparr>"

definition asker_config :: bt_config where
  "asker_config = seeder_config\<lparr>identity := 2\<rparr>"

lemma sample_options:
  "apply_options [(109, [52])] (testing_defaults bt_init, 0) = Inr (seeder_config, 0)"
  "apply_options [(109, [52]), (105, [50])] (testing_defaults bt_init, 0) = Inr (asker_config, 0)"
proof -
  have a: "atoi [52] = 4" "atoi [50] = 2" "short 2 = 2" by code_simp+
  show "apply_options [(109, [52])] (testing_defaults bt_init, 0) = Inr (seeder_config, 0)"
    "apply_options [(109, [52]), (105, [50])] (testing_defaults bt_init, 0) = Inr (asker_config, 0)"
    by (simp_all add: apply_option_def a seeder_config_def asker_config_def)
qed

lemma disk_files:
  "files (disk es) (ascii ''nodes.map'') = Some (concat (map entry_line two_entries))"
  "files (disk es) (ascii ''haschunks'') = Some (concat (map chunk_line es))"
  "files (disk es) (ascii ''chunkfile'') = Some [70, 58, 32, 100, 10]"
  "files (disk es) [100] = Some [1, 2, 3]" "files (disk es) [103] = Some (chunk_line (7, served_digest))"
  by (simp_all add: disk_def ascii_def)

lemma disk_boots:
  assumes c: "apply_options opts (testing_defaults bt_init, 0) = Inr (c, d)"
    and names: "peer_list_file c = ascii ''nodes.map''" "has_chunk_file c = ascii ''haschunks''" "chunk_file c = ascii ''chunkfile''"
    and i: "identity c \<in> {1, 2}" "0 \<le> max_conn c" and es: "list_all wf_chunk es" "\<forall>e\<in>set es. fst e < 4096"
  shows "\<exists>st. boots (\<lambda>_. Some 1) (\<lambda>_. None) None opts (disk es) c two_entries es st"
proof -
  have l: "list_all (wf_entry (\<lambda>_. Some 1)) two_entries"
    by (simp add: two_entries_def wf_entry_def entry_line_def is_space_def show_nat.simps)
  have e: "(\<lambda>e. int (entry_id e)) ` set two_entries = {1, 2}" by (simp add: two_entries_def)
  have x: "identity c \<noteq> 0" "identity c \<in> (\<lambda>e. int (entry_id e)) ` set two_entries" "chunk_file c \<noteq> []" "has_chunk_file c \<noteq> []"
    using i(1) unfolding e names by (auto simp: ascii_def)
  have f: "files (disk es) (peer_list_file c) = Some (concat (map entry_line two_entries))"
    "files (disk es) (has_chunk_file c) = Some (concat (map chunk_line es))"
    unfolding names by (rule disk_files)+
  have w: "sent (disk es) = []" "open_fds (disk es) = (\<lambda>_. None)" "can_open (disk es) winlog_name"
    by (simp_all add: disk_def quiet_world_def)
  have src: "source_file (files (disk es)) (chunk_file c)"
    using disk_files(3,4) [of es] sample_fs_simps(3) unfolding names by (auto simp: source_file_def)
  from start_peer_inv [OF c f(1) l x f(2) es i(2) w(3), of "\<lambda>_. None" None] obtain st where
    "start_peer (\<lambda>_. Some 1) (\<lambda>_. None) None opts (disk es) = Inr st" by blast
  with c f l x es i(2) src w show ?thesis unfolding boots_def by blast
qed

lemma disk_calm: "calm_start (disk es)"
  by (simp add: calm_start_def disk_def quiet_world_def swift_def TIMEOUT_SEC_def)

theorem download_from_disk_to_disk_witness:
  "\<exists>(n :: bool \<Rightarrow> host) n' data. (\<forall>i. started (n i)) \<and> reachable n' \<and> length data = 524288 \<and> fips_sha1 data = served_digest \<and>
     content (host_world (n' False)) [111] = overwrite [] (7 * 524288) data"
proof -
  have c: "peer_list_file seeder_config = ascii ''nodes.map''" "has_chunk_file seeder_config = ascii ''haschunks''"
    "chunk_file seeder_config = ascii ''chunkfile''" "identity seeder_config \<in> {1, 2}" "0 \<le> max_conn seeder_config"
    "peer_list_file asker_config = ascii ''nodes.map''" "has_chunk_file asker_config = ascii ''haschunks''"
    "chunk_file asker_config = ascii ''chunkfile''" "identity asker_config \<in> {1, 2}" "0 \<le> max_conn asker_config"
    by (simp_all add: asker_config_def seeder_config_def testing_defaults_def bt_init_def)
  have l: "length served_digest = 20" by (simp add: served_digest_def)
  let ?es = "[(0, served_digest)] :: (nat \<times> byte list) list"
  have es: "list_all wf_chunk ?es" "\<forall>e\<in>set ?es. fst e < 4096" using l by (simp_all add: wf_chunk_def)
  obtain st1 where st1: "boots (\<lambda>_. Some 1) (\<lambda>_. None) None [(109, [52])] (disk ?es) seeder_config two_entries ?es st1"
    using disk_boots [OF sample_options(1) c(1-5) es] by blast
  obtain st2 where st2: "boots (\<lambda>_. Some 1) (\<lambda>_. None) None [(109, [52]), (105, [50])] (disk []) asker_config two_entries [] st2"
    using disk_boots [OF sample_options(2) c(6-10), of "[]"] by auto
  let ?n = "\<lambda>b. if b then st1 else st2"
    and ?addr = "\<lambda>b. peer_addr (entry_peer (\<lambda>_. Some 1) (two_entries ! (if b then 0 else 1)))"
  have s: "started (?n i)" for i using boots_started [OF st1] boots_started [OF st2] by simp
  have seeds: "seeds (disk ?es) seeder_config ?es served_digest"
    unfolding seeds_def c(3) disk_files using disk_calm sample_fs_simps(3)
    by (auto simp: served_digest_def disk_files seeder_config_def)
  have wants: "wants (disk []) asker_config (\<lambda>_. Some 1) two_entries (?addr True) [103] [111] 7 served_digest"
    unfolding wants_def c(8) disk_files using disk_calm [of "[]"] l
    by (auto simp: asker_config_def seeder_config_def plain_name_def is_space_def ascii_def disk_def quiet_world_def
        progressing_writes_def two_entries_def)
  have "content (disk []) [111] = []" by (simp add: content_def disk_def quiet_world_def ascii_def)
  with download_from_disk_to_disk [where n = ?n and g = True and h = False and addr = ?addr, OF s] st1 seeds st2 wants s
  show ?thesis by fastforce
qed

end
