(* ===== verification/Integrity.thy ===== *)
theory Integrity
  imports Handshake
begin

text \<open>
  What a turn may write: nothing, or one whole chunk with the right digest at its place, whatever
  the network brings and however \<open>write\<close> fails.
\<close>

section \<open>Writing the same bytes again\<close>

lemma length_overwrite: "length (overwrite f off bs) = (if bs = [] then length f else max (length f) (off + length bs))"
  by (auto simp: overwrite_def)

lemma nth_overwrite:
  assumes "i < length (overwrite f off bs)"
  shows "overwrite f off bs ! i = (if off \<le> i \<and> i < off + length bs then bs ! (i - off) else if i < length f then f ! i else 0)"
proof (cases "bs = []")
  case False
  let ?p = "take off (f @ replicate (off - length f) 0)"
  have o: "overwrite f off bs = ?p @ bs @ drop (off + length bs) f" using False by (simp add: overwrite_def)
  have l: "length ?p = off" by simp
  show ?thesis
  proof (cases "i < off")
    case True
    have "(?p @ bs @ drop (off + length bs) f) ! i = ?p ! i" using True l by (simp only: nth_append) simp
    then show ?thesis using True by (simp only: o) (simp add: nth_append)
  next
    case ge: False
    have "(?p @ bs @ drop (off + length bs) f) ! i = (bs @ drop (off + length bs) f) ! (i - off)"
      using ge l by (simp only: nth_append) simp
    then show ?thesis using ge assms by (simp only: o) (auto simp: nth_append length_overwrite False)
  qed
qed (use assms in \<open>auto simp: overwrite_def\<close>)

lemma overwrite_within:
  assumes "m \<le> length d" and "r \<le> m" and "r + v \<le> length d"
  shows "overwrite (overwrite f off (take m d)) (off + r) (take v (drop r d)) = overwrite f off (take (max m (r + v)) d)"
    (is "?l = ?r")
proof (rule nth_equalityI)
  let ?f = "overwrite f off (take m d)" and ?v = "take v (drop r d)"
  have lv: "length (take m d) = m" "length ?v = v" "length (take (max m (r + v)) d) = max m (r + v)" using assms by auto
  show len: "length ?l = length ?r" using assms by (auto simp: length_overwrite)
  fix i assume i: "i < length ?l"
  note nl = nth_overwrite [OF i, unfolded lv] and nr = nth_overwrite [OF i [unfolded len], unfolded lv]
  have f: "(if i < length ?f then ?f ! i else 0) =
      (if off \<le> i \<and> i < off + m then d ! (i - off) else if i < length f then f ! i else 0)"
    using nth_overwrite [of i f off "take m d"] length_overwrite [of f off "take m d"] lv(1) by auto
  show "?l ! i = ?r ! i"
  proof (cases "off + r \<le> i \<and> i < off + r + v")
    case True
    then have j: "i - (off + r) < v" "r + (i - (off + r)) = i - off" by auto
    then have "?v ! (i - (off + r)) = d ! (i - off)" using assms(3) by (simp only: nth_take [OF j(1)]) (simp add: nth_drop j(2))
    moreover have "off \<le> i" "i < off + max m (r + v)" "i - off < max m (r + v)" using True by (auto simp: less_max_iff_disj)
    then have "?r ! i = d ! (i - off)" by (simp add: nr)
    ultimately show ?thesis using True by (simp add: nl)
  next
    case False
    then have "?l ! i = (if i < length ?f then ?f ! i else 0)" by (simp only: nl False if_False)
    also have "\<dots> = (if off \<le> i \<and> i < off + m then d ! (i - off) else if i < length f then f ! i else 0)" by (rule f)
    also have "\<dots> = ?r ! i" using False assms(2) by (auto simp: nr)
    finally show ?thesis .
  qed
qed

section \<open>The write loop\<close>

text \<open>Documented behaviour of \<open>write\<close>: it fails or takes at most the bytes it is given.\<close>

definition bounded_writes :: "world \<Rightarrow> bool" where
  "bounded_writes w \<longleftrightarrow> (\<forall>k n. write_result w k n \<le> int n)"

text \<open>Without a descriptor nothing is written.\<close>

lemma write_loop_closed:
  "write_loop fuel buf k fd ret written w = Inr (r, w') \<Longrightarrow> open_fds w fd = None \<Longrightarrow> files w' = files w"
proof (induction fuel arbitrary: ret written w)
  case 0
  then show ?case by (subst (asm) write_loop.simps) (simp split: if_splits)
next
  case (Suc fuel)
  have "os_lseek w fd p = w" "os_write w fd bs = (-1, w\<lparr>writes := Suc (writes w)\<rparr>)" for p bs
    using Suc.prems(2) by (simp_all add: os_lseek_def os_write_def Let_def)
  with Suc.prems(1) show ?case
    by (subst (asm) write_loop.simps)
      (auto simp: Let_def ebind_eq_Inr guard_eq_Inr split: if_splits dest!: Suc.IH intro: Suc.prems(2))
qed

text \<open>
  If the loop ends, all the data is in place: also when \<open>write\<close> fails, and the loop steps back by a byte.
\<close>

lemma write_loop_integrity:
  assumes "length data = 524288" and "0 \<le> k" and "bounded_writes w" and "open_fds w fd = Some (name, pos)"
    and "m \<le> 524288" "ret \<le> int m" and "content w = c0(name := overwrite f (nat (k * 524288)) (take m data))"
    and "write_loop fuel (data @ [z]) k fd ret written w = Inr (r, w')"
  shows "content w' = c0(name := overwrite f (nat (k * 524288)) data)"
  using assms(3-)
proof (induction fuel arbitrary: ret written w pos m)
  case 0
  then have "ret = 524288" by (subst (asm) write_loop.simps) (simp add: CHUNK_SIZE_def split: if_splits)
  then have "m = 524288" using 0 by simp
  moreover have "w' = w" using 0(6) by (subst (asm) write_loop.simps) (simp split: if_splits)
  ultimately show ?case using 0(5) assms(1) by simp
next
  case (Suc fuel)
  show ?case
  proof (cases "ret = 524288")
    case True
    then have "m = 524288" using Suc.prems by simp
    moreover have "w' = w" using Suc.prems(6) True by (subst (asm) write_loop.simps) (simp add: CHUNK_SIZE_def)
    ultimately show ?thesis using Suc.prems(5) assms(1) by simp
  next
    case False
    let ?p = "k * 524288 + ret"
    let ?w1 = "os_lseek w fd ?p"
    obtain bs where bs: "mem_read (data @ [z]) ret (CHUNK_SIZE - ret) = Inr bs" and
      go: "write_loop fuel (data @ [z]) k fd (if fst (os_write ?w1 fd bs) \<noteq> 0 then ret + fst (os_write ?w1 fd bs) else ret)
        (fst (os_write ?w1 fd bs)) (snd (os_write ?w1 fd bs)) = Inr (r, w')"
      using Suc.prems(6) False
      by (subst (asm) write_loop.simps)
        (auto simp: Let_def ebind_eq_Inr guard_eq_Inr CHUNK_SIZE_def int_mult_def case_prod_beta split: if_splits)
    have ret: "0 \<le> ret" "ret < 524288"
      using bs False by (auto simp: mem_read_def CHUNK_SIZE_def split: if_splits)
    have bs': "bs = drop (nat ret) data"
      using bs ret assms(1) by (simp add: mem_read_def CHUNK_SIZE_def nat_diff_distrib split: if_splits)
    have w1: "?w1 = w\<lparr>open_fds := (open_fds w)(fd \<mapsto> (name, ?p))\<rparr>"
      using Suc.prems(2) assms(2) ret by (simp add: os_lseek_def)
    define v where "v = write_result w (writes w) (length bs)"
    have v: "v \<le> int (length bs)" using Suc.prems(1) by (simp add: bounded_writes_def v_def)
    show ?thesis
    proof (cases "v \<le> 0")
      case True
      then have o: "os_write ?w1 fd bs = (v, ?w1\<lparr>writes := Suc (writes w)\<rparr>)" by (simp add: os_write_def w1 Let_def v_def)
      show ?thesis
      proof (rule Suc.IH)
        show "bounded_writes (snd (os_write ?w1 fd bs))" using Suc.prems(1) unfolding o by (simp add: w1 bounded_writes_def)
        show "open_fds (snd (os_write ?w1 fd bs)) fd = Some (name, ?p)" unfolding o by (simp add: w1)
        show "(if fst (os_write ?w1 fd bs) \<noteq> 0 then ret + fst (os_write ?w1 fd bs) else ret) \<le> int m"
          using True Suc.prems(4) by (simp add: o)
        show "content (snd (os_write ?w1 fd bs)) = c0(name := overwrite f (nat (k * 524288)) (take m data))"
          using Suc.prems(5) unfolding o by (simp add: w1 content_def fun_eq_iff)
      qed (rule Suc.prems(3), rule go)
    next
      case wrote: False
      let ?g = "overwrite f (nat (k * 524288)) (take m data)" and ?n = "nat ret + nat v"
      have cw: "(case files w name of None \<Rightarrow> [] | Some f \<Rightarrow> f) = ?g"
        using fun_cong [OF Suc.prems(5), of name] by (simp add: content_def)
      have o: "os_write ?w1 fd bs = (v, ?w1\<lparr>writes := Suc (writes w), files := (files w)(name \<mapsto> overwrite ?g (nat ?p) (take (nat v) bs)),
          open_fds := (open_fds ?w1)(fd \<mapsto> (name, ?p + v))\<rparr>)"
        using wrote by (simp add: os_write_def w1 Let_def v_def [symmetric] cw)
      have n: "?n \<le> 524288" using v wrote ret assms(1) by (simp add: bs')
      have np: "nat ?p = nat (k * 524288) + nat ret" using assms(2) ret by (simp add: nat_add_distrib)
      have ow: "overwrite ?g (nat ?p) (take (nat v) bs) = overwrite f (nat (k * 524288)) (take (max m ?n) data)"
        unfolding np bs' by (rule overwrite_within) (use assms(1) Suc.prems(3,4) n in auto)
      show ?thesis
      proof (rule Suc.IH)
        show "bounded_writes (snd (os_write ?w1 fd bs))" using Suc.prems(1) unfolding o by (simp add: w1 bounded_writes_def)
        show "open_fds (snd (os_write ?w1 fd bs)) fd = Some (name, ?p + v)" unfolding o by (simp add: w1)
        show "max m ?n \<le> 524288" using Suc.prems(3) n by simp
        show "(if fst (os_write ?w1 fd bs) \<noteq> 0 then ret + fst (os_write ?w1 fd bs) else ret) \<le> int (max m ?n)"
          using wrote ret by (auto simp: o)
        show "content (snd (os_write ?w1 fd bs)) = c0(name := overwrite f (nat (k * 524288)) (take (max m ?n) data))"
          using Suc.prems(5) unfolding o by (simp add: w1 content_def fun_eq_iff ow)
      qed (rule go)
    qed
  qed
qed

section \<open>One call of reap\<close>

lemma merge_loop_length: "merge_loop n i b buf len = Inr (buf', len') \<Longrightarrow> length buf' = length buf"
proof (induction n arbitrary: i buf len)
  case (Suc n)
  then show ?case by (auto simp: ebind_eq_Inr mem_write_def split: if_splits dest!: Suc.IH)
qed simp

lemma reap_integrity:
  assumes r: "reap fuel rs k fd w = Inr (r, w')" and k: "0 \<le> k" and h: "length (recv_hash rs) = 20" and w: "bounded_writes w"
  shows "content w' = content w \<or> (\<exists>name pos data. open_fds w fd = Some (name, pos) \<and> length data = 524288 \<and>
    fips_sha1 data = recv_hash rs \<and> content w' = (content w)(name := overwrite (content w name) (nat (k * CHUNK_SIZE)) data))"
proof -
  obtain buf len where m: "merge_loop (nat (NPE rs - 1)) 1 (recv_buf rs) (replicate (nat CHUNK_SIZE + 1) 0) 0 = Inr (buf, len)"
    and c: "(if len = CHUNK_SIZE then ebind (check_onechunk_hash buf (recv_hash rs)) (\<lambda>same.
             if same then write_loop fuel buf k fd 0 0 w else Inr (-1, w)) else Inr (0, w)) = Inr (r, w')"
    using r by (auto simp: reap_def ebind_eq_Inr)
  have "length buf = Suc 524288" using merge_loop_length [OF m] by (simp add: CHUNK_SIZE_def)
  then obtain data z where d: "buf = data @ [z]" "length data = 524288" by (metis length_Suc_conv_rev)
  note hash = check_onechunk_hash_result [OF d(2) h, of "[z]"]
  show ?thesis
  proof (cases "len = CHUNK_SIZE \<and> fips_sha1 data = recv_hash rs")
    case False
    then have "w' = w" using c hash by (auto simp: d(1) split: if_splits)
    then show ?thesis by simp
  next
    case True
    then have l: "write_loop fuel (data @ [z]) k fd 0 0 w = Inr (r, w')" using c hash by (simp add: d(1))
    show ?thesis
    proof (cases "open_fds w fd")
      case None
      from write_loop_closed [OF l this] show ?thesis by (simp add: content_def fun_eq_iff)
    next
      case (Some np)
      then obtain name pos where np: "open_fds w fd = Some (name, pos)" by (cases np) auto
      have "content w = (content w)(name := overwrite (content w name) (nat (k * 524288)) (take 0 data))"
        by (simp add: overwrite_def)
      from write_loop_integrity [OF d(2) k w np _ _ this l] have
        "content w' = (content w)(name := overwrite (content w name) (nat (k * CHUNK_SIZE)) data)" by (simp add: CHUNK_SIZE_def)
      with np d(2) True show ?thesis by blast
    qed
  qed
qed

section \<open>The output descriptor\<close>

text \<open>Only commands change it.\<close>

lemma fd_kept_refl [simp]: "fd_kept s s" "fd_kept s (s\<lparr>wd := w\<rparr>)" "fd_kept s (s\<lparr>hp := h\<rparr>)" "fd_kept s (put_list l p s)"
  "fd_kept s (add_downloads d s)" "fd_kept s (add_found d s)" "fd_kept s (add_uploads d s)"
  by (simp_all add: fd_kept_def put_list_fd add_downloads_def add_found_def add_uploads_def upd_down_def upd_up_def)

lemma fd_kept_trans: "fd_kept s s1 \<Longrightarrow> fd_kept s1 s2 \<Longrightarrow> fd_kept s s2"
  by (simp add: fd_kept_def)

lemma list_calls_fd:
  "post (delete_in l p s) (fd_kept s)" "post (move_in l m p s) (fd_kept s)" "post (set_node p f s) (fd_kept s)"
  by (auto simp: delete_in_def move_in_def set_node_def fd_kept_def put_list_fd case_prod_beta intro!: post_any)

lemma timeout_loop_fd: "post (timeout_loop fuel t p k s) (\<lambda>(k', s'). fd_kept s s')"
proof (induction fuel arbitrary: p k s)
  case 0
  then show ?case by (cases p) simp_all
next
  case (Suc fuel)
  have ih: "post (timeout_loop fuel t q j s1) (\<lambda>(k', s'). fd_kept s s')" if "fd_kept s s1" for q j s1
    using Suc.IH [of q j s1] by (rule post_mono) (use that fd_kept_trans in auto)
  show ?case
    by (cases p) (auto simp: Let_def intro!: post_any [where m = "load h p" for h p] list_calls_fd [THEN post_mono] ih
        fd_kept_trans [OF _ fd_kept_refl(5), THEN fd_kept_trans, OF _ fd_kept_refl(6)])
qed

lemma put_window_fd: "post (put_window p W w s) (fd_kept s)"
  unfolding put_window_def by (rule post_mono [OF list_calls_fd(3)]) (simp add: fd_kept_def)

lemma check_recvack_timeout_fd: "post (check_recvack_timeout p s) (\<lambda>(k, s'). fd_kept s s')"
proof -
  have "post (abort_upload p (s\<lparr>wd := w\<rparr>)) (fd_kept s)" for w
    using list_calls_fd(1) [of Uploading p "s\<lparr>wd := w\<rparr>"]
    by (auto simp: abort_upload_def fd_kept_def add_uploads_def upd_up_def elim!: post_mono)
  then show ?thesis
    by (auto simp: check_recvack_timeout_def time_now_def Let_def intro!: post_any [where m = "load h p" for h p] elim!: post_mono)
qed

lemma upload_loop_fd: "post (upload_loop fuel p s) (fd_kept s)"
proof (induction fuel arbitrary: p s)
  case 0
  then show ?case by (cases p) simp_all
next
  case (Suc fuel)
  have ih: "post (upload_loop fuel q s1) (fd_kept s)" if "fd_kept s s1" for q s1
    using Suc.IH [of q s1] by (rule post_mono) (use that fd_kept_trans in auto)
  note steps = put_window_fd [THEN post_mono] check_recvack_timeout_fd [THEN post_mono] list_calls_fd(2) [THEN post_mono]
    post_any [where m = "load h p" for h p] post_any [where m = "window_sender w W" for w W]
    post_any [where m = "check_datapack_timeout w W" for w W]
  show ?case
    by (cases p) (auto simp: Let_def split: option.split intro!: steps ih,
      simp_all add: fd_kept_def add_uploads_def upd_up_def)
qed

lemma check_timeout_fd: "check_timeout s = Inr (k, s') \<Longrightarrow> fd_kept s s'"
proof -
  have "post (check_timeout s) (\<lambda>(k, s'). fd_kept s s')"
    by (auto simp: check_timeout_def time_now_def fd_kept_def intro!: timeout_loop_fd [THEN post_mono])
  then show "check_timeout s = Inr (k, s') \<Longrightarrow> fd_kept s s'" by simp
qed

lemma WhoHas_loop_fd: "post (WhoHas_loop fuel p ps s) (fd_kept s)"
proof (induction fuel arbitrary: p s)
  case 0
  then show ?case by (cases p) simp_all
next
  case (Suc fuel)
  have ih: "post (WhoHas_loop fuel q ps (s\<lparr>wd := w\<rparr>)) (fd_kept s)" for q w
    using Suc.IH [of q "s\<lparr>wd := w\<rparr>"] by (rule post_mono) (simp add: fd_kept_def)
  show ?case
    by (cases p) (auto intro!: post_any [where m = "form_WhoHas h d p" for h d p] post_any [where m = "broadcast w p ps k" for w p ps k]
        ih ih [of _ "wd s", simplified])
qed

lemma ask_around_fd: "ask_around s = Inr s' \<Longrightarrow> fd_kept s s'"
proof -
  assume r: "ask_around s = Inr s'"
  then obtain k s1 where "GET_sender s = Inr (k, s1)" "s' = s1 \<or> WhoHas_sender (needlist (mydownload (me s1))) (peers (config s1)) s1 = Inr s'"
    by (auto simp: ask_around_def ebind_eq_Inr Let_def split: if_splits)
  then show "fd_kept s s'"
    using GET_sender_fd postD [OF WhoHas_loop_fd] unfolding WhoHas_sender_def by (metis fd_kept_trans)
qed

lemma uploads_loop_fd: "uploads_loop s = Inr s' \<Longrightarrow> fd_kept s s'"
  using upload_loop_fd [of "Suc (fresh (hp s))" "lst s Uploading" s] by (simp add: uploads_loop_def)

section \<open>A turn\<close>

text \<open>
  One chunk that is needed and that is being received is written, with the digest it must have, at
  the place of its number in the open output file; no other byte of any file changes.
\<close>

definition one_chunk :: "peer \<Rightarrow> (list_var \<Rightarrow> nat list) \<Rightarrow> (byte list \<Rightarrow> byte list) \<Rightarrow> (byte list \<Rightarrow> byte list) \<Rightarrow> bool" where
  "one_chunk s xs c c' \<longleftrightarrow> (\<exists>a\<in>set (xs Downloading). \<exists>b\<in>set (xs Need). \<exists>n name pos data. info (hp s) a = Some n \<and>
     key_of (info (hp s)) b = (node_hash n, chunkid n) \<and> open_fds (wd s) (output_fd (mydownload (me s))) = Some (name, pos) \<and>
     length data = 524288 \<and> fips_sha1 data = node_hash n \<and>
     c' = c(name := overwrite (c name) (nat (chunkid n * CHUNK_SIZE)) data))"

lemma needed_download:
  assumes i: "peer_inv s xs" and a: "a \<in> set (xs Downloading)"
  shows "key_of (info (hp s)) a \<in> key_of (info (hp s)) ` set (xs Need)"
  using assms by (auto simp: peer_inv_def requests_ok_def claims_def)

lemma downloads_loop_integrity:
  assumes i: "peer_inv s xs" and w: "bounded_writes (wd s)" and r: "downloads_loop wfuel s = Inr s'"
  shows "content (wd s') = content (wd s) \<or> one_chunk s xs (content (wd s)) (content (wd s'))"
proof (cases "waiting s (xs Downloading)")
  case True
  from downloads_loop_walk [OF i _ True, of "[]" wfuel] r have "s' = ticked (length (xs Downloading)) s" by auto
  then show ?thesis by (simp add: ticked_def content_def fun_eq_iff)
next
  case False
  let ?I = "info (hp s)" and ?fd = "output_fd (mydownload (me s))"
  obtain vs a ys where split: "xs Downloading = vs @ a # ys" and vs: "waiting s vs"
    and stop: "chunk_complete ?I a \<or> download_expired ?I (clock (wd s) (ticks (wd s) + length vs)) a"
    by (rule first_stop [OF False])
  let ?s = "ticked (length vs) s"
  obtain fuel where f: "downloads_loop wfuel s = download_loop wfuel (Suc fuel) (Some a) ?s"
    using downloads_loop_walk [OF i split vs, of wfuel] by (auto simp del: download_loop.simps)
  have a: "a \<in> set (xs Downloading)" by (simp add: split)
  have ti: "peer_inv ?s xs" using i by simp
  obtain n rs where n: "?I a = Some n" "Recver n = Some rs" "recv_hash rs = node_hash n" "0 \<le> chunkid n" "length (node_hash n) = 20"
    by (rule download_node [OF i a])
  have c: "chunk_complete ?I a"
  proof (rule ccontr)
    assume "\<not> chunk_complete ?I a"
    with stop download_stop_late [OF ti a, of wfuel fuel] f r show False by (simp del: download_loop.simps)
  qed
  then have full: "recv_bytesnum rs = CHUNK_SIZE" using n(1,2) by (simp add: chunk_complete_def)
  have I: "info (hp ?s) a = Some n" using n(1) by simp
  from load_info [OF n(1)] obtain m where m: "load (hp s) (Some a) = Inr m" "Recver m = Some rs" "chunkid m = chunkid n"
    using n(2) by (metis unlinked_simps(3,6))
  obtain k w where rw: "reap wfuel rs (chunkid n) ?fd (wd ?s) = Inr (k, w)"
    using r f m full by (auto simp: ebind_eq_Inr)
  have "reap wfuel rs (chunkid n) (output_fd (mydownload (me ?s))) (wd ?s) = Inr (k, w)" using rw by simp
  from download_stop_complete [OF ti a I n(2) full this, of fuel] f r have w': "wd s' = os_close w ?fd"
    by (auto simp del: download_loop.simps split: if_splits)
  have "bounded_writes (wd ?s)" "content (wd ?s) = content (wd s)" "open_fds (wd ?s) = open_fds (wd s)"
    using w by (simp_all add: bounded_writes_def ticked_def content_def fun_eq_iff)
  with reap_integrity [OF rw n(4)] n(3,5) have "content w = content (wd s) \<or> (\<exists>name pos data. open_fds (wd s) ?fd = Some (name, pos) \<and>
    length data = 524288 \<and> fips_sha1 data = node_hash n \<and>
    content w = (content (wd s))(name := overwrite (content (wd s) name) (nat (chunkid n * CHUNK_SIZE)) data))" by simp
  moreover have "content (wd s') = content w" by (simp add: w' os_close_def content_def fun_eq_iff)
  moreover obtain b where "b \<in> set (xs Need)" "key_of ?I b = (node_hash n, chunkid n)"
    using needed_download [OF i a] n(1) by (auto simp: key_of_def [of ?I a] hash_of_def)
  ultimately show ?thesis using a n(1) unfolding one_chunk_def by metis
qed

lemma turn_work_integrity:
  assumes i: "peer_inv s xs" and w: "bounded_writes (wd s)" and r: "turn_work wfuel s = Inr s'"
  shows "content (wd s') = content (wd s) \<or> one_chunk s xs (content (wd s)) (content (wd s'))"
proof -
  from timeout_kept [OF i] obtain k s1 xs1 where s1: "check_timeout s = Inr (k, s1)" "peer_inv s1 xs1"
    "transfers_kept s xs s1 xs1" by blast
  from ask_around_kept [OF s1(2)] obtain s2 xs2 where s2: "ask_around s1 = Inr s2" "peer_inv s2 xs2"
    "transfers_kept s1 xs1 s2 xs2" by blast
  note kept = transfers_kept_trans [OF s1(3) s2(3)]
  have t: "turn_work wfuel s = ebind (uploads_loop s2) (downloads_loop wfuel)" using s1(1) s2(1) by (simp add: turn_work_def)
  from upload_loop_start [OF s2(2)] r t obtain s3 where s3: "uploads_loop s2 = Inr s3" "peer_frame s2 s3"
    "peer_inv s3 (xs2(Uploading := filter (\<lambda>a. \<not> upload_done (info (hp s2)) a) (xs2 Uploading),
       Uploaded := rev (filter (upload_done (info (hp s2))) (xs2 Uploading)) @ xs2 Uploaded))"
    "\<forall>b. b \<notin> set (xs2 Uploading) \<longrightarrow> info (hp s3) b = info (hp s2) b" unfolding uploads_loop_def by auto
  let ?xs = "xs2(Uploading := filter (\<lambda>a. \<not> upload_done (info (hp s2)) a) (xs2 Uploading),
       Uploaded := rev (filter (upload_done (info (hp s2))) (xs2 Uploading)) @ xs2 Uploaded)"
  have fr: "peer_frame s s3" using kept peer_frame_trans [OF _ s3(2)] by (simp add: transfers_kept_def)
  then have c: "content (wd s3) = content (wd s)" "open_fds (wd s3) = open_fds (wd s)" "bounded_writes (wd s3)"
    using w by (auto simp: peer_frame_def calm_def content_def bounded_writes_def)
  have d: "downloads_loop wfuel s3 = Inr s'" using r t s3(1) by simp
  have sh: "shape s2 xs2" using s2(2) by (simp add: peer_inv_def)
  have same: "xs2 l = xs l \<and> (\<forall>a\<in>set (xs l). info (hp s3) a = info (hp s) a)" if "l = Need \<or> l = Downloading" for l
  proof -
    have x: "xs2 l = xs l" "\<forall>a\<in>set (xs l). info (hp s2) a = info (hp s) a" using kept that by (auto simp: transfers_kept_def)
    moreover have "a \<notin> set (xs2 Uploading)" if "a \<in> set (xs l)" for a
      using that x(1) \<open>l = Need \<or> l = Downloading\<close> shapeD(3) [OF sh, of l Uploading] by auto
    ultimately show ?thesis using s3(4) by metis
  qed
  from downloads_loop_integrity [OF s3(3) c(3) d] consider "content (wd s') = content (wd s)"
    | "one_chunk s3 ?xs (content (wd s)) (content (wd s'))" unfolding c(1) by blast
  then show ?thesis
  proof cases
    case 2
    then obtain a b n name pos data where o: "a \<in> set (xs Downloading)" "b \<in> set (xs Need)" "info (hp s3) a = Some n"
      "key_of (info (hp s3)) b = (node_hash n, chunkid n)" "open_fds (wd s) (output_fd (mydownload (me s3))) = Some (name, pos)"
      "length data = 524288" "fips_sha1 data = node_hash n"
      "content (wd s') = (content (wd s))(name := overwrite (content (wd s) name) (nat (chunkid n * CHUNK_SIZE)) data)"
      using same [of Need] same [of Downloading] by (auto simp: one_chunk_def c(2))
    have "info (hp s) a = Some n" "key_of (info (hp s)) b = (node_hash n, chunkid n)"
      using o(1-4) same [of Need] same [of Downloading] by (auto simp: key_of_def hash_of_def)
    moreover have "output_fd (mydownload (me s3)) = output_fd (mydownload (me s))"
      using fd_kept_trans [OF fd_kept_trans [OF check_timeout_fd [OF s1(1)] ask_around_fd [OF s2(1)]] uploads_loop_fd [OF s3(1)]]
      by (simp add: fd_kept_def)
    ultimately show ?thesis using o unfolding one_chunk_def by metis
  qed simp
qed

section \<open>The inputs of a turn\<close>

text \<open>Opening the output file creates it at most; nothing else that reads inputs touches a file.\<close>

definition same_disk :: "world \<Rightarrow> world \<Rightarrow> bool" where
  "same_disk w w' \<longleftrightarrow> content w' = content w \<and> write_result w' = write_result w"

lemma same_disk_frame: "peer_frame s s' \<Longrightarrow> same_disk (wd s) (wd s')"
  by (simp add: peer_frame_def calm_def same_disk_def content_def fun_eq_iff)

lemma os_open_disk: "same_disk w (snd (os_open w name))"
  by (auto simp: os_open_def same_disk_def content_def fun_eq_iff split: option.split)

lemma clear_in_wd: "post (clear_in l s) (\<lambda>s'. wd s' = wd s)"
  by (auto simp: clear_in_def case_prod_beta intro!: post_any)

lemma handle_user_input_disk: "post (handle_user_input s line) (\<lambda>s'. same_disk (wd s) (wd s'))"
proof -
  have "post (reset_mydownload chunkf outf s) (\<lambda>s'. same_disk (wd s) (wd s'))" for chunkf outf
    using os_open_disk [of "wd s" "cstr outf"]
    by (auto simp: reset_mydownload_def Let_def case_prod_beta
        intro!: clear_in_wd [THEN post_mono] post_any [where m = "parse_hasneed_list fs h p c f" for fs h p c f]
          post_any [where m = "length_of_list h p" for h p] post_any [where m = "mem_write b k c" for b k c])
  moreover have "same_disk (wd s) (wd s)" by (simp add: same_disk_def)
  ultimately show ?thesis by (auto simp: handle_user_input_def process_get_def split: option.split)
qed

lemma feed_disk: "post (feed handle_user_input s ls) (\<lambda>s'. same_disk (wd s) (wd s'))"
proof (induction ls arbitrary: s)
  case (Cons l ls)
  have "post (feed handle_user_input s1 ls) (\<lambda>s'. same_disk (wd s) (wd s'))" if "same_disk (wd s) (wd s1)" for s1
    using Cons.IH [of s1] by (rule post_mono) (use that in \<open>simp add: same_disk_def\<close>)
  then show ?case by (auto intro!: handle_user_input_disk [THEN post_mono])
qed (simp add: same_disk_def)

lemma read_inputs_disk:
  assumes "reachable n" and p: "possible junk n i t" and r: "read_inputs junk t (n i) = Inr (b', u', s')"
  shows "same_disk (host_world (n i)) (wd s')"
proof -
  note ok = reachable_ok [OF assms(1)]
  obtain b u s where st: "n i = (b, u, s)" by (cases "n i") auto
  show ?thesis
  proof (cases "ready t")
    case False
    with r st show ?thesis by (simp add: read_inputs_def host_world_def same_disk_def)
  next
    case True
    with p st have d: "delivered n i (net t)"
      and ty: "\<And>b1 s1. receive junk (net t) b s = Inr (b1, s1) \<Longrightarrow> typed u s1 (term_input t)" by (auto simp: possible_def)
    from receive_safe [OF ok d st, of junk] obtain b1 s1 where s1: "receive junk (net t) b s = Inr (b1, s1)" "peer_frame s s1"
      by blast
    have "same_disk (wd s1) (wd s')"
    proof (cases "term_input t")
      case None
      with r True st s1(1) show ?thesis by (simp add: read_inputs_def receive_def same_disk_def)
    next
      case (Some inp)
      with ty [OF s1(1)] obtain bs str where a: "inp = Some bs" "u = clean_buf str" "length str + length bs \<le> 4096"
        "0 \<notin> set (str @ bs)" by (auto simp: typed_def)
      have "feed handle_user_input s1 (lines_of (str @ bs)) = Inr s'"
        using r True st s1(1) Some process_user_input_clean [OF a(3,4), of handle_user_input s1] a(1,2)
        by (auto simp: read_inputs_def receive_def ebind_eq_Inr)
      from postD [OF feed_disk this] show ?thesis .
    qed
    with same_disk_frame [OF s1(2)] show ?thesis by (simp add: same_disk_def st host_world_def)
  qed
qed

section \<open>Properties\<close>


lemma start_peer_writes: "post (start_peer resolve inet_aton env opts w) (\<lambda>(b, u, s). write_result (wd s) = write_result w)"
proof -
  have "write_result (snd (spiffy_init inet_aton w1 env i a)) = write_result w1" for w1 i a
    by (auto simp: spiffy_init_def Let_def split: option.split)
  then show ?thesis
    by (auto simp: start_peer_def peer_run_setup_def case_prod_beta
        intro!: init_winlog_post [THEN post_mono] init_peerme_good [THEN post_mono]
        post_any [where m = "bt_parse_command_line r fs os c" for r fs os c])
qed


end
