(* ===== verification/ReceiverSpec.thy ===== *)
theory ReceiverSpec
  imports Receiver
begin

text \<open>
  What the receiver of a chunk promises, without buffers, counters and bytes: it keeps the set
  of the packet numbers that have arrived, takes what is within thirty of the first gap, and
  answers as the gap says. The receiver of \<^verbatim>\<open>sock_io.c\<close> refines this.
\<close>

section \<open>The specification\<close>

definition gap :: "int set \<Rightarrow> int" where
  "gap R = hd (filter (\<lambda>i. i \<notin> R) [1..513])"

text \<open>The numbers that arrived and the acknowledgements sent, with their receivers, in order.\<close>

type_synonym recv_spec = "int set \<times> (sockaddr_in \<times> int) list"

definition taken :: "int set \<Rightarrow> int \<Rightarrow> bool" where
  "taken R i \<longleftrightarrow> 1 \<le> i \<and> i \<le> min 512 (gap R + 30)"

definition answers :: "int set \<Rightarrow> int \<Rightarrow> int list" where
  "answers R i = (if \<not> taken R i then []
     else if i = gap R then [i..gap (insert i R) - 1]
     else if i > gap R then [gap R - 1] else [i])"

fun spec_receive :: "recv_spec \<Rightarrow> packet \<times> sockaddr_in \<Rightarrow> recv_spec" where
  "spec_receive (R, A) (p, addr) =
     (let i = sint (Seq_Num p)
      in (if taken R i then insert i R else R, A @ map (Pair addr) (answers R i)))"

section \<open>The first gap\<close>

lemma gap_first:
  assumes "R \<subseteq> {1..512}"
  shows "1 \<le> gap R \<and> gap R \<le> 513 \<and> gap R \<notin> R \<and> (\<forall>i. 1 \<le> i \<longrightarrow> i < gap R \<longrightarrow> i \<in> R)"
proof -
  have "513 \<in> set (filter (\<lambda>i. i \<notin> R) [1..513])" using assms by auto
  then obtain y ys where f: "filter (\<lambda>i. i \<notin> R) [1..513] = y # ys" by (cases "filter (\<lambda>i. i \<notin> R) [1..513]") auto
  then obtain us vs where u: "[1..513] = us @ y # vs" "\<forall>u\<in>set us. u \<in> R" "y \<notin> R" by (auto simp: filter_eq_Cons_iff)
  have y: "gap R = y" by (simp add: gap_def f)
  have "sorted (us @ y # vs)" unfolding u(1) [symmetric] by simp
  then have "\<forall>v\<in>set vs. y \<le> v" by (simp add: sorted_append)
  moreover have set: "set us \<union> insert y (set vs) = {1..513}" using arg_cong [OF u(1), of set] by simp
  ultimately have "i \<in> set us" if "1 \<le> i" "i < y" "y \<le> 513" for i
    using that by (metis Un_iff atLeastAtMost_iff insert_iff linorder_not_less order_trans less_imp_le)
  moreover have "1 \<le> y" "y \<le> 513" using set by auto
  ultimately show ?thesis using u(2,3) y by auto
qed

lemma gap_eq:
  assumes "R \<subseteq> {1..512}" and "1 \<le> k" "k \<notin> R" and "\<And>i. 1 \<le> i \<Longrightarrow> i < k \<Longrightarrow> i \<in> R"
  shows "gap R = k"
  using gap_first [OF assms(1)] assms(2-4) by (metis linorder_neqE_linordered_idom)

section \<open>The refinement\<close>

definition arrived :: "Recv_State \<Rightarrow> int set" where
  "arrived rs = {i. 1 \<le> i \<and> i \<le> 512 \<and> recv_buf rs i \<noteq> None}"

definition ack_grams :: "spiffy_globals \<Rightarrow> (sockaddr_in \<times> int) list \<Rightarrow> datagram list" where
  "ack_grams g A = concat (map (\<lambda>(addr, i). emitted g addr (wire_bytes (form_ACK_pack i))) A)"

definition receives :: "world \<Rightarrow> Recv_State \<times> world \<Rightarrow> recv_spec \<Rightarrow> bool" where
  "receives w0 s a \<longleftrightarrow> (case (s, a) of ((rs, w), (R, A)) \<Rightarrow> recv_inv rs \<and> R = arrived rs \<and>
     router w = router w0 \<and> sent w = sent w0 @ ack_grams (router w0) A)"

lemma gap_arrived: "recv_inv rs \<Longrightarrow> gap (arrived rs) = NPE rs"
  by (rule gap_eq) (auto simp: arrived_def recv_inv_def)

lemma arrived_stored:
  "1 \<le> sint (Seq_Num p) \<Longrightarrow> sint (Seq_Num p) \<le> 512 \<Longrightarrow> arrived (stored p rs) = insert (sint (Seq_Num p)) (arrived rs)"
  by (auto simp: arrived_def stored_def)

lemma taken_window: "recv_inv rs \<Longrightarrow> taken (arrived rs) i = recv_window rs i"
  by (auto simp: taken_def recv_window_def gap_arrived)

lemma ack_grams_append: "ack_grams g (A @ B) = ack_grams g A @ ack_grams g B"
  by (simp add: ack_grams_def)

lemma acks_grams: "acks g addr i k = ack_grams g (map (Pair addr) [i..i + int k - 1])"
proof (induction k arbitrary: i)
  case (Suc k)
  have "[i..i + int (Suc k) - 1] = i # [i + 1..i + 1 + int k - 1]" by (subst upto.simps) (simp add: ac_simps)
  then show ?case by (simp add: acks_Suc Suc.IH [of "i + 1"]) (simp add: ack_grams_def)
qed (simp add: ack_grams_def)

lemma receive_refines:
  assumes r: "receives w0 (rs, w) (R, A)"
  shows "\<exists>rs' w'. upon_receiving_datapack w p rs addr = Inr (rs', w') \<and>
    receives w0 (rs', w') (spec_receive (R, A) (p, addr))"
proof -
  let ?i = "sint (Seq_Num p)"
  have i: "recv_inv rs" and R: "R = arrived rs" and w: "router w = router w0" "sent w = sent w0 @ ack_grams (router w0) A"
    using r by (simp_all add: receives_def)
  note g = gap_arrived [OF i] and t = taken_window [OF i]
  show ?thesis
  proof (cases "recv_window rs ?i")
    case False
    with receive_ignored [OF False i, of w addr] r show ?thesis by (simp add: R t answers_def)
  next
    case True
    then have b: "1 \<le> ?i" "?i \<le> 512" by (simp_all add: recv_window_def)
    show ?thesis
    proof (cases "?i = NPE rs")
      case False
      from receive_out_of_order [OF i True refl False, of w addr] receive_inv [OF i, of w p addr] have
        "recv_inv (stored p rs)" by auto
      moreover have "answers R ?i = [if NPE rs < ?i then NPE rs - 1 else ?i]" using False True by (simp add: answers_def R t g)
      ultimately show ?thesis using receive_out_of_order [OF i True refl False, of w addr] True w
        by (simp add: receives_def R t arrived_stored [OF b] acks_grams ack_grams_append Let_def)
    next
      case ordered: True
      then have l: "NPE rs \<le> 512" using b by simp
      from receive_in_order [OF i l ordered, of w addr] obtain k rs' where k: "0 < k"
        "upon_receiving_datapack w p rs addr = Inr (rs', record_sent w (acks (router w) addr (NPE rs) k))"
        "NPE rs' = NPE rs + int k" "recv_buf rs' = recv_buf (stored p rs)" by auto
      from receive_inv [OF i, of w p addr] k(2) have i': "recv_inv rs'" by auto
      have a: "arrived rs' = insert ?i R" using arrived_stored [OF b, of rs] k(4) by (simp add: arrived_def R)
      have "answers R ?i = [NPE rs..NPE rs + int k - 1]"
        using gap_arrived [OF i'] a k(3) ordered True by (simp add: answers_def R t g)
      with k(2) i' a w ordered True show ?thesis
        by (simp add: receives_def R t acks_grams ack_grams_append Let_def)
    qed
  qed
qed

interpretation rcv: simulation recv_step spec_receive "\<lambda>_. True" "receives w0" for w0
proof unfold_locales
  fix s :: "Recv_State \<times> world" and a :: recv_spec and e :: "packet \<times> sockaddr_in"
  assume "receives w0 s a"
  moreover obtain rs w R A p addr where "s = (rs, w)" "a = (R, A)" "e = (p, addr)" by (metis prod.exhaust)
  ultimately show "\<exists>s'. recv_step s e = Inr s' \<and> receives w0 s' (spec_receive a e)"
    using receive_refines [of w0 rs w R A p addr] by (auto simp: recv_step_def)
qed

section \<open>Properties\<close>

text \<open>
  C13. The receiver refines its specification: after any sequence of DATA packets with any numbers,
  contents and senders, the filled slots are exactly the numbers that the specification has
  taken, the next packet expected is the first gap among them, the byte counter is in range, and
  the ACK packets sent are exactly those of the specification, in order, each to the sender of
  the packet it answers.
\<close>

theorem receiver_refines_spec:
  assumes "create_Recver hash = Inr rs0" and "length hash = 20" and "foldl spec_receive ({}, []) es = (R, A)"
  shows "\<exists>rs w'. run_steps recv_step (rs0, w) es = Inr (rs, w') \<and>
    {i. 1 \<le> i \<and> i \<le> 512 \<and> recv_buf rs i \<noteq> None} = R \<and> NPE rs = gap R \<and> \<bar>recv_bytesnum rs\<bar> < 2 ^ 31 \<and>
    sent w' = sent w @ concat (map (\<lambda>(addr, i). emitted (router w) addr (wire_bytes (form_ACK_pack i))) A)"
proof -
  have "recv_inv rs0" "recv_buf rs0 = (\<lambda>_. None)" using create_Recver_inv [of hash] assms(1,2) by auto
  then have "receives w (rs0, w) ({}, [])" by (simp add: receives_def arrived_def ack_grams_def)
  from rcv.run_sim [OF this, of es] assms(3) obtain rs w' where
    "run_steps recv_step (rs0, w) es = Inr (rs, w')" "receives w (rs, w') (R, A)" by (auto simp: list.pred_True)
  moreover from this have "NPE rs = gap R" "\<bar>recv_bytesnum rs\<bar> < 2 ^ 31"
    by (auto simp: receives_def gap_arrived recv_inv_def)
  ultimately show ?thesis by (intro exI [of _ rs] exI [of _ w']) (simp add: receives_def arrived_def ack_grams_def)
qed

theorem receiver_refines_spec_witness:
  "\<exists>rs0 rs w'. create_Recver (replicate 20 0) = Inr rs0 \<and>
    run_steps recv_step (rs0, quiet_world) (map (\<lambda>i. (sample_data i, \<lparr>sin_family = AF_INET, sin_port = 9, sin_addr = 8\<rparr>)) [2, 1, 40]) =
      Inr (rs, w') \<and> NPE rs = 3 \<and>
    sent w' = map (\<lambda>i. (\<lparr>sin_family = AF_INET, sin_port = 9, sin_addr = 8\<rparr>, wire_bytes (form_ACK_pack i))) [0, 1, 2]"
proof -
  let ?a = "\<lparr>sin_family = AF_INET, sin_port = 9, sin_addr = 8\<rparr>"
  let ?es = "map (\<lambda>i. (sample_data i, ?a)) [2, 1, 40]"
  obtain rs0 where rs0: "create_Recver (replicate 20 0) = Inr rs0" using fresh_recv by blast
  have g: "gap {} = 1" "gap {2} = 1" "gap {1, 2} = 3" by (rule gap_eq; force)+
  have s: "foldl spec_receive ({}, []) ?es = ({1, 2}, map (Pair ?a) [0, 1, 2])"
    using g by (simp add: taken_def answers_def Let_def sample_data_def upto.simps [of 1] upto.simps [of 2] upto.simps [of 3])
  from receiver_refines_spec [OF rs0 _ this, of quiet_world] rs0 g(3) show ?thesis
    by (auto simp: quiet_world_simps)
qed

end
