(* ===== verification/Spec2Isabelle.thy ===== *)
theory Spec2Isabelle
  imports Sha ShaVariants Chunk Packet Spiffy WinLog Window WindowFill Receiver Reassembly BtParse InputBuffer Hashlist ListSpec Catalog PeerLoop Honest Network Session Deployment Integrity ReceiverSpec
begin

text \<open>
  A verification of the peer: a BitTorrent-like file exchange over UDP, written in C. A
  peer knows the other peers from a list file, owns some 512 KiB chunks of a data file and
  downloads others on the command \<open>GET chunkfile outputfile\<close>: it broadcasts WHOHAS packets
  with the digests it needs, collects IHAVE answers, sends one GET per host, receives the
  chunk as 512 DATA packets that it acknowledges one by one, checks the SHA-1 digest and
  writes the chunk at its place in the output file. The sender of a chunk keeps a window
  with slow start and congestion avoidance.

  \<^bold>\<open>What a definition says.\<close> A C function is a HOL function of the same name, with the state
  it touches as argument and result. Its type ends in \<open>res\<close>, the sum of a \<open>fault\<close> and the
  result: \<open>Inl\<close> is the first undefined or fatal action (null dereference, access outside an
  array, use of a freed node, signed overflow, read of an uninitialised variable, failed
  \<open>assert\<close>, \<open>exit\<close>, a loop that never ends), so that "is not \<open>Inl\<close>" is the safety of the C
  code. Integers have their C widths as words; where the code computes in \<open>int\<close>, \<open>int\<close> is
  used and a possible overflow is a fault. The \<open>float\<close> of the congestion window is rounded to
  24 bits after every operation. The outside is a record \<open>world\<close>: the readings of the clocks,
  the results of \<open>sendto\<close> and \<open>write\<close> as functions of the number of calls, the file system,
  the descriptors and everything handed to the network so far. Every theorem holds for all
  such worlds unless it restricts them.

  \<^bold>\<open>Parts.\<close>
  \<^item> Prelude, Bytes, Float32, CText: results, bounds-checked memory, the locales
    \<open>safe_machine\<close> of steps that keep an invariant and \<open>simulation\<close> of steps that do what a
    specification says; byte order and the locale \<open>byte_codec\<close>;
    single precision; C strings, \<open>fgets\<close> and \<open>sscanf\<close>.
  \<^item> Sha, ShaVariants (\<^verbatim>\<open>sha.c\<close>): the streaming digest as it is compiled, against the definition
    of FIPS 180-4; then every other build that the macros select on a little-endian host.
  \<^item> Chunk (\<^verbatim>\<open>chunk.c\<close>, \<^verbatim>\<open>make_chunks.c\<close>): \<open>shahash\<close>, hexadecimal, the list of chunk digests.
  \<^item> Packet (\<^verbatim>\<open>packet.c\<close>): the packet structure, its wire format, the receive buffer.
  \<^item> Spiffy (\<^verbatim>\<open>spiffy.c\<close>, part of \<^verbatim>\<open>sock_io.c\<close>): the world, the router header, sending, broadcast.
  \<^item> WinLog (\<^verbatim>\<open>win_log.c\<close>): the log of the window sizes, its lines and their reading.
  \<^item> Window, WindowFill (\<^verbatim>\<open>sock_io.c\<close>): the sender. Filling a window from the data file, bursts,
    timeouts, acknowledgements; the invariant \<open>win_inv\<close> over any schedule of these.
  \<^item> Receiver, ReceiverSpec, Reassembly (\<^verbatim>\<open>sock_io.c\<close>): the receiver. Storing and acknowledging DATA
    packets, merging them, checking the digest, writing; the invariant \<open>recv_inv\<close> over any packets;
    the receiver as a set of numbers with a first gap, which the code refines.
  \<^item> BtParse (\<^verbatim>\<open>bt_parse.c\<close>, \<^verbatim>\<open>debug.c\<close>), InputBuffer (\<^verbatim>\<open>input_buffer.c\<close>): options and peer list; the line
    buffer of the terminal with the locale \<open>line_handler\<close> for the handler it is given.
  \<^item> Hashlist, ListSpec, Catalog (\<^verbatim>\<open>hashlist.c\<close>): linked lists in an explicit heap. \<open>lists_ok\<close>
    relates list variables to sequences of addresses; the locale \<open>list_store\<close> is the
    interface the peer uses; ListSpec refines sequences of descriptions. Catalog has the
    chunk files and the WHOHAS, IHAVE and GET packets made from lists.
  \<^item> PeerState, PeerPackets, PeerServe, PeerRequests, PeerTransfers, PeerLoop (\<^verbatim>\<open>peer.c\<close>): the
    globals; the handlers of packets and the receive loop; requests and their timeouts; the
    loops over uploads and downloads; commands, one turn of \<open>peer_run\<close>, the start in \<open>main\<close>.
  \<^item> Honest, Network: what a peer puts on the wire and when every peer can handle it; networks of
    any number of hosts as an inductive set of reachable states, closed under loss, repetition,
    delay and reordering of datagrams and any interleaving of turns.
  \<^item> ChunkTransfer, Handshake, Session: what a turn does that brings the next DATA packet or
    acknowledgement, a command or one of the packets before the transfer; then the run of turns
    of two hosts that takes a download from the command to the chunk in the output file.
  \<^item> Deployment: the run of Session is a run of the network of Network, from hosts that \<open>main\<close> has
    started on given disks.
  \<^item> Integrity: what a turn may write to the files of its host.

  \<^bold>\<open>The invariant of the peer.\<close> \<open>peer_inv s xs\<close> says that the seven list variables of the state
  \<open>s\<close> hold the disjoint address sequences \<open>xs\<close> in a well-formed heap (\<open>shape\<close>), that every node
  has what its list needs (\<open>nodes_ok\<close>: uploads have a window with \<open>win_inv\<close>, downloads a
  receiver with \<open>recv_inv\<close>), that no chunk is claimed twice, or under another number than it
  is needed at, and no host serves two requests (\<open>requests_ok\<close>) and that the counters count (\<open>counters_ok\<close>). Each handler has a lemma
  \<open>..._inv\<close> or \<open>..._kept\<close>; PeerServe and PeerLoop collect them as interpretations of
  \<open>safe_machine\<close> for packets, lines and turns.

  \<^bold>\<open>What the properties show.\<close> Safety and invariants of the event loop, of packet handling, of
  sender and receiver; the digest and its builds equal FIPS 180-4; a chunk that is sent over
  a lossless channel ends up in the output file, and a chunk received in any order with
  losses and repetitions is written exactly; a whole download between two hosts runs to its end,
  from the files both are started on, when nothing is lost (the hosts' clocks may advance by ten
  seconds), and nothing but a whole
  chunk with the digest it must have is ever written; the effect of each packet type, command,
  request timeout and pass of the main loop; round trips of packets, headers and the start-up
  files; the list operations refine sequences. The properties of kind error state what the code
  does wrong and under which condition; the findings of the manifest point to them.

  \<^bold>\<open>Bounds and fuel.\<close> The walks over lists take a fuel of one more than the number of nodes ever
  allocated (\<open>fresh\<close>); as the nodes of a list are distinct and below \<open>fresh\<close>, it never runs out
  under the invariant, and the lemmas show results, not just absence of \<open>Hang\<close>. The fuel of
  \<open>write_loop\<close> bounds the calls of \<open>write\<close> in one \<open>reap\<close>: if every call makes progress, one call
  per byte (524288) is enough; a disk that always returns 0 makes the C loop spin for ever,
  which is \<open>Hang\<close> for every fuel. The other loops are structural or have a termination proof.

  \<^bold>\<open>Assumptions.\<close> The host is little-endian with 32-bit \<open>int\<close>. \<open>malloc\<close> succeeds and hands out new
  addresses; memory the code never writes is a parameter. \<open>gethostbyname\<close>, \<open>inet_aton\<close>,
  \<open>getopt\<close>, \<open>select\<close>, the sockets and the environment are parameters.

  \<^bold>\<open>Not modelled.\<close> Printing and the lines that the windows write to their log (the log has its own
  state, which nothing else depends on), \<open>print_peer_me\<close>, which nothing calls, \<open>bt_dump_config\<close>, the usage text,
  \<open>burnStack\<close>, which overwrites dead stack, builds of \<^verbatim>\<open>sha.c\<close> for big-endian hosts, the release of
  packets and windows (nodes are released and their later use is a fault), and the demonstrations \<^verbatim>\<open>client.c\<close>, \<^verbatim>\<open>server.c\<close>, \<^verbatim>\<open>test_input_buffer.c\<close>,
  which are not part of the peer.
\<close>

end
